(* ===== verification/Prelude.thy ===== *)
theory Prelude
  imports Main "HOL-Library.Word" "HOL-Library.List_Lexorder"
begin

text \<open>
  Shared vocabulary of the development: machine integers and byte strings, the
  failures a Go function can end in, the error monad every fallible operation is
  written in, bounds-checked slicing and indexing, and the lemma collections the
  component theories use.

  A Go function that returns \<open>(T, error)\<close> is modelled with the result type
  \<open>'a res\<close>. Its failures keep apart what the program distinguishes: an error value
  built on one of the sentinels of \<open>internal/util/errors.go\<close> (\<open>Err\<close>), an error of the
  writer that carries no sentinel (\<open>ClosedErr\<close>), an error of the underlying stream
  (\<open>IOErr\<close>), a run-time panic such as a slice out of range (\<open>Panic\<close>), and memory that
  no Go process can allocate (\<open>OutOfMemory\<close>). The last two are crashes, never values
  a caller can inspect: \<open>graceful\<close> says that a result is not one of them.
\<close>

unbundle bit_operations_syntax

section \<open>Machine types\<close>

type_synonym byte = "8 word"
type_synonym bytes = "byte list"
type_synonym u8 = "8 word"
type_synonym u16 = "16 word"
type_synonym u32 = "32 word"
type_synonym u64 = "64 word"

section \<open>Failures and the error monad\<close>

datatype sentinel =
    Truncated | BadMagic | UnsupportedVersion | BadChecksum | Corrupt
  | LimitExceeded | UnknownEncoding | UnknownCompression | SchemaError

datatype fault = Err sentinel | ClosedErr | IOErr | Panic | OutOfMemory

type_synonym 'a res = "fault + 'a"

fun bindE :: "'a res \<Rightarrow> ('a \<Rightarrow> 'b res) \<Rightarrow> 'b res" where
  "bindE (Inl e) f = Inl e"
| "bindE (Inr x) f = f x"

definition guardE :: "bool \<Rightarrow> fault \<Rightarrow> unit res" where
  "guardE ok e = (if ok then Inr () else Inl e)"

definition graceful :: "'a res \<Rightarrow> bool" where
  "graceful r \<longleftrightarrow> r \<noteq> Inl Panic \<and> r \<noteq> Inl OutOfMemory"

named_theorems graceful_intros \<open>rules that build \<open>graceful\<close> facts\<close>
named_theorems res_iff \<open>inversions of monadic equations\<close>

lemma bindE_cong [fundef_cong]:
  "m = m' \<Longrightarrow> (\<And>x. m' = Inr x \<Longrightarrow> f x = g x) \<Longrightarrow> bindE m f = bindE m' g"
  by (cases m') auto

lemma bindE_split:
  "P (bindE m f) \<longleftrightarrow> (\<forall>e. m = Inl e \<longrightarrow> P (Inl e)) \<and> (\<forall>x. m = Inr x \<longrightarrow> P (f x))"
  by (cases m) auto

lemma bindE_Inr_iff [res_iff]: "bindE m f = Inr y \<longleftrightarrow> (\<exists>x. m = Inr x \<and> f x = Inr y)"
  by (cases m) auto

lemma bindE_Inl_iff: "bindE m f = Inl e \<longleftrightarrow> m = Inl e \<or> (\<exists>x. m = Inr x \<and> f x = Inl e)"
  by (cases m) auto

lemma bindE_return [simp]: "bindE m Inr = m"
  by (cases m) auto

lemma bindE_assoc: "bindE (bindE m f) g = bindE m (\<lambda>x. bindE (f x) g)"
  by (cases m) auto

lemma guardE_simps [simp]: "guardE True e = Inr ()" "guardE False e = Inl e"
  by (simp_all add: guardE_def)

lemma guardE_Inr_iff [res_iff]: "guardE b e = Inr u \<longleftrightarrow> b"
  by (simp add: guardE_def)

lemma graceful_Inr [simp, graceful_intros]: "graceful (Inr x)"
  by (simp add: graceful_def)

lemma graceful_Err [simp, graceful_intros]: "graceful (Inl (Err e))"
  by (simp add: graceful_def)

lemma graceful_Inl_simps [simp]:
  "\<not> graceful (Inl Panic)" "\<not> graceful (Inl OutOfMemory)"
  "graceful (Inl ClosedErr)" "graceful (Inl IOErr)"
  by (simp_all add: graceful_def)

lemma graceful_bindE [graceful_intros]:
  "graceful m \<Longrightarrow> (\<And>x. m = Inr x \<Longrightarrow> graceful (f x)) \<Longrightarrow> graceful (bindE m f)"
  by (cases m) (auto simp: graceful_def)

lemma graceful_guardE [graceful_intros]: "graceful (guardE b (Err e))"
  by (simp add: guardE_def)

lemma graceful_if [graceful_intros]:
  "(b \<Longrightarrow> graceful x) \<Longrightarrow> (\<not> b \<Longrightarrow> graceful y) \<Longrightarrow> graceful (if b then x else y)"
  by simp

text \<open>A loop that threads a state and may fail.\<close>

fun foldE :: "('s \<Rightarrow> 'a \<Rightarrow> 's res) \<Rightarrow> 's \<Rightarrow> 'a list \<Rightarrow> 's res" where
  "foldE f s [] = Inr s"
| "foldE f s (x # xs) = bindE (f s x) (\<lambda>s'. foldE f s' xs)"

lemma foldE_append: "foldE f s (xs @ ys) = bindE (foldE f s xs) (\<lambda>s'. foldE f s' ys)"
  by (induction xs arbitrary: s) (simp_all add: bindE_assoc)

lemma foldE_total:
  assumes "\<And>s x. P s \<Longrightarrow> x \<in> set xs \<Longrightarrow> \<exists>s'. f s x = Inr s' \<and> P s'" and "P s"
  shows "\<exists>s'. foldE f s xs = Inr s' \<and> P s'"
  using assms by (induction xs arbitrary: s) (simp, fastforce)

lemma foldE_graceful:
  assumes "\<And>s x. P s \<Longrightarrow> x \<in> set xs \<Longrightarrow> graceful (f s x)"
    and "\<And>s x s'. P s \<Longrightarrow> x \<in> set xs \<Longrightarrow> f s x = Inr s' \<Longrightarrow> P s'" and "P s"
  shows "graceful (foldE f s xs)"
  using assms
proof (induction xs arbitrary: s)
  case (Cons x xs)
  have "graceful (foldE f s' xs)" if "f s x = Inr s'" for s'
    using Cons.prems that Cons.prems(2) [of s x s']
    by (intro Cons.IH) (auto intro: Cons.prems(2) [OF _ list.set_intros(2)])
  then show ?case using Cons.prems by (auto intro: graceful_bindE)
qed simp

lemma foldE_invariant:
  assumes "\<And>s x s'. P s \<Longrightarrow> f s x = Inr s' \<Longrightarrow> P s'" and "P s" and "foldE f s xs = Inr s'"
  shows "P s'"
  using assms(2,3) by (induction xs arbitrary: s) (auto simp: res_iff dest: assms(1))

text \<open>A loop that builds a list and may fail.\<close>

fun mapE :: "('a \<Rightarrow> 'b res) \<Rightarrow> 'a list \<Rightarrow> 'b list res" where
  "mapE f [] = Inr []"
| "mapE f (x # xs) = bindE (f x) (\<lambda>y. bindE (mapE f xs) (\<lambda>ys. Inr (y # ys)))"

lemma mapE_ok: "(\<And>x. x \<in> set xs \<Longrightarrow> f x = Inr (g x)) \<Longrightarrow> mapE f xs = Inr (map g xs)"
  by (induction xs) simp_all

lemma mapE_length: "mapE f xs = Inr ys \<Longrightarrow> length ys = length xs"
  by (induction xs arbitrary: ys) (auto simp: res_iff)

lemma mapE_graceful: "(\<And>x. x \<in> set xs \<Longrightarrow> graceful (f x)) \<Longrightarrow> graceful (mapE f xs)"
  by (induction xs) (auto intro!: graceful_intros)

section \<open>Slicing and indexing as Go does them\<close>

text \<open>
  \<open>data[pos:]\<close> and \<open>data[lo:hi]\<close> panic outside the slice's bounds, and so does
  \<open>data[i]\<close>; HOL's \<open>drop\<close>, \<open>take\<close> and \<open>!\<close> do not say so.
\<close>

definition slice_from :: "'a list \<Rightarrow> nat \<Rightarrow> 'a list res" where
  "slice_from xs pos = (if pos \<le> length xs then Inr (drop pos xs) else Inl Panic)"

definition slice_range :: "'a list \<Rightarrow> nat \<Rightarrow> nat \<Rightarrow> 'a list res" where
  "slice_range xs lo hi =
     (if lo \<le> hi \<and> hi \<le> length xs then Inr (take (hi - lo) (drop lo xs)) else Inl Panic)"

definition index_at :: "'a list \<Rightarrow> nat \<Rightarrow> 'a res" where
  "index_at xs i = (if i < length xs then Inr (xs ! i) else Inl Panic)"

lemma slice_from_ok [simp]: "pos \<le> length xs \<Longrightarrow> slice_from xs pos = Inr (drop pos xs)"
  by (simp add: slice_from_def)

lemma slice_range_ok [simp]:
  "lo \<le> hi \<Longrightarrow> hi \<le> length xs \<Longrightarrow> slice_range xs lo hi = Inr (take (hi - lo) (drop lo xs))"
  by (simp add: slice_range_def)

lemma index_at_ok [simp]: "i < length xs \<Longrightarrow> index_at xs i = Inr (xs ! i)"
  by (simp add: index_at_def)

text \<open>\<open>at_pos data pos rest\<close>: the unread part of \<open>data\<close> at offset \<open>pos\<close> is \<open>rest\<close>.\<close>

definition at_pos :: "'a list \<Rightarrow> nat \<Rightarrow> 'a list \<Rightarrow> bool" where
  "at_pos data pos rest \<longleftrightarrow> pos \<le> length data \<and> drop pos data = rest"

lemma at_pos_start [simp]: "at_pos data 0 data"
  by (simp add: at_pos_def)

lemma at_pos_append: "at_pos data pos (xs @ rest) \<Longrightarrow> at_pos data (pos + length xs) rest"
proof -
  assume a: "at_pos data pos (xs @ rest)"
  then have d: "drop pos data = xs @ rest" and "pos \<le> length data"
    by (simp_all add: at_pos_def)
  have "length (drop pos data) = length xs + length rest"
    using d by simp
  with \<open>pos \<le> length data\<close> have "pos + length xs \<le> length data"
    by simp
  moreover have "drop (length xs) (drop pos data) = rest"
    using d by simp
  ultimately show ?thesis
    by (simp add: at_pos_def add.commute)
qed

lemma at_pos_le: "at_pos data pos rest \<Longrightarrow> pos \<le> length data"
  by (simp add: at_pos_def)

lemma at_pos_drop: "at_pos data pos rest \<Longrightarrow> drop pos data = rest"
  by (simp add: at_pos_def)

lemma at_pos_length: "at_pos data pos rest \<Longrightarrow> length data = pos + length rest"
  by (auto simp: at_pos_def)

lemma at_pos_Cons:
  assumes "at_pos data pos (b # rest)"
  shows "pos < length data" and "data ! pos = b" and "at_pos data (Suc pos) rest"
proof -
  show "pos < length data"
    using assms at_pos_length [OF assms] by simp
  show "data ! pos = b"
    using assms by (metis \<open>pos < length data\<close> at_pos_def Cons_nth_drop_Suc list.inject)
  show "at_pos data (Suc pos) rest"
    using at_pos_append [of data pos "[b]" rest] assms by simp
qed

section \<open>Bits of byte strings\<close>

text \<open>Bit \<open>j\<close> of a byte string read least significant bit first; beyond the end it is clear.\<close>

definition sbit :: "bytes \<Rightarrow> nat \<Rightarrow> bool" where
  "sbit bs j \<longleftrightarrow> j div 8 < length bs \<and> bit (bs ! (j div 8)) (j mod 8)"

lemma sbit_Nil [simp]: "\<not> sbit [] j"
  by (simp add: sbit_def)

lemma sbit_Cons: "sbit (b # bs) j \<longleftrightarrow> (if j < 8 then bit b j else sbit bs (j - 8))"
proof (cases "j < 8")
  case True
  then show ?thesis by (simp add: sbit_def)
next
  case False
  then obtain k where "j = k + 8"
    by (metis add.commute le_Suc_ex not_le)
  moreover have "(k + 8) div 8 = Suc (k div 8)" by simp
  ultimately show ?thesis by (simp add: sbit_def)
qed

lemma sbit_append: "sbit (xs @ ys) j \<longleftrightarrow> (if j < 8 * length xs then sbit xs j else sbit ys (j - 8 * length xs))"
proof (induction xs arbitrary: j)
  case Nil
  then show ?case by simp
next
  case (Cons x xs)
  show ?case
    by (simp add: sbit_Cons Cons.IH diff_diff_left add.commute) (auto simp: sbit_Cons)
qed

lemma sbit_beyond: "8 * length bs \<le> j \<Longrightarrow> \<not> sbit bs j"
  by (auto simp: sbit_def)

lemma word_eq_by_bits:
  fixes a b :: "'a::len word"
  assumes "\<And>j. j < LENGTH('a) \<Longrightarrow> bit a j \<longleftrightarrow> bit b j"
  shows "a = b"
  using assms by (auto intro: bit_word_eqI)

section \<open>Conversions between Go's integer types\<close>

lemma sint_of_int: "- (2 ^ 63) \<le> i \<Longrightarrow> i < 2 ^ 63 \<Longrightarrow> sint (word_of_int i :: u64) = i"
  by (simp add: signed_of_int signed_take_bit_int_eq_self)

lemma sint_of_nat: "n < 2 ^ 63 \<Longrightarrow> sint (of_nat n :: u64) = int n"
  using sint_of_int [of "int n"] by simp

lemma unat_of_nat_u64: "r < 2 ^ 64 \<Longrightarrow> unat (of_nat r :: u64) = r"
  by (simp add: unsigned_of_nat take_bit_eq_mod)

lemma sint_small: "w \<le> 2 ^ 30 \<Longrightarrow> sint w = int (unat w)" for w :: u64
proof -
  assume "w \<le> 2 ^ 30"
  then have "unat w \<le> 2 ^ 30" by (simp add: word_le_nat_alt)
  then show ?thesis using sint_of_nat [of "unat w"] by simp
qed

end
