(* ===== verification/Varint.thy ===== *)
theory Varint
  imports Prelude
begin

text \<open>
  Integers as bytes: the little-endian fixed-width forms and the LEB128 varints of Go's
  \<open>encoding/binary\<close>, which every codec and every on-disk structure is written with,
  and the zigzag helpers of \<open>internal/util/varint.go\<close>. Signed 64-bit values are the
  same \<open>64 word\<close>s, read with \<open>sint\<close> where the code compares them.
\<close>

unbundle bit_operations_syntax

section \<open>Little-endian fixed-width integers (encoding/binary)\<close>

fun le_bytes :: "nat \<Rightarrow> 'a::len word \<Rightarrow> bytes" where
  "le_bytes 0 w = []"
| "le_bytes (Suc n) w = ucast w # le_bytes n (drop_bit 8 w)"

fun le_word :: "bytes \<Rightarrow> 'a::len word" where
  "le_word [] = 0"
| "le_word (b # bs) = ucast b OR push_bit 8 (le_word bs)"

definition le16 :: "u16 \<Rightarrow> bytes" where "le16 w = le_bytes 2 w"
definition le32 :: "u32 \<Rightarrow> bytes" where "le32 w = le_bytes 4 w"
definition le64 :: "u64 \<Rightarrow> bytes" where "le64 w = le_bytes 8 w"

lemma length_le_bytes [simp]: "length (le_bytes n w) = n"
  by (induction n w rule: le_bytes.induct) auto

lemma length_le [simp]: "length (le16 w) = 2" "length (le32 v) = 4" "length (le64 x) = 8"
  by (simp_all add: le16_def le32_def le64_def)

lemma sbit_le_bytes: "sbit (le_bytes n w) j \<longleftrightarrow> j < 8 * n \<and> bit w j"
proof (induction n w arbitrary: j rule: le_bytes.induct)
  case (1 w)
  then show ?case by simp
next
  case (2 n w)
  show ?case
  proof (cases "j < 8")
    case True
    then show ?thesis
      using bit_imp_le_length [of w j] by (auto simp: sbit_Cons bit_ucast_iff)
  next
    case False
    then have "j = 8 + (j - 8)" by simp
    with False show ?thesis
      by (simp add: sbit_Cons 2 bit_drop_bit_eq) linarith
  qed
qed

lemma bit_le_word:
  "bit (le_word bs :: 'a::len word) j \<longleftrightarrow> j < LENGTH('a) \<and> sbit bs j"
proof (induction bs arbitrary: j)
  case Nil
  then show ?case by simp
next
  case (Cons b bs)
  have "\<not> bit b j" if "\<not> j < 8"
    using that bit_imp_le_length [of b j] by auto
  then show ?case
    by (auto simp: sbit_Cons bit_simps Cons.IH)
qed

lemma le_word_le_bytes:
  assumes "LENGTH('a) \<le> 8 * n"
  shows "le_word (le_bytes n (w :: 'a::len word)) = w"
  using assms by (auto intro!: word_eq_by_bits simp: bit_le_word sbit_le_bytes)

lemma le_word_le16 [simp]: "le_word (le16 w) = w"
  by (simp add: le16_def le_word_le_bytes)

lemma le_word_le32 [simp]: "le_word (le32 w) = w"
  by (simp add: le32_def le_word_le_bytes)

lemma le_word_le64 [simp]: "le_word (le64 w) = w"
  by (simp add: le64_def le_word_le_bytes)

lemma sbit_le64: "sbit (le64 w) j \<longleftrightarrow> bit w j"
  using bit_imp_le_length [of w j] by (auto simp: le64_def sbit_le_bytes)

lemma unat_drop7: "unat (drop_bit 7 (v :: u64)) = unat v div 128"
  by (simp only: unat_drop_bit_eq) (simp add: drop_bit_eq_div)

lemma unat_ucast_byte: "unat (ucast (v :: u64) :: byte) = unat v mod 256"
  by (simp add: unsigned_ucast_eq take_bit_eq_mod)

lemma unat_ucast_u64: "unat (ucast (b :: byte) :: u64) = unat b"
  using unsigned_less [of b, where 'a = nat] by (simp add: unsigned_ucast_eq take_bit_eq_mod)

lemma bit_0x80: "bit (0x80 :: 'a::len word) j \<longleftrightarrow> j = 7 \<and> 7 < LENGTH('a)"
  using bit_exp_iff [of 7 j, where 'a = "'a word"] by auto

lemma bit_0x7F: "bit (0x7F :: 'a::len word) j \<longleftrightarrow> j < 7 \<and> j < LENGTH('a)"
  using bit_mask_iff [of 7 j, where 'a = "'a word"] by (auto simp: mask_eq_exp_minus_1)

lemma byte_ge_0x80: "(0x80 :: byte) \<le> b \<longleftrightarrow> bit b 7"
proof -
  have "bit b 7 \<longleftrightarrow> odd (unat b div 128)"
    using bit_unsigned_iff [of b 7, where 'a = nat] by (simp add: bit_iff_odd [of "unat b"])
  moreover have "unat b < 256"
    using unsigned_less [of b, where 'a = nat] by simp
  moreover have "(0x80 \<le> b) = (128 \<le> unat b)"
    by (simp add: word_le_nat_alt)
  ultimately show ?thesis
    by (cases "unat b < 128") (auto simp: div_if)
qed

section \<open>Unsigned LEB128 varints (encoding/binary)\<close>

function put_uvarint :: "u64 \<Rightarrow> bytes" where
  "put_uvarint v =
     (if 0x80 \<le> v then (ucast v OR 0x80) # put_uvarint (drop_bit 7 v) else [ucast v])"
  by pat_completeness auto
termination
proof (relation "measure unat")
  fix v :: u64
  assume "0x80 \<le> v"
  then have "0 < unat v"
    by (auto simp: word_le_nat_alt)
  then show "(drop_bit 7 v, v) \<in> measure unat"
    by (simp add: unat_drop7)
qed simp

declare put_uvarint.simps [simp del]

text \<open>
  \<open>binary.Uvarint\<close>: the value and the number of bytes read, which is zero when the
  buffer ends inside the varint and negative when the value does not fit 64 bits.
\<close>

fun uvarint_loop :: "nat \<Rightarrow> u64 \<Rightarrow> nat \<Rightarrow> bytes \<Rightarrow> u64 \<times> int" where
  "uvarint_loop i x s [] = (0, 0)"
| "uvarint_loop i x s (b # bs) =
     (if i = 10 then (0, - int (i + 1))
      else if b < 0x80 then
        (if i = 9 \<and> 1 < b then (0, - int (i + 1))
         else (x OR push_bit s (ucast b), int (i + 1)))
      else uvarint_loop (i + 1) (x OR push_bit s (ucast (b AND 0x7F))) (s + 7) bs)"

definition uvarint :: "bytes \<Rightarrow> u64 \<times> int" where
  "uvarint buf = uvarint_loop 0 0 0 buf"

lemma put_uvarint_small: "v < 0x80 \<Longrightarrow> put_uvarint v = [ucast v]"
  by (subst put_uvarint.simps) (auto dest: leD)

lemma put_uvarint_large:
  "0x80 \<le> v \<Longrightarrow> put_uvarint v = (ucast v OR 0x80) # put_uvarint (drop_bit 7 v)"
  by (subst put_uvarint.simps) simp

lemma put_uvarint_nonempty [simp]: "put_uvarint v \<noteq> []"
  by (subst put_uvarint.simps) simp

lemma length_put_uvarint_pos: "0 < length (put_uvarint v)"
  by simp

text \<open>
  The decoder inverts the encoder: with \<open>x\<close> the bits collected so far, all below
  \<open>7 * i\<close>, and the value still to come small enough to fit, the loop returns both.
\<close>

lemma uvarint_loop_put:
  assumes "i \<le> 9" and "unat v < 2 ^ (64 - 7 * i)"
  shows "uvarint_loop i x (7 * i) (put_uvarint v @ rest)
           = (x OR push_bit (7 * i) v, int (i + length (put_uvarint v)))"
  using assms
proof (induction v arbitrary: i x rule: put_uvarint.induct)
  case (1 v)
  show ?case
  proof (cases "0x80 \<le> v")
    case False
    then have small: "v < 0x80" by simp
    have b: "(ucast v :: byte) < 0x80"
      using small by (simp add: word_less_nat_alt unat_ucast_byte)
    have "\<not> (i = 9 \<and> 1 < (ucast v :: byte))"
    proof
      assume "i = 9 \<and> 1 < (ucast v :: byte)"
      with "1.prems" small show False
        by (simp add: word_less_nat_alt unat_ucast_byte)
    qed
    moreover have "ucast (ucast v :: byte) = v"
      using small by (simp add: word_less_nat_alt unat_ucast_byte unat_ucast_u64 word_unat_eq_iff)
    ultimately show ?thesis
      using b "1.prems" by (simp add: put_uvarint_small [OF small])
  next
    case True
    let ?h = "drop_bit 7 v"
    have big: "128 \<le> unat v"
      using True by (simp add: word_le_nat_alt)
    have i8: "i \<le> 8"
    proof (rule ccontr)
      assume "\<not> i \<le> 8"
      with "1.prems" have "i = 9" by simp
      with "1.prems" big show False by simp
    qed
    have pow: "(2::nat) ^ (64 - 7 * i) = 2 ^ (64 - 7 * Suc i) * 2 ^ 7"
      using i8 power_add [of "2::nat" "64 - 7 * Suc i" 7] by (simp add: add.commute)
    have less: "unat ?h < 2 ^ (64 - 7 * Suc i)"
      using "1.prems" pow by (simp add: unat_drop7 div_less_iff_less_mult)
    have nb: "\<not> (ucast v OR 0x80 :: byte) < 0x80"
      by (simp add: not_less byte_ge_0x80 bit_or_iff bit_0x80)
    have val: "x OR push_bit (7 * i) (ucast ((ucast v OR 0x80 :: byte) AND 0x7F)) OR push_bit (7 * Suc i) ?h
                = x OR push_bit (7 * i) v"
    proof (rule word_eq_by_bits)
      fix j
      have "7 + (j - (7 + 7 * i)) = j - 7 * i" if "7 + 7 * i \<le> j"
        using that by simp
      then show "bit (x OR push_bit (7 * i) (ucast ((ucast v OR 0x80 :: byte) AND 0x7F)) OR push_bit (7 * Suc i) ?h) j
                 \<longleftrightarrow> bit (x OR push_bit (7 * i) v) j"
        using bit_imp_le_length [of v "j - 7 * i"]
        by (cases "7 + 7 * i \<le> j"; simp only: bit_or_iff bit_push_bit_iff bit_ucast_iff bit_and_iff
              bit_drop_bit_eq bit_0x80 bit_0x7F possible_bit_word; auto)
    qed
    show ?thesis
      using "1.IH" [OF True _ less] i8 nb val
      by (simp add: put_uvarint_large [OF True] add.commute or.assoc)
  qed
qed

lemma uvarint_put [simp]:
  "uvarint (put_uvarint v @ rest) = (v, int (length (put_uvarint v)))"
  using uvarint_loop_put [of 0 v 0 rest] unsigned_less [of v, where 'a = nat]
  by (simp add: uvarint_def)

text \<open>The decoder never claims more bytes than the buffer holds.\<close>

lemma uvarint_loop_bound: "snd (uvarint_loop i x s bs) \<le> int (i + length bs)"
  by (induction i x s bs rule: uvarint_loop.induct) auto

lemma uvarint_bound: "uvarint bs = (v, m) \<Longrightarrow> m \<le> int (length bs)"
  using uvarint_loop_bound [of 0 0 0 bs] by (simp add: uvarint_def)

section \<open>Zigzag (internal/util/varint.go)\<close>

definition zigzag :: "u64 \<Rightarrow> u64" where
  "zigzag v = push_bit 1 v XOR signed_drop_bit 63 v"

definition unzigzag :: "u64 \<Rightarrow> u64" where
  "unzigzag v = drop_bit 1 v XOR - (v AND 1)"

lemma unzigzag_zigzag [simp]: "unzigzag (zigzag v) = v"
proof (rule word_eq_by_bits)
  fix j :: nat
  assume j: "j < LENGTH(64)"
  have sign: "bit (signed_drop_bit 63 v) k \<longleftrightarrow> k < 64 \<and> bit v 63" for k
    using bit_imp_le_length [of v "63 + k"]
    by (cases "k = 0") (auto simp: bit_signed_drop_bit_iff)
  have zz: "bit (zigzag v) k \<longleftrightarrow> k < 64 \<and> (1 \<le> k \<and> bit v (k - 1)) \<noteq> bit v 63" for k
    by (simp only: zigzag_def bit_xor_iff bit_push_bit_iff sign possible_bit_word) auto
  have low: "zigzag v AND 1 = (if bit v 63 then 1 else 0)"
    by (rule word_eq_by_bits) (auto simp: bit_and_iff bit_1_iff zz)
  have "bit (- (zigzag v AND 1)) j \<longleftrightarrow> bit v 63"
    using j by (simp add: low)
  moreover have "bit (drop_bit 1 (zigzag v)) j \<longleftrightarrow> (j < 63 \<and> bit v j \<noteq> bit v 63)"
    using j by (simp only: bit_drop_bit_eq zz comp_def) auto
  moreover have "bit v j \<longleftrightarrow> bit v 63" if "\<not> j < 63"
    using that j by (cases "j = 63") auto
  ultimately show "bit (unzigzag (zigzag v)) j \<longleftrightarrow> bit v j"
    by (auto simp: unzigzag_def bit_xor_iff)
qed

definition append_uvarint :: "bytes \<Rightarrow> u64 \<Rightarrow> bytes" where
  "append_uvarint dst v = dst @ put_uvarint v"

definition append_varint :: "bytes \<Rightarrow> u64 \<Rightarrow> bytes" where
  "append_varint dst v = dst @ put_uvarint (zigzag v)"

function uvarint_len :: "u64 \<Rightarrow> nat" where
  "uvarint_len v = (if 0x80 \<le> v then Suc (uvarint_len (drop_bit 7 v)) else 1)"
  by pat_completeness auto
termination
proof (relation "measure unat")
  fix v :: u64
  assume "0x80 \<le> v"
  then have "0 < unat v"
    by (auto simp: word_le_nat_alt)
  then show "(drop_bit 7 v, v) \<in> measure unat"
    by (simp add: unat_drop7)
qed simp

declare uvarint_len.simps [simp del]

lemma uvarint_len_put: "uvarint_len v = length (put_uvarint v)"
  by (induction v rule: uvarint_len.induct) (simp add: uvarint_len.simps put_uvarint.simps)

lemma length_put_uvarint_le: "unat v < 2 ^ (7 * k) \<Longrightarrow> 0 < k \<Longrightarrow> length (put_uvarint v) \<le> k"
proof (induction v arbitrary: k rule: put_uvarint.induct)
  case (1 v)
  show ?case
  proof (cases "0x80 \<le> v")
    case False
    with "1.prems" show ?thesis by (simp add: put_uvarint.simps [of v])
  next
    case True
    then have big: "128 \<le> unat v" by (simp add: word_le_nat_alt)
    have k: "1 < k"
    proof (rule ccontr)
      assume "\<not> 1 < k"
      with "1.prems" have "k = 1" by simp
      with "1.prems" big show False by simp
    qed
    then have "(2::nat) ^ (7 * k) = 2 ^ (7 * (k - 1)) * 128"
      using power_add [of "2::nat" "7 * (k - 1)" 7] by (cases k) (auto simp: add.commute)
    then have "unat (drop_bit 7 v) < 2 ^ (7 * (k - 1))"
      using "1.prems" by (simp add: unat_drop7 div_less_iff_less_mult)
    with "1.IH" [OF True, of "k - 1"] k show ?thesis
      by (simp add: put_uvarint_large [OF True])
  qed
qed

lemma length_put_uvarint_le10: "length (put_uvarint v) \<le> 10"
proof -
  have "unat v < 2 ^ 64" using unsigned_less [of v, where 'a = nat] by simp
  then have "unat v < 2 ^ (7 * 10)" by simp
  then show ?thesis by (rule length_put_uvarint_le) simp
qed

section \<open>Reading a varint at an offset\<close>

text \<open>
  The idiom every decoder of \<open>internal/encoding\<close> repeats:
  \<^verbatim>\<open>v, m := binary.Uvarint(data[pos:]); if m <= 0 { return nil, errTruncated }; pos += m\<close>.
\<close>

definition read_uvarint :: "bytes \<Rightarrow> nat \<Rightarrow> (u64 \<times> nat) res" where
  "read_uvarint data pos =
     bindE (slice_from data pos) (\<lambda>s.
       case uvarint s of (v, m) \<Rightarrow>
         if m \<le> 0 then Inl (Err Truncated) else Inr (v, pos + nat m))"

lemma read_uvarint_put:
  assumes "at_pos data pos (put_uvarint v @ rest)"
  shows "read_uvarint data pos = Inr (v, pos + length (put_uvarint v))"
  using assms by (simp add: read_uvarint_def at_pos_le at_pos_drop)

lemma read_uvarint_graceful [graceful_intros]:
  "pos \<le> length data \<Longrightarrow> graceful (read_uvarint data pos)"
  by (simp add: read_uvarint_def split: prod.split)

lemma read_uvarint_bound:
  assumes "read_uvarint data pos = Inr (v, pos')"
  shows "pos < pos'" and "pos' \<le> length data"
proof -
  from assms have le: "pos \<le> length data"
    by (auto simp: read_uvarint_def slice_from_def split: if_splits)
  with assms obtain m where m: "uvarint (drop pos data) = (v, m)" "0 < m" "pos' = pos + nat m"
    by (auto simp: read_uvarint_def split: prod.splits if_splits)
  then show "pos < pos'" by simp
  from uvarint_bound [OF m(1)] le m(2,3) show "pos' \<le> length data" by simp
qed

end
