(* ===== verification/Roaring.thy ===== *)
theory Roaring
  imports Varint
begin

text \<open>
  The Roaring bitmaps of the third-party package that the inverted index and the query
  executor use, as a parameter: \<open>'bm roaring\<close> holds the operations the code calls, and
  \<open>roaring_ok\<close> states what the package documents of them. A bitmap is a set of 32-bit row
  numbers, iterated in ascending order; \<open>rb_set\<close> reads it as a set of naturals. Operations
  that change a bitmap in place return the changed one; \<open>AddRange\<close> may panic, on ranges
  that leave 32 bits.
\<close>

record 'bm roaring =
  rb_new :: 'bm
  rb_add :: "'bm \<Rightarrow> u32 \<Rightarrow> 'bm"
  rb_add_range :: "'bm \<Rightarrow> u64 \<Rightarrow> u64 \<Rightarrow> 'bm res"
  rb_and :: "'bm \<Rightarrow> 'bm \<Rightarrow> 'bm"
  rb_or :: "'bm \<Rightarrow> 'bm \<Rightarrow> 'bm"
  rb_rows :: "'bm \<Rightarrow> u32 list"
  rb_cardinality :: "'bm \<Rightarrow> u64"
  rb_optimize :: "'bm \<Rightarrow> 'bm"
  rb_marshal :: "'bm \<Rightarrow> bytes"
  rb_unmarshal :: "bytes \<Rightarrow> 'bm option"

definition rb_set :: "'bm roaring \<Rightarrow> 'bm \<Rightarrow> nat set" where
  "rb_set R b = unat ` set (rb_rows R b)"

definition rb_is_empty :: "'bm roaring \<Rightarrow> 'bm \<Rightarrow> bool" where
  "rb_is_empty R b \<longleftrightarrow> rb_cardinality R b = 0"

text \<open>
  The size bound is a weaker form of the documented one: at most four bytes a row and one
  mebibyte of headers.
\<close>

definition roaring_ok :: "'bm roaring \<Rightarrow> bool" where
  "roaring_ok R \<longleftrightarrow>
     rb_rows R (rb_new R) = []
     \<and> (\<forall>b. sorted_wrt (<) (rb_rows R b))
     \<and> (\<forall>b i. set (rb_rows R (rb_add R b i)) = insert i (set (rb_rows R b)))
     \<and> (\<forall>b lo hi. unat hi \<le> 2 ^ 32 \<longrightarrow>
          (\<exists>b'. rb_add_range R b lo hi = Inr b' \<and> rb_set R b' = rb_set R b \<union> {unat lo..<unat hi}))
     \<and> (\<forall>a b. set (rb_rows R (rb_and R a b)) = set (rb_rows R a) \<inter> set (rb_rows R b))
     \<and> (\<forall>a b. set (rb_rows R (rb_or R a b)) = set (rb_rows R a) \<union> set (rb_rows R b))
     \<and> (\<forall>b. unat (rb_cardinality R b) = length (rb_rows R b))
     \<and> (\<forall>b. rb_rows R (rb_optimize R b) = rb_rows R b)
     \<and> (\<forall>b. \<exists>b'. rb_unmarshal R (rb_marshal R b) = Some b' \<and> rb_rows R b' = rb_rows R b)
     \<and> (\<forall>b. length (rb_marshal R b) \<le> 2 ^ 20 + 4 * length (rb_rows R b))"

named_theorems roaring \<open>consequences of \<open>roaring_ok\<close>\<close>

lemma rb_new_rows [roaring]: "roaring_ok R \<Longrightarrow> rb_rows R (rb_new R) = []"
  by (simp add: roaring_ok_def)

lemma rb_new_set [roaring]: "roaring_ok R \<Longrightarrow> rb_set R (rb_new R) = {}"
  by (simp add: rb_set_def rb_new_rows)

lemma rb_rows_sorted: "roaring_ok R \<Longrightarrow> sorted_wrt (<) (rb_rows R b)"
  by (simp add: roaring_ok_def)

lemma rb_add_set [roaring]: "roaring_ok R \<Longrightarrow> rb_set R (rb_add R b i) = insert (unat i) (rb_set R b)"
  by (simp add: roaring_ok_def rb_set_def)

lemma rb_add_range_set:
  "roaring_ok R \<Longrightarrow> unat hi \<le> 2 ^ 32 \<Longrightarrow>
     \<exists>b'. rb_add_range R b lo hi = Inr b' \<and> rb_set R b' = rb_set R b \<union> {unat lo..<unat hi}"
  by (simp add: roaring_ok_def)

lemma rb_and_set [roaring]: "roaring_ok R \<Longrightarrow> rb_set R (rb_and R a b) = rb_set R a \<inter> rb_set R b"
  by (simp add: roaring_ok_def rb_set_def image_Int inj_unsigned)

lemma rb_or_set [roaring]: "roaring_ok R \<Longrightarrow> rb_set R (rb_or R a b) = rb_set R a \<union> rb_set R b"
  by (simp add: roaring_ok_def rb_set_def image_Un)

lemma rb_optimize_rows [roaring]: "roaring_ok R \<Longrightarrow> rb_rows R (rb_optimize R b) = rb_rows R b"
  by (simp add: roaring_ok_def)

lemma rb_unmarshal_marshal:
  "roaring_ok R \<Longrightarrow> \<exists>b'. rb_unmarshal R (rb_marshal R b) = Some b' \<and> rb_rows R b' = rb_rows R b"
  by (simp add: roaring_ok_def)

lemma rb_marshal_length: "roaring_ok R \<Longrightarrow> length (rb_marshal R b) \<le> 2 ^ 20 + 4 * length (rb_rows R b)"
  by (simp add: roaring_ok_def)

lemma rb_set_finite [simp]: "finite (rb_set R b)"
  by (simp add: rb_set_def)

lemma rb_rows_eq:
  assumes "roaring_ok R"
  shows "map unat (rb_rows R b) = sorted_list_of_set (rb_set R b)"
proof -
  have "sorted_wrt (<) (map unat (rb_rows R b))"
    using rb_rows_sorted [OF assms, of b] unfolding sorted_wrt_map
    by (rule sorted_wrt_mono_rel [rotated]) (simp add: word_less_nat_alt)
  then show ?thesis
    by (simp add: rb_set_def strict_sorted_iff sorted_list_of_set.idem_if_sorted_distinct flip: set_map)
qed

lemma rb_rows_length: "roaring_ok R \<Longrightarrow> length (rb_rows R b) = card (rb_set R b)"
  using rb_rows_eq [of R b] by (metis length_map length_sorted_list_of_set)

lemma rb_cardinality_card [roaring]: "roaring_ok R \<Longrightarrow> unat (rb_cardinality R b) = card (rb_set R b)"
  using rb_rows_length [of R b] by (simp add: roaring_ok_def)

lemma rb_is_empty_iff [roaring]: "roaring_ok R \<Longrightarrow> rb_is_empty R b \<longleftrightarrow> rb_set R b = {}"
  using rb_cardinality_card [of R b] by (simp add: rb_is_empty_def flip: unat_eq_0)

section \<open>An instance\<close>

text \<open>Bitmaps as lists of row numbers, to show that the laws can hold together.\<close>

fun words_of :: "bytes \<Rightarrow> u32 list" where
  "words_of (a # b # c # d # bs) = le_word [a, b, c, d] # words_of bs"
| "words_of bs = []"

lemma words_of_le32 [simp]: "words_of (concat (map le32 ws)) = ws"
proof (induction ws)
  case (Cons w ws)
  have "length (le32 w) = 4" by simp
  then obtain a b c d where "le32 w = [a, b, c, d]"
    by (cases "le32 w" rule: words_of.cases) simp_all
  then show ?case using Cons le_word_le32 [of w] by simp
qed simp

definition list_roaring :: "u32 list roaring" where
  "list_roaring =
     \<lparr>rb_new = [],
      rb_add = \<lambda>b i. i # b,
      rb_add_range = \<lambda>b lo hi.
        if unat hi \<le> 2 ^ 32 then Inr (map of_nat [unat lo..<unat hi] @ b) else Inl Panic,
      rb_and = \<lambda>a b. filter (\<lambda>x. x \<in> set b) a,
      rb_or = \<lambda>a b. a @ b,
      rb_rows = \<lambda>b. sort (remdups b),
      rb_cardinality = \<lambda>b. of_nat (length (remdups b)),
      rb_optimize = \<lambda>b. b,
      rb_marshal = \<lambda>b. concat (map le32 (sort (remdups b))),
      rb_unmarshal = \<lambda>raw. Some (words_of raw)\<rparr>"

lemma remdups_u32_length: "length (remdups b) \<le> 2 ^ 32" for b :: "u32 list"
proof -
  have "length (remdups b) = card (unat ` set b)"
    by (simp add: length_remdups_card_conv card_image inj_on_subset [OF inj_unsigned])
  also have "\<dots> \<le> card {..<2 ^ 32 :: nat}"
    by (rule card_mono) (use unsigned_less [where 'a = nat and 'b = 32] in auto)
  finally show ?thesis by simp
qed

lemma list_roaring_ok: "roaring_ok list_roaring"
proof -
  have "unat (of_nat (length (remdups b)) :: u64) = length (remdups b)" for b :: "u32 list"
    using remdups_u32_length [of b] by (intro unat_of_nat_u64) simp
  moreover have "(\<lambda>x. unat (of_nat x :: u32)) ` {lo..<hi} = {lo..<hi}" if "hi \<le> 2 ^ 32" for lo hi :: nat
    using that by (force simp: unsigned_of_nat take_bit_eq_mod image_iff)
  moreover have "sorted_wrt (<) (sort (remdups b))" for b :: "u32 list"
    by (simp add: strict_sorted_iff)
  moreover have "length (concat (map le32 ws)) = 4 * length ws" for ws
    by (induction ws) simp_all
  moreover have "sort (remdups (sort (remdups b))) = sort (remdups b)" for b :: "u32 list"
    by (simp add: distinct_remdups_id sorted_sort_id)
  ultimately show ?thesis
    by (auto simp: roaring_ok_def list_roaring_def rb_set_def image_Un image_image)
qed

end
