(* ===== verification/Column.thy ===== *)
theory Column
  imports Prelude "HOL-Library.List_Lexorder"
begin

text \<open>
  \<open>internal/column\<close>, its in-memory half: the presence bitmap, the decoded vector \<open>Data\<close>
  (\<open>column.go\<close>) and the \<open>Builder\<close> that accumulates a column (\<open>builder.go\<close>). Go's nil
  slices are empty lists; the nil of \<open>present\<close>, which the code tests, is an option. The
  abstraction of a column is its list of cells: \<open>builder_cells\<close> and \<open>data_cells\<close>.
  Indexing goes through \<open>index_at\<close>, so a wrong row is a panic.
\<close>

unbundle bit_operations_syntax

type_synonym kind = u8

abbreviation KindInt :: kind where "KindInt \<equiv> 0"
abbreviation KindBytes :: kind where "KindBytes \<equiv> 1"

section \<open>Presence bitmap\<close>

record bitmap =
  bm_bits :: bytes
  bm_n :: nat

definition new_bitmap :: "nat \<Rightarrow> bitmap" where
  "new_bitmap n = \<lparr>bm_bits = replicate ((n + 7) div 8) 0, bm_n = n\<rparr>"

definition bitmap_set :: "nat \<Rightarrow> bitmap \<Rightarrow> bitmap res" where
  "bitmap_set i b =
     bindE (index_at (bm_bits b) (i div 8)) (\<lambda>x.
       Inr (b\<lparr>bm_bits := (bm_bits b)[i div 8 := x OR push_bit (i mod 8) 1]\<rparr>))"

definition bitmap_get :: "bitmap \<Rightarrow> nat \<Rightarrow> bool res" where
  "bitmap_get b i =
     bindE (index_at (bm_bits b) (i div 8)) (\<lambda>x. Inr (x AND push_bit (i mod 8) 1 \<noteq> 0))"

definition bitmap_from_bytes :: "bytes \<Rightarrow> nat \<Rightarrow> bitmap option" where
  "bitmap_from_bytes raw n =
     (if length raw \<noteq> (n + 7) div 8 then None else Some \<lparr>bm_bits = raw, bm_n = n\<rparr>)"

lemma bit_pow_byte [simp]: "bit (2 ^ k :: byte) j \<longleftrightarrow> j = k \<and> j < 8"
  by (auto simp: bit_exp_iff)

lemma and_bit_byte: "k < 8 \<Longrightarrow> x AND push_bit k 1 \<noteq> 0 \<longleftrightarrow> bit x k" for x :: byte
proof -
  assume k: "k < 8"
  have "x AND push_bit k 1 = (if bit x k then push_bit k 1 else 0)"
    by (rule bit_word_eqI) (use k in \<open>auto simp: bit_and_iff\<close>)
  moreover have "(push_bit k 1 :: byte) \<noteq> 0"
    using bit_pow_byte [of k k] k by (auto simp del: bit_pow_byte)
  ultimately show ?thesis by simp
qed

lemma bitmap_get_sbit: "i < 8 * length (bm_bits b) \<Longrightarrow> bitmap_get b i = Inr (sbit (bm_bits b) i)"
  using and_bit_byte [of "i mod 8"] by (simp add: bitmap_get_def sbit_def less_mult_imp_div_less mult.commute)

lemma bitmap_set_ok:
  assumes "i < 8 * length (bm_bits b)"
  shows "\<exists>b'. bitmap_set i b = Inr b' \<and> length (bm_bits b') = length (bm_bits b)
    \<and> bm_n b' = bm_n b \<and> (\<forall>j. sbit (bm_bits b') j \<longleftrightarrow> j = i \<or> sbit (bm_bits b) j)"
proof -
  have i: "i div 8 < length (bm_bits b)"
    using assms by (simp add: less_mult_imp_div_less mult.commute)
  have "sbit ((bm_bits b)[i div 8 := bm_bits b ! (i div 8) OR push_bit (i mod 8) 1]) j
      \<longleftrightarrow> j = i \<or> sbit (bm_bits b) j" for j
  proof (cases "j div 8 = i div 8")
    case True
    then have "j = i \<longleftrightarrow> j mod 8 = i mod 8"
      by (metis mult_div_mod_eq)
    then show ?thesis
      using True i by (auto simp: sbit_def bit_or_iff)
  next
    case False
    then show ?thesis using i by (auto simp: sbit_def)
  qed
  then show ?thesis
    using i by (simp add: bitmap_set_def)
qed

text \<open>The loop that fills a bitmap from the builder's flags.\<close>

definition fill_bitmap :: "bool list \<Rightarrow> nat \<Rightarrow> bitmap res" where
  "fill_bitmap present rows =
     foldE (\<lambda>bm i. bindE (index_at present i) (\<lambda>p. if p then bitmap_set i bm else Inr bm))
       (new_bitmap rows) [0..<rows]"

lemma fill_bitmap_ok:
  assumes "length present = rows"
  shows "\<exists>bm. fill_bitmap present rows = Inr bm \<and> length (bm_bits bm) = (rows + 7) div 8
    \<and> bm_n bm = rows \<and> (\<forall>j < rows. sbit (bm_bits bm) j = present ! j)"
proof -
  have "k \<le> rows \<Longrightarrow> \<exists>bm. foldE (\<lambda>bm i. bindE (index_at present i)
        (\<lambda>p. if p then bitmap_set i bm else Inr bm)) (new_bitmap rows) [0..<k] = Inr bm
      \<and> length (bm_bits bm) = (rows + 7) div 8 \<and> bm_n bm = rows
      \<and> (\<forall>j. sbit (bm_bits bm) j \<longleftrightarrow> j < k \<and> present ! j)" for k
  proof (induction k)
    case 0
    have "sbit (replicate m 0) j \<longleftrightarrow> False" for m j
      by (auto simp: sbit_def)
    then show ?case by (simp add: new_bitmap_def)
  next
    case (Suc k)
    then obtain bm where bm: "foldE (\<lambda>bm i. bindE (index_at present i)
        (\<lambda>p. if p then bitmap_set i bm else Inr bm)) (new_bitmap rows) [0..<k] = Inr bm"
      and len: "length (bm_bits bm) = (rows + 7) div 8" "bm_n bm = rows"
      and bits: "\<And>j. sbit (bm_bits bm) j \<longleftrightarrow> j < k \<and> present ! j"
      by auto
    have "k < 8 * length (bm_bits bm)" using Suc.prems len by simp
    then obtain bm' where "bitmap_set k bm = Inr bm'"
      "length (bm_bits bm') = length (bm_bits bm)" "bm_n bm' = bm_n bm"
      "\<And>j. sbit (bm_bits bm') j \<longleftrightarrow> j = k \<or> sbit (bm_bits bm) j"
      using bitmap_set_ok by metis
    then show ?case
      using bm len bits Suc.prems assms
      by (cases "present ! k") (auto simp: foldE_append less_Suc_eq)
  qed
  from this [of rows] show ?thesis
    unfolding fill_bitmap_def by auto
qed

section \<open>Decoded vector\<close>

record data =
  d_Kind :: kind
  d_Ints :: "u64 list"
  d_Bytes :: "bytes list"
  d_Present :: "bitmap option"
  d_Rows :: nat

definition is_null :: "data \<Rightarrow> nat \<Rightarrow> bool res" where
  "is_null d i =
     (case d_Present d of None \<Rightarrow> Inr False
      | Some bm \<Rightarrow> bindE (bitmap_get bm i) (\<lambda>p. Inr (\<not> p)))"

datatype cell = Null | IntCell u64 | BytesCell bytes

definition data_cell :: "data \<Rightarrow> nat \<Rightarrow> cell" where
  "data_cell d i =
     (if is_null d i = Inr True then Null
      else if d_Kind d = KindInt then IntCell (d_Ints d ! i) else BytesCell (d_Bytes d ! i))"

definition data_cells :: "data \<Rightarrow> cell list" where
  "data_cells d = map (data_cell d) [0..<d_Rows d]"

text \<open>A vector every row of which can be read.\<close>

definition data_ok :: "data \<Rightarrow> bool" where
  "data_ok d \<longleftrightarrow>
     (d_Kind d = KindInt \<and> length (d_Ints d) = d_Rows d
      \<or> d_Kind d = KindBytes \<and> length (d_Bytes d) = d_Rows d)
     \<and> (case d_Present d of None \<Rightarrow> True
        | Some bm \<Rightarrow> length (bm_bits bm) = (d_Rows d + 7) div 8 \<and> bm_n bm = d_Rows d)"

lemma data_ok_is_null:
  assumes "data_ok d" and "i < d_Rows d"
  shows "is_null d i = Inr (case d_Present d of None \<Rightarrow> False | Some bm \<Rightarrow> \<not> sbit (bm_bits bm) i)"
  using assms by (auto simp: data_ok_def is_null_def bitmap_get_sbit split: option.splits)

section \<open>Builder\<close>

record builder =
  b_kind :: kind
  b_ints :: "u64 list"
  b_bytes :: "bytes list"
  b_present :: "bool list option"
  b_rows :: nat

definition new_builder :: "kind \<Rightarrow> builder" where
  "new_builder k = \<lparr>b_kind = k, b_ints = [], b_bytes = [], b_present = None, b_rows = 0\<rparr>"

definition append_int :: "u64 \<Rightarrow> builder \<Rightarrow> builder" where
  "append_int v b =
     b\<lparr>b_ints := b_ints b @ [v],
       b_present := (case b_present b of None \<Rightarrow> None | Some p \<Rightarrow> Some (p @ [True])),
       b_rows := b_rows b + 1\<rparr>"

definition append_bytes :: "bytes \<Rightarrow> builder \<Rightarrow> builder" where
  "append_bytes v b =
     b\<lparr>b_bytes := b_bytes b @ [v],
       b_present := (case b_present b of None \<Rightarrow> None | Some p \<Rightarrow> Some (p @ [True])),
       b_rows := b_rows b + 1\<rparr>"

definition append_null :: "builder \<Rightarrow> builder" where
  "append_null b =
     (let p = (case b_present b of None \<Rightarrow> replicate (b_rows b) True | Some p \<Rightarrow> p);
          b1 = (if b_kind b = KindInt then b\<lparr>b_ints := b_ints b @ [0]\<rparr>
                else b\<lparr>b_bytes := b_bytes b @ [[]]\<rparr>)
      in b1\<lparr>b_present := Some (p @ [False]), b_rows := b_rows b + 1\<rparr>)"

definition builder_reset :: "builder \<Rightarrow> builder" where
  "builder_reset b = b\<lparr>b_ints := [], b_bytes := [], b_present := None, b_rows := 0\<rparr>"

definition builder_present :: "builder \<Rightarrow> nat \<Rightarrow> bool res" where
  "builder_present b i = (case b_present b of None \<Rightarrow> Inr True | Some p \<Rightarrow> index_at p i)"

definition has_nulls :: "builder \<Rightarrow> bool" where
  "has_nulls b \<longleftrightarrow> b_present b \<noteq> None"

definition present_at :: "builder \<Rightarrow> nat \<Rightarrow> bool" where
  "present_at b i = (case b_present b of None \<Rightarrow> True | Some p \<Rightarrow> p ! i)"

definition builder_cell :: "builder \<Rightarrow> nat \<Rightarrow> cell" where
  "builder_cell b i =
     (if \<not> present_at b i then Null
      else if b_kind b = KindInt then IntCell (b_ints b ! i) else BytesCell (b_bytes b ! i))"

definition builder_cells :: "builder \<Rightarrow> cell list" where
  "builder_cells b = map (builder_cell b) [0..<b_rows b]"

text \<open>
  The invariant: one entry per row in the stream of the builder's kind, flags only once a
  null has been appended, and then one per row.
\<close>

definition builder_ok :: "builder \<Rightarrow> bool" where
  "builder_ok b \<longleftrightarrow>
     (b_kind b = KindInt \<and> length (b_ints b) = b_rows b \<and> b_bytes b = []
      \<or> b_kind b = KindBytes \<and> length (b_bytes b) = b_rows b \<and> b_ints b = [])
     \<and> (case b_present b of None \<Rightarrow> True | Some p \<Rightarrow> length p = b_rows b \<and> False \<in> set p)"

lemma builder_ok_new: "k = KindInt \<or> k = KindBytes \<Longrightarrow> builder_ok (new_builder k)"
  by (auto simp: builder_ok_def new_builder_def)

lemma builder_ok_reset: "builder_ok b \<Longrightarrow> builder_ok (builder_reset b)"
  by (auto simp: builder_ok_def builder_reset_def)

lemma builder_ok_append_int:
  "builder_ok b \<Longrightarrow> b_kind b = KindInt \<Longrightarrow> builder_ok (append_int v b)"
  by (auto simp: builder_ok_def append_int_def split: option.splits)

lemma builder_ok_append_bytes:
  "builder_ok b \<Longrightarrow> b_kind b = KindBytes \<Longrightarrow> builder_ok (append_bytes v b)"
  by (auto simp: builder_ok_def append_bytes_def split: option.splits)

lemma builder_ok_append_null: "builder_ok b \<Longrightarrow> builder_ok (append_null b)"
  by (auto simp: builder_ok_def append_null_def Let_def split: option.splits)

lemma builder_present_ok:
  "builder_ok b \<Longrightarrow> i < b_rows b \<Longrightarrow> builder_present b i = Inr (present_at b i)"
  by (auto simp: builder_ok_def builder_present_def present_at_def split: option.splits)

lemma builder_cells_snoc:
  assumes "b_rows b' = Suc (b_rows b)" and "\<And>i. i < b_rows b \<Longrightarrow> builder_cell b' i = builder_cell b i"
  shows "builder_cells b' = builder_cells b @ [builder_cell b' (b_rows b)]"
  using assms by (simp add: builder_cells_def)

lemma builder_cells_append:
  assumes "builder_ok b"
  shows "b_kind b = KindInt \<Longrightarrow> builder_cells (append_int v b) = builder_cells b @ [IntCell v]"
    and "b_kind b = KindBytes \<Longrightarrow> builder_cells (append_bytes w b) = builder_cells b @ [BytesCell w]"
    and "builder_cells (append_null b) = builder_cells b @ [Null]"
proof -
  show "builder_cells (append_int v b) = builder_cells b @ [IntCell v]" if "b_kind b = KindInt"
    using assms that by (subst builder_cells_snoc [of _ b])
      (auto simp: append_int_def builder_cell_def present_at_def builder_ok_def nth_append
        split: option.splits)
  show "builder_cells (append_bytes w b) = builder_cells b @ [BytesCell w]" if "b_kind b = KindBytes"
    using assms that by (subst builder_cells_snoc [of _ b])
      (auto simp: append_bytes_def builder_cell_def present_at_def builder_ok_def nth_append
        split: option.splits)
  show "builder_cells (append_null b) = builder_cells b @ [Null]"
    using assms by (subst builder_cells_snoc [of _ b])
      (auto simp: append_null_def Let_def builder_cell_def present_at_def builder_ok_def nth_append
        split: option.splits)
qed

section \<open>Summary statistics\<close>

record col_stats =
  cs_Rows :: nat
  cs_NonNull :: nat
  cs_HasNulls :: bool
  cs_MinInt :: u64
  cs_MaxInt :: u64
  cs_MinBytes :: bytes
  cs_MaxBytes :: bytes

text \<open>One value entering a running minimum and maximum; Go compares strings bytewise.\<close>

definition note_value :: "bool \<Rightarrow> 'v::linorder \<Rightarrow> 'v \<times> 'v \<Rightarrow> 'v \<times> 'v" where
  "note_value first v r =
     (if first then (v, v)
      else (if v < fst r then v else fst r, if snd r < v then v else snd r))"

text \<open>One iteration of the loop of \<open>Stats\<close>; the flag is the code's \<open>first\<close>.\<close>

definition stats_row :: "builder \<Rightarrow> col_stats \<times> bool \<Rightarrow> nat \<Rightarrow> (col_stats \<times> bool) res" where
  "stats_row b s i =
     (case s of (st, first) \<Rightarrow>
      bindE (builder_present b i) (\<lambda>p.
        if \<not> p then Inr (st, first)
        else let st1 = st\<lparr>cs_NonNull := cs_NonNull st + 1\<rparr> in
          if b_kind b = KindInt then
            bindE (index_at (b_ints b) i) (\<lambda>v.
              let r = note_value first v (cs_MinInt st1, cs_MaxInt st1)
              in Inr (st1\<lparr>cs_MinInt := fst r, cs_MaxInt := snd r\<rparr>, False))
          else
            bindE (index_at (b_bytes b) i) (\<lambda>v.
              let r = note_value first v (cs_MinBytes st1, cs_MaxBytes st1)
              in Inr (st1\<lparr>cs_MinBytes := fst r, cs_MaxBytes := snd r\<rparr>, False))))"

definition builder_stats :: "builder \<Rightarrow> col_stats res" where
  "builder_stats b =
     bindE (foldE (stats_row b)
       (\<lparr>cs_Rows = b_rows b, cs_NonNull = 0, cs_HasNulls = has_nulls b, cs_MinInt = 0,
         cs_MaxInt = 0, cs_MinBytes = [], cs_MaxBytes = []\<rparr>, True) [0..<b_rows b])
     (\<lambda>(st, _). Inr st)"

text \<open>The values of the present cells, and what the loop has seen of them after \<open>k\<close> rows.\<close>

fun cell_ints :: "cell list \<Rightarrow> u64 list" where
  "cell_ints [] = []"
| "cell_ints (IntCell v # cs) = v # cell_ints cs"
| "cell_ints (_ # cs) = cell_ints cs"

fun cell_bytes :: "cell list \<Rightarrow> bytes list" where
  "cell_bytes [] = []"
| "cell_bytes (BytesCell v # cs) = v # cell_bytes cs"
| "cell_bytes (_ # cs) = cell_bytes cs"

definition extrema :: "'v::linorder list \<Rightarrow> 'v \<times> 'v \<Rightarrow> bool" where
  "extrema vs r \<longleftrightarrow> (vs \<noteq> [] \<longrightarrow> fst r = Min (set vs) \<and> snd r = Max (set vs))"

lemma cell_ints_append [simp]: "cell_ints (xs @ ys) = cell_ints xs @ cell_ints ys"
  by (induction xs rule: cell_ints.induct) simp_all

lemma cell_bytes_append [simp]: "cell_bytes (xs @ ys) = cell_bytes xs @ cell_bytes ys"
  by (induction xs rule: cell_bytes.induct) simp_all

lemma note_value_later: "note_value False v r = (min v (fst r), max v (snd r))"
  by (auto simp: note_value_def min_def max_def not_less)

lemma extrema_note:
  "extrema vs r \<Longrightarrow> extrema (vs @ [v]) (note_value (vs = []) v r)"
  by (cases "vs = []") (simp_all add: extrema_def note_value_later, simp add: note_value_def)

definition stats_upto :: "cell list \<Rightarrow> kind \<Rightarrow> col_stats \<times> bool \<Rightarrow> bool" where
  "stats_upto cs k s \<longleftrightarrow> (case s of (st, first) \<Rightarrow>
     cs_NonNull st = length (filter (\<lambda>c. c \<noteq> Null) cs)
     \<and> (if k = KindInt then first = (cell_ints cs = []) \<and> extrema (cell_ints cs) (cs_MinInt st, cs_MaxInt st)
        else first = (cell_bytes cs = []) \<and> extrema (cell_bytes cs) (cs_MinBytes st, cs_MaxBytes st)))"

lemma stats_row_upto:
  assumes ok: "builder_ok b" and i: "i < b_rows b" and inv: "stats_upto cs (b_kind b) s"
  shows "\<exists>s'. stats_row b s i = Inr s' \<and> stats_upto (cs @ [builder_cell b i]) (b_kind b) s'
    \<and> cs_Rows (fst s') = cs_Rows (fst s) \<and> cs_HasNulls (fst s') = cs_HasNulls (fst s)"
proof -
  obtain st first where s: "s = (st, first)" by (cases s)
  note p = builder_present_ok [OF ok i]
  have len: "b_kind b = KindInt \<and> i < length (b_ints b) \<or> b_kind b = KindBytes \<and> i < length (b_bytes b)"
    using ok i by (auto simp: builder_ok_def)
  show ?thesis
  proof (cases "present_at b i")
    case False
    then show ?thesis
      using p inv by (simp add: stats_row_def s stats_upto_def builder_cell_def)
  next
    case True
    show ?thesis
    proof (cases "b_kind b = KindInt")
      case k: True
      then have "extrema (cell_ints cs @ [b_ints b ! i])
          (note_value first (b_ints b ! i) (cs_MinInt st, cs_MaxInt st))"
        using inv extrema_note [of "cell_ints cs"] by (simp add: stats_upto_def s)
      then show ?thesis
        using p inv True len k by (simp add: stats_row_def s stats_upto_def builder_cell_def Let_def)
    next
      case k: False
      then have "extrema (cell_bytes cs @ [b_bytes b ! i])
          (note_value first (b_bytes b ! i) (cs_MinBytes st, cs_MaxBytes st))"
        using inv extrema_note [of "cell_bytes cs"] by (simp add: stats_upto_def s)
      then show ?thesis
        using p inv True len k by (simp add: stats_row_def s stats_upto_def builder_cell_def Let_def)
    qed
  qed
qed

lemma builder_stats_ok:
  assumes ok: "builder_ok b"
  shows "\<exists>st. builder_stats b = Inr st \<and> cs_Rows st = b_rows b \<and> cs_HasNulls st = has_nulls b
    \<and> (\<exists>f. stats_upto (builder_cells b) (b_kind b) (st, f))"
proof -
  let ?s0 = "(\<lparr>cs_Rows = b_rows b, cs_NonNull = 0, cs_HasNulls = has_nulls b, cs_MinInt = 0,
    cs_MaxInt = 0, cs_MinBytes = [], cs_MaxBytes = []\<rparr>, True)"
  have "k \<le> b_rows b \<Longrightarrow> \<exists>s. foldE (stats_row b) ?s0 [0..<k] = Inr s
      \<and> stats_upto (map (builder_cell b) [0..<k]) (b_kind b) s
      \<and> cs_Rows (fst s) = b_rows b \<and> cs_HasNulls (fst s) = has_nulls b" for k
  proof (induction k)
    case 0
    show ?case by (simp add: stats_upto_def extrema_def)
  next
    case (Suc k)
    then obtain s where s: "foldE (stats_row b) ?s0 [0..<k] = Inr s"
      "stats_upto (map (builder_cell b) [0..<k]) (b_kind b) s"
      "cs_Rows (fst s) = b_rows b" "cs_HasNulls (fst s) = has_nulls b"
      by auto
    then show ?case
      using stats_row_upto [OF ok _ s(2), of k] Suc.prems by (auto simp: foldE_append)
  qed
  from this [of "b_rows b"] obtain st f where
    f: "foldE (stats_row b) ?s0 [0..<b_rows b] = Inr (st, f)"
      "stats_upto (builder_cells b) (b_kind b) (st, f)" "cs_Rows st = b_rows b"
      "cs_HasNulls st = has_nulls b"
    unfolding builder_cells_def by force
  then show ?thesis
    by (auto simp: builder_stats_def)
qed

section \<open>A column as the sequence of its appends\<close>

datatype column_op = AddInt u64 | AddBytes bytes | AddNull

fun apply_op :: "column_op \<Rightarrow> builder \<Rightarrow> builder" where
  "apply_op (AddInt v) b = append_int v b"
| "apply_op (AddBytes v) b = append_bytes v b"
| "apply_op AddNull b = append_null b"

fun op_cell :: "column_op \<Rightarrow> cell" where
  "op_cell (AddInt v) = IntCell v"
| "op_cell (AddBytes v) = BytesCell v"
| "op_cell AddNull = Null"

fun op_fits :: "kind \<Rightarrow> column_op \<Rightarrow> bool" where
  "op_fits k (AddInt v) = (k = KindInt)"
| "op_fits k (AddBytes v) = (k = KindBytes)"
| "op_fits k AddNull = (k = KindInt \<or> k = KindBytes)"

lemma kind_append [simp]:
  "b_kind (append_int v b) = b_kind b" "b_kind (append_bytes w b) = b_kind b"
  "b_kind (append_null b) = b_kind b"
  by (simp_all add: append_int_def append_bytes_def append_null_def Let_def)

lemma apply_op_ok:
  "builder_ok b \<Longrightarrow> op_fits (b_kind b) op \<Longrightarrow>
     builder_ok (apply_op op b) \<and> builder_cells (apply_op op b) = builder_cells b @ [op_cell op]
     \<and> b_kind (apply_op op b) = b_kind b"
  by (cases op) (simp_all add: builder_ok_append_int builder_ok_append_bytes builder_ok_append_null
      builder_cells_append)

lemma apply_ops_ok:
  "builder_ok b \<Longrightarrow> list_all (op_fits (b_kind b)) ops \<Longrightarrow>
     builder_ok (fold apply_op ops b) \<and> b_kind (fold apply_op ops b) = b_kind b
     \<and> builder_cells (fold apply_op ops b) = builder_cells b @ map op_cell ops"
  by (induction ops arbitrary: b) (simp_all add: apply_op_ok)

text \<open>
  C20: whatever values and nulls are appended to a new builder, in the domain of its kind,
  its streams and its lazily made flags represent exactly that sequence of cells, and
  its invariant holds.
\<close>

theorem builder_represents:
  assumes "list_all (op_fits k) ops" and "k = KindInt \<or> k = KindBytes"
  shows "builder_ok (fold apply_op ops (new_builder k))
    \<and> builder_cells (fold apply_op ops (new_builder k)) = map op_cell ops"
  using apply_ops_ok [of "new_builder k" ops] builder_ok_new [OF assms(2)] assms(1)
  by (simp add: builder_cells_def) (simp add: new_builder_def)

theorem builder_represents_witness:
  "builder_cells (fold apply_op [AddInt 7, AddNull, AddInt 9] (new_builder KindInt))
     = [IntCell 7, Null, IntCell 9]"
  using builder_represents [of KindInt "[AddInt 7, AddNull, AddInt 9]"] by simp

text \<open>
  C21: the statistics of a column never fail and are those of its present cells: the number
  of rows and of non-null rows, and the exact minimum and maximum in the order of the
  column's kind (unsigned numbers, bytewise strings).
\<close>

theorem builder_stats_exact:
  assumes "builder_ok b"
  shows "\<exists>st. builder_stats b = Inr st \<and> cs_Rows st = length (builder_cells b)
    \<and> cs_NonNull st = length (filter (\<lambda>c. c \<noteq> Null) (builder_cells b))
    \<and> (if b_kind b = KindInt then extrema (cell_ints (builder_cells b)) (cs_MinInt st, cs_MaxInt st)
       else extrema (cell_bytes (builder_cells b)) (cs_MinBytes st, cs_MaxBytes st))"
  using builder_stats_ok [OF assms] by (auto simp: stats_upto_def builder_cells_def split: if_splits)

theorem builder_stats_exact_witness:
  "\<exists>st. builder_stats \<lparr>b_kind = KindInt, b_ints = [7, 0, 3], b_bytes = [],
     b_present = Some [True, False, True], b_rows = 3\<rparr> = Inr st \<and> cs_NonNull st = 2"
  using builder_stats_exact [of "\<lparr>b_kind = KindInt, b_ints = [7, 0, 3], b_bytes = [],
     b_present = Some [True, False, True], b_rows = 3\<rparr>"]
  by (auto simp: builder_ok_def builder_cells_def builder_cell_def present_at_def upt_rec)

end
