(* ===== verification/Limits.thy ===== *)
theory Limits
  imports Prelude
begin

text \<open>
  The resource ceilings of \<open>internal/util/limits.go\<close> and its three guards. The error
  text the guards wrap around \<open>ErrLimitExceeded\<close> is not modelled; the arithmetic,
  including the wrap-around of \<open>count * elemSize\<close>, is.
\<close>

named_theorems limit_defs \<open>the values of the ceilings\<close>

definition MaxColumns :: u64 where [limit_defs]: "MaxColumns = 4096"
definition MaxSegmentRows :: u64 where [limit_defs]: "MaxSegmentRows = 16777216"
definition MaxSegments :: u64 where [limit_defs]: "MaxSegments = 1048576"
definition MaxDictEntries :: u64 where [limit_defs]: "MaxDictEntries = 16777216"
definition MaxChunkStored :: u64 where [limit_defs]: "MaxChunkStored = 1073741824"
definition MaxChunkUncompressed :: u64 where [limit_defs]: "MaxChunkUncompressed = 4294967296"
definition MaxDecompressRatio :: u64 where [limit_defs]: "MaxDecompressRatio = 256"
definition MaxFooterSize :: u64 where [limit_defs]: "MaxFooterSize = 268435456"
definition MaxBytesValue :: u64 where [limit_defs]: "MaxBytesValue = 16777216"
definition MaxStringTableBytes :: u64 where [limit_defs]: "MaxStringTableBytes = 1073741824"

definition check_count :: "u64 \<Rightarrow> u64 \<Rightarrow> unit res" where
  "check_count n lim = (if lim < n then Inl (Err LimitExceeded) else Inr ())"

definition check_alloc :: "u64 \<Rightarrow> u64 \<Rightarrow> u64 \<Rightarrow> unit res" where
  "check_alloc count elemSize lim =
     (if elemSize \<noteq> 0 \<and> lim div elemSize < count then Inl (Err LimitExceeded)
      else if lim < count * elemSize then Inl (Err LimitExceeded)
      else Inr ())"

definition check_decompress :: "u64 \<Rightarrow> u64 \<Rightarrow> unit res" where
  "check_decompress storedLen uncompressedLen =
     (if MaxChunkUncompressed < uncompressedLen then Inl (Err LimitExceeded)
      else if 0 < storedLen \<and> MaxDecompressRatio < uncompressedLen div storedLen
        then Inl (Err LimitExceeded)
      else Inr ())"

lemma check_count_Inr_iff [res_iff]: "check_count n lim = Inr u \<longleftrightarrow> n \<le> lim"
  by (auto simp: check_count_def)

lemma check_count_ok [simp]: "n \<le> lim \<Longrightarrow> check_count n lim = Inr ()"
  by (auto simp: check_count_def dest: leD)

lemma graceful_check_count [graceful_intros, simp]: "graceful (check_count n lim)"
  by (simp add: check_count_def)

lemma graceful_check_decompress [graceful_intros, simp]: "graceful (check_decompress s u)"
  by (simp add: check_decompress_def)

text \<open>
  C37: \<open>CheckAlloc\<close> accepts exactly the allocations whose true size, computed without
  wrap-around, stays within the limit.
\<close>

theorem check_alloc_exact:
  "check_alloc count elemSize lim = Inr () \<longleftrightarrow> unat count * unat elemSize \<le> unat lim"
proof (cases "elemSize = 0")
  case True
  then show ?thesis by (simp add: check_alloc_def)
next
  case False
  then have pos: "0 < unat elemSize"
    by (simp add: unat_gt_0)
  have div_iff: "lim div elemSize < count \<longleftrightarrow> unat lim < unat count * unat elemSize"
    using pos by (simp add: word_less_nat_alt unat_div_distrib div_less_iff_less_mult)
  have "count * elemSize \<le> lim" if "unat count * unat elemSize \<le> unat lim"
  proof -
    have "unat count * unat elemSize < 2 ^ LENGTH(64)"
      using that unsigned_less [of lim, where 'a = nat] by simp
    then have "unat (count * elemSize) = unat count * unat elemSize"
      by (simp add: unat_word_ariths)
    with that show ?thesis by (simp add: word_le_nat_alt)
  qed
  then show ?thesis
    using False by (auto simp: check_alloc_def div_iff not_less dest: leD)
qed

text \<open>
  What \<open>CheckDecompress\<close> lets through fits the absolute ceiling and expands at most
  256 times, whenever anything is stored at all.
\<close>

theorem check_decompress_bound:
  assumes "check_decompress storedLen uncompressedLen = Inr ()" and "0 < unat storedLen"
  shows "unat uncompressedLen \<le> 2 ^ 32 \<and> unat uncompressedLen div unat storedLen \<le> 256"
proof
  from assms(1) have a: "uncompressedLen \<le> MaxChunkUncompressed"
    and b: "0 < storedLen \<Longrightarrow> uncompressedLen div storedLen \<le> MaxDecompressRatio"
    by (auto simp: check_decompress_def not_less split: if_splits)
  from a show "unat uncompressedLen \<le> 2 ^ 32"
    by (simp add: word_le_nat_alt limit_defs)
  show "unat uncompressedLen div unat storedLen \<le> 256"
    using b assms(2) by (simp add: word_le_nat_alt word_less_nat_alt unat_div_distrib limit_defs)
qed

theorem check_decompress_bound_witness:
  "unat (25600 :: u64) \<le> 2 ^ 32 \<and> unat (25600 :: u64) div unat (100 :: u64) \<le> 256"
  by (rule check_decompress_bound) (simp_all add: check_decompress_def limit_defs)

end
