(* ===== verification/Cursor.thy ===== *)
theory Cursor
  imports Varint Limits
begin

text \<open>
  The bounds-checked reader of \<open>internal/util/cursor.go\<close>: its buffer, its offset and
  the error it latches. An operation takes the cursor and returns the value read and the
  cursor after it. \<open>Bytes\<close> and \<open>Magic\<close> take a length of type \<open>int\<close>, whose
  addition to the offset can wrap around 64 bits; they are written in the error monad so
  that the slice expression that follows can panic. The fixed-width reads slice after
  \<open>have\<close> succeeded for a constant. \<open>Skip\<close>, which has no caller in the repository, can
  leave a negative offset, which is no cursor of the model.
\<close>

unbundle bit_operations_syntax

record cursor =
  c_buf :: bytes
  c_pos :: nat
  c_err :: "sentinel option"

text \<open>Go's 64-bit \<open>int\<close>: the result of an addition wraps around.\<close>

definition wrap_int :: "int \<Rightarrow> int" where
  "wrap_int i = sint (word_of_int i :: 64 word)"

definition new_cursor :: "bytes \<Rightarrow> cursor" where
  "new_cursor buf = \<lparr>c_buf = buf, c_pos = 0, c_err = None\<rparr>"

definition remaining :: "cursor \<Rightarrow> int" where
  "remaining c = int (length (c_buf c)) - int (c_pos c)"

definition cursor_fail :: "sentinel \<Rightarrow> cursor \<Rightarrow> cursor" where
  "cursor_fail e c = (if c_err c = None then c\<lparr>c_err := Some e\<rparr> else c)"

definition cursor_have :: "int \<Rightarrow> cursor \<Rightarrow> bool \<times> cursor" where
  "cursor_have n c =
     (if n < 0 \<or> int (length (c_buf c)) < wrap_int (int (c_pos c) + n)
      then (False, cursor_fail Truncated c) else (True, c))"

definition cursor_u8 :: "cursor \<Rightarrow> byte \<times> cursor" where
  "cursor_u8 c =
     (if c_err c \<noteq> None then (0, c)
      else case cursor_have 1 c of
        (False, c') \<Rightarrow> (0, c')
      | (True, c') \<Rightarrow> (c_buf c' ! c_pos c', c'\<lparr>c_pos := c_pos c' + 1\<rparr>))"

definition cursor_u16 :: "cursor \<Rightarrow> u16 \<times> cursor" where
  "cursor_u16 c =
     (if c_err c \<noteq> None then (0, c)
      else case cursor_have 2 c of
        (False, c') \<Rightarrow> (0, c')
      | (True, c') \<Rightarrow>
          (le_word (take 2 (drop (c_pos c') (c_buf c'))), c'\<lparr>c_pos := c_pos c' + 2\<rparr>))"

definition cursor_u32 :: "cursor \<Rightarrow> u32 \<times> cursor" where
  "cursor_u32 c =
     (if c_err c \<noteq> None then (0, c)
      else case cursor_have 4 c of
        (False, c') \<Rightarrow> (0, c')
      | (True, c') \<Rightarrow>
          (le_word (take 4 (drop (c_pos c') (c_buf c'))), c'\<lparr>c_pos := c_pos c' + 4\<rparr>))"

definition cursor_u64 :: "cursor \<Rightarrow> u64 \<times> cursor" where
  "cursor_u64 c =
     (if c_err c \<noteq> None then (0, c)
      else case cursor_have 8 c of
        (False, c') \<Rightarrow> (0, c')
      | (True, c') \<Rightarrow>
          (le_word (take 8 (drop (c_pos c') (c_buf c'))), c'\<lparr>c_pos := c_pos c' + 8\<rparr>))"

definition cursor_uvarint :: "cursor \<Rightarrow> u64 \<times> cursor" where
  "cursor_uvarint c =
     (if c_err c \<noteq> None then (0, c)
      else case uvarint (drop (c_pos c) (c_buf c)) of (v, n) \<Rightarrow>
        if n \<le> 0 then (0, cursor_fail Truncated c)
        else (v, c\<lparr>c_pos := c_pos c + nat n\<rparr>))"

definition cursor_varint :: "cursor \<Rightarrow> u64 \<times> cursor" where
  "cursor_varint c = (case cursor_uvarint c of (v, c') \<Rightarrow> (unzigzag v, c'))"

text \<open>\<open>c.buf[c.pos : c.pos+n]\<close> with the 64-bit sum: it panics when the sum wrapped.\<close>

definition cursor_bytes :: "int \<Rightarrow> cursor \<Rightarrow> (bytes \<times> cursor) res" where
  "cursor_bytes n c =
     (if c_err c \<noteq> None then Inr ([], c)
      else case cursor_have n c of
        (False, c') \<Rightarrow> Inr ([], c')
      | (True, c') \<Rightarrow>
          let hi = wrap_int (int (c_pos c') + n) in
          if hi < 0 then Inl Panic
          else bindE (slice_range (c_buf c') (c_pos c') (nat hi)) (\<lambda>b.
                 Inr (b, c'\<lparr>c_pos := nat hi\<rparr>)))"

text \<open>\<open>c.pos += n\<close>: \<open>None\<close> is an offset that became negative.\<close>

definition cursor_skip :: "int \<Rightarrow> cursor \<Rightarrow> cursor option" where
  "cursor_skip n c =
     (if c_err c \<noteq> None then Some c
      else case cursor_have n c of
        (False, c') \<Rightarrow> Some c'
      | (True, c') \<Rightarrow>
          let p = wrap_int (int (c_pos c') + n) in
          if p < 0 then None else Some (c'\<lparr>c_pos := nat p\<rparr>))"

definition cursor_magic :: "bytes \<Rightarrow> cursor \<Rightarrow> cursor res" where
  "cursor_magic want c =
     bindE (cursor_bytes (int (length want)) c) (\<lambda>(got, c').
       Inr (if c_err c' \<noteq> None then c'
            else if got \<noteq> want then cursor_fail BadMagic c' else c'))"

text \<open>\<open>if c.Err() != nil { return nil, c.Err() }\<close>\<close>

definition cursor_check :: "cursor \<Rightarrow> unit res" where
  "cursor_check c = (case c_err c of None \<Rightarrow> Inr () | Some e \<Rightarrow> Inl (Err e))"

section \<open>Reading what was written\<close>

text \<open>
  \<open>short b\<close>: a buffer an address space can hold, so that \<open>pos + n\<close> cannot wrap for a
  length taken from it. \<open>at_cursor pre rest\<close> is the cursor that has read \<open>pre\<close>
  without error and has \<open>rest\<close> left; each read of something written moves it along,
  as a rewrite rule of the collection \<open>cursor_run\<close>.
\<close>

definition short :: "bytes \<Rightarrow> bool" where
  "short b \<longleftrightarrow> length b < 2 ^ 62"

definition at_cursor :: "bytes \<Rightarrow> bytes \<Rightarrow> cursor" where
  "at_cursor pre rest = \<lparr>c_buf = pre @ rest, c_pos = length pre, c_err = None\<rparr>"

named_theorems cursor_run \<open>cursor reads evaluated on the written form\<close>

lemma wrap_int_id: "- (2 ^ 63) \<le> i \<Longrightarrow> i < 2 ^ 63 \<Longrightarrow> wrap_int i = i"
  by (simp add: wrap_int_def signed_of_int signed_take_bit_int_eq_self)

lemma wrap_int_over:
  assumes "2 ^ 63 \<le> i" and "i < 2 ^ 64 + 2 ^ 63"
  shows "wrap_int i = i - 2 ^ 64"
proof -
  have "(i - 2 ^ 64) mod 2 ^ 64 = i mod 2 ^ 64" by (simp add: mod_diff_eq [symmetric])
  then have "wrap_int i = wrap_int (i - 2 ^ 64)"
    unfolding wrap_int_def by (intro arg_cong [of _ _ sint]) (simp add: word_of_int_eq_iff take_bit_eq_mod)
  also have "\<dots> = i - 2 ^ 64" using assms by (intro wrap_int_id) simp_all
  finally show ?thesis .
qed

lemma new_cursor_at [cursor_run]: "new_cursor buf = at_cursor [] buf"
  by (simp add: new_cursor_def at_cursor_def)

lemma at_cursor_simps [simp]:
  "c_err (at_cursor pre rest) = None"
  "c_pos (at_cursor pre rest) = length pre"
  "c_buf (at_cursor pre rest) = pre @ rest"
  "at_cursor pre rest\<lparr>c_pos := n\<rparr> = \<lparr>c_buf = pre @ rest, c_pos = n, c_err = None\<rparr>"
  by (simp_all add: at_cursor_def)

lemma cursor_check_at [simp]: "cursor_check (at_cursor pre rest) = Inr ()"
  by (simp add: cursor_check_def)

lemma graceful_cursor_check [graceful_intros, simp]: "graceful (cursor_check c)"
  by (simp add: cursor_check_def split: option.split)

lemma have_at_cursor:
  assumes "short (pre @ xs @ rest)" and "n = int (length xs)"
  shows "cursor_have n (at_cursor pre (xs @ rest)) = (True, at_cursor pre (xs @ rest))"
proof -
  have "wrap_int (int (length pre) + n) = int (length pre) + n"
    using assms by (intro wrap_int_id) (auto simp: short_def)
  with assms show ?thesis by (simp add: cursor_have_def)
qed

lemma u8_at_cursor [cursor_run]:
  assumes "short (pre @ b # rest)"
  shows "cursor_u8 (at_cursor pre (b # rest)) = (b, at_cursor (pre @ [b]) rest)"
  using have_at_cursor [of pre "[b]" rest 1] assms
  by (simp add: cursor_u8_def)

lemma u16_at_cursor [cursor_run]:
  assumes "short (pre @ le16 w @ rest)"
  shows "cursor_u16 (at_cursor pre (le16 w @ rest)) = (w, at_cursor (pre @ le16 w) rest)"
  using have_at_cursor [of pre "le16 w" rest 2] assms
  by (simp add: cursor_u16_def)

lemma u32_at_cursor [cursor_run]:
  assumes "short (pre @ le32 w @ rest)"
  shows "cursor_u32 (at_cursor pre (le32 w @ rest)) = (w, at_cursor (pre @ le32 w) rest)"
  using have_at_cursor [of pre "le32 w" rest 4] assms
  by (simp add: cursor_u32_def)

lemma u64_at_cursor [cursor_run]:
  assumes "short (pre @ le64 w @ rest)"
  shows "cursor_u64 (at_cursor pre (le64 w @ rest)) = (w, at_cursor (pre @ le64 w) rest)"
  using have_at_cursor [of pre "le64 w" rest 8] assms
  by (simp add: cursor_u64_def)

lemma uvarint_at_cursor [cursor_run]:
  "cursor_uvarint (at_cursor pre (put_uvarint v @ rest)) = (v, at_cursor (pre @ put_uvarint v) rest)"
  by (simp add: cursor_uvarint_def not_le)

lemma bytes_at_cursor [cursor_run]:
  assumes "short (pre @ xs @ rest)" and "n = int (length xs)"
  shows "cursor_bytes n (at_cursor pre (xs @ rest)) = Inr (xs, at_cursor (pre @ xs) rest)"
proof -
  have "wrap_int (int (length pre) + n) = int (length pre) + n"
    using assms by (intro wrap_int_id) (auto simp: short_def)
  with have_at_cursor [OF assms] assms(2) show ?thesis
    by (simp add: cursor_bytes_def Let_def nat_add_distrib)
qed

section \<open>The cursor as a state machine\<close>

inductive cursor_step :: "cursor \<Rightarrow> cursor \<Rightarrow> bool" where
  step_u8: "cursor_step c (snd (cursor_u8 c))"
| step_u16: "cursor_step c (snd (cursor_u16 c))"
| step_u32: "cursor_step c (snd (cursor_u32 c))"
| step_u64: "cursor_step c (snd (cursor_u64 c))"
| step_uvarint: "cursor_step c (snd (cursor_uvarint c))"
| step_varint: "cursor_step c (snd (cursor_varint c))"
| step_bytes: "cursor_bytes n c = Inr (b, c') \<Longrightarrow> cursor_step c c'"
| step_magic: "cursor_magic want c = Inr c' \<Longrightarrow> cursor_step c c'"
| step_skip: "n < 2 ^ 63 \<Longrightarrow> cursor_skip n c = Some c' \<Longrightarrow> cursor_step c c'"

inductive cursor_reach :: "bytes \<Rightarrow> cursor \<Rightarrow> bool" for buf where
  reach_new: "cursor_reach buf (new_cursor buf)"
| reach_step: "cursor_reach buf c \<Longrightarrow> cursor_step c c' \<Longrightarrow> cursor_reach buf c'"

definition cursor_ok :: "cursor \<Rightarrow> bool" where
  "cursor_ok c \<longleftrightarrow> c_pos c \<le> length (c_buf c) \<and> short (c_buf c)"

lemma cursor_have_cases:
  assumes "cursor_have n c = (ok, c')"
  obtains "ok" and "c' = c" and "0 \<le> n" and "wrap_int (int (c_pos c) + n) \<le> int (length (c_buf c))"
  | "\<not> ok" and "c' = cursor_fail Truncated c"
  using assms by (auto simp: cursor_have_def split: if_splits)

lemma cursor_fail_simps [simp]:
  "c_buf (cursor_fail e c) = c_buf c" "c_pos (cursor_fail e c) = c_pos c"
  "c_err (cursor_fail e c) \<noteq> None"
  by (simp_all add: cursor_fail_def)

text \<open>
  What a read may do to a cursor: the buffer stays, the offset moves forward inside it,
  and a latched error freezes everything.
\<close>

definition cursor_fwd :: "cursor \<Rightarrow> cursor \<Rightarrow> bool" where
  "cursor_fwd c c' \<longleftrightarrow>
     c_buf c' = c_buf c \<and> c_pos c \<le> c_pos c' \<and> c_pos c' \<le> length (c_buf c)
     \<and> (c_err c \<noteq> None \<longrightarrow> c' = c)"

lemma cursor_fwd_refl: "cursor_ok c \<Longrightarrow> cursor_fwd c c"
  by (simp add: cursor_fwd_def cursor_ok_def)

lemma cursor_fwd_fail: "cursor_ok c \<Longrightarrow> c_err c = None \<Longrightarrow> cursor_fwd c (cursor_fail e c)"
  by (simp add: cursor_fwd_def cursor_ok_def)

lemma cursor_fwd_trans: "cursor_fwd a b \<Longrightarrow> cursor_fwd b c \<Longrightarrow> cursor_fwd a c"
  unfolding cursor_fwd_def by force

lemma cursor_fwd_ok: "cursor_fwd c c' \<Longrightarrow> cursor_ok c \<Longrightarrow> cursor_ok c'"
  by (simp add: cursor_fwd_def cursor_ok_def)

lemma wrap_pos_id:
  assumes "cursor_ok c" and "0 \<le> n" and "n < 2 ^ 62"
  shows "wrap_int (int (c_pos c) + n) = int (c_pos c) + n"
  using assms by (intro wrap_int_id) (auto simp: cursor_ok_def short_def)

lemma cursor_fwd_advance:
  assumes "cursor_ok c" and "c_err c = None" and "cursor_have n c = (True, c')"
    and "0 \<le> n" and "n < 2 ^ 62"
  shows "c' = c" and "c_pos c + nat n \<le> length (c_buf c)"
    and "cursor_fwd c (c\<lparr>c_pos := c_pos c + nat n\<rparr>)"
proof -
  from assms(3) show "c' = c"
    by (auto elim: cursor_have_cases)
  from assms(3) have "wrap_int (int (c_pos c) + n) \<le> int (length (c_buf c))"
    by (auto elim: cursor_have_cases)
  then show le: "c_pos c + nat n \<le> length (c_buf c)"
    using wrap_pos_id [OF assms(1,4,5)] assms(4) by simp
  show "cursor_fwd c (c\<lparr>c_pos := c_pos c + nat n\<rparr>)"
    using assms(2) le by (simp add: cursor_fwd_def)
qed

lemma cursor_fwd_have_False:
  assumes "cursor_ok c" and "c_err c = None" and "cursor_have n c = (False, c')"
  shows "cursor_fwd c c'"
  using assms by (auto elim!: cursor_have_cases intro: cursor_fwd_fail)

lemmas cursor_fwd_intros = cursor_fwd_refl cursor_fwd_have_False

lemma ext_u8: "cursor_ok c \<Longrightarrow> cursor_fwd c (snd (cursor_u8 c))"
  using cursor_fwd_advance [of c 1]
  by (auto simp: cursor_u8_def split: prod.split bool.split intro: cursor_fwd_intros)

lemma ext_u16: "cursor_ok c \<Longrightarrow> cursor_fwd c (snd (cursor_u16 c))"
  using cursor_fwd_advance [of c 2]
  by (auto simp: cursor_u16_def split: prod.split bool.split intro: cursor_fwd_intros)

lemma ext_u32: "cursor_ok c \<Longrightarrow> cursor_fwd c (snd (cursor_u32 c))"
  using cursor_fwd_advance [of c 4]
  by (auto simp: cursor_u32_def split: prod.split bool.split intro: cursor_fwd_intros)

lemma ext_u64: "cursor_ok c \<Longrightarrow> cursor_fwd c (snd (cursor_u64 c))"
  using cursor_fwd_advance [of c 8]
  by (auto simp: cursor_u64_def split: prod.split bool.split intro: cursor_fwd_intros)

lemma ext_uvarint:
  assumes "cursor_ok c"
  shows "cursor_fwd c (snd (cursor_uvarint c))"
proof (cases "c_err c = None")
  case False
  then show ?thesis using assms by (simp add: cursor_uvarint_def cursor_fwd_refl)
next
  case True
  obtain v n where un: "uvarint (drop (c_pos c) (c_buf c)) = (v, n)"
    by (cases "uvarint (drop (c_pos c) (c_buf c))")
  have "n \<le> int (length (c_buf c)) - int (c_pos c)"
    using uvarint_bound [OF un] assms by (simp add: cursor_ok_def)
  then show ?thesis
    using True un assms by (auto simp: cursor_uvarint_def cursor_fwd_def cursor_ok_def)
qed

lemma ext_varint: "cursor_ok c \<Longrightarrow> cursor_fwd c (snd (cursor_varint c))"
  using ext_uvarint [of c] by (simp add: cursor_varint_def split_beta)

lemma ext_bytes:
  assumes "cursor_ok c" and "cursor_bytes n c = Inr (b, c')"
  shows "cursor_fwd c c'"
proof (cases "c_err c = None")
  case False
  then show ?thesis using assms by (simp add: cursor_bytes_def cursor_fwd_refl)
next
  case True
  obtain ok d where hv: "cursor_have n c = (ok, d)"
    by (cases "cursor_have n c")
  show ?thesis
  proof (cases ok)
    case False
    then show ?thesis
      using True assms hv by (auto simp: cursor_bytes_def intro: cursor_fwd_have_False)
  next
    case ok: True
    have "d = c" using hv ok by (auto elim: cursor_have_cases)
    then show ?thesis
      using True assms hv ok
      by (auto simp: cursor_bytes_def Let_def slice_range_def cursor_fwd_def res_iff split: if_splits)
  qed
qed

lemma ext_magic:
  assumes "cursor_ok c" and "cursor_magic want c = Inr c'"
  shows "cursor_fwd c c'"
proof -
  from assms(2) obtain got d where d: "cursor_bytes (int (length want)) c = Inr (got, d)"
    and c': "c' = (if c_err d \<noteq> None then d else if got \<noteq> want then cursor_fail BadMagic d else d)"
    by (auto simp: cursor_magic_def res_iff)
  have ed: "cursor_fwd c d" by (rule ext_bytes [OF assms(1) d])
  then have "cursor_fwd d c'"
    using c' assms(1) by (auto intro: cursor_fwd_refl cursor_fwd_fail cursor_fwd_ok)
  with ed show ?thesis by (rule cursor_fwd_trans)
qed

lemma ext_skip:
  assumes "cursor_ok c" and "n < 2 ^ 63" and "cursor_skip n c = Some c'"
  shows "cursor_fwd c c'"
proof (cases "c_err c = None")
  case False
  then show ?thesis using assms(1,3) by (simp add: cursor_skip_def cursor_fwd_refl)
next
  case True
  obtain ok d where hv: "cursor_have n c = (ok, d)" by fastforce
  show ?thesis
  proof (cases ok)
    case False
    then show ?thesis using True assms hv by (auto simp: cursor_skip_def intro: cursor_fwd_have_False)
  next
    case ok: True
    then have d: "d = c" "0 \<le> n" "wrap_int (int (c_pos c) + n) \<le> int (length (c_buf c))"
      using hv by (auto elim: cursor_have_cases)
    have p: "int (c_pos c) + n < 2 ^ 64 + 2 ^ 63" "0 \<le> int (c_pos c) + n"
      using assms(1,2) d(2) by (simp_all add: cursor_ok_def short_def)
    have c': "0 \<le> wrap_int (int (c_pos c) + n)" "c' = c\<lparr>c_pos := nat (wrap_int (int (c_pos c) + n))\<rparr>"
      using assms(3) True hv ok d(1) by (auto simp: cursor_skip_def Let_def split: if_splits)
    have "int (c_pos c) + n < 2 ^ 63"
    proof (rule ccontr)
      assume "\<not> int (c_pos c) + n < 2 ^ 63"
      then have "wrap_int (int (c_pos c) + n) = int (c_pos c) + n - 2 ^ 64" using p(1) by (intro wrap_int_over) simp_all
      then show False using c'(1) assms(1,2) by (simp add: cursor_ok_def short_def)
    qed
    then have "wrap_int (int (c_pos c) + n) = int (c_pos c) + n" using p(2) by (intro wrap_int_id) simp_all
    then show ?thesis using c'(2) d(2,3) True by (simp add: cursor_fwd_def nat_add_distrib)
  qed
qed

lemma cursor_step_ext: "cursor_step c c' \<Longrightarrow> cursor_ok c \<Longrightarrow> cursor_fwd c c'"
  by (induction rule: cursor_step.induct)
     (auto intro: ext_u8 ext_u16 ext_u32 ext_u64 ext_uvarint ext_varint ext_bytes ext_magic ext_skip)

lemma cursor_reach_inv:
  assumes "cursor_reach buf c" and "short buf"
  shows "cursor_ok c \<and> c_buf c = buf"
  using assms
proof (induction rule: cursor_reach.induct)
  case reach_new
  then show ?case by (simp add: new_cursor_def cursor_ok_def)
next
  case (reach_step c c')
  then have "cursor_ok c" and "c_buf c = buf" by auto
  moreover have "cursor_fwd c c'"
    using reach_step.hyps(2) \<open>cursor_ok c\<close> by (rule cursor_step_ext)
  ultimately show ?case
    by (simp add: cursor_fwd_def cursor_ok_def)
qed

text \<open>
  C36: whatever sequence of reads is made from a new cursor, the offset stays inside the
  buffer, the buffer is never changed, and once an error is latched every further read
  leaves the cursor as it is.
\<close>

theorem cursor_reads_stay_inside:
  assumes "cursor_reach buf c" and "short buf" and "cursor_step c c'"
  shows "c_buf c' = buf \<and> c_pos c \<le> c_pos c' \<and> c_pos c' \<le> length buf
         \<and> (c_err c = None \<or> c' = c)"
proof -
  have "cursor_ok c \<and> c_buf c = buf"
    using assms(1,2) by (rule cursor_reach_inv)
  with cursor_step_ext [OF assms(3)] show ?thesis
    by (auto simp: cursor_fwd_def)
qed

theorem cursor_reads_stay_inside_witness:
  "c_pos (snd (cursor_u16 (new_cursor [1, 2, 3]))) \<le> length ([1, 2, 3] :: bytes)"
  using cursor_reads_stay_inside
    [OF reach_new [of "[1, 2, 3]"] _ step_u16 [of "new_cursor [1, 2, 3]"]]
  by (simp add: short_def)

text \<open>
  \<open>Cursor.Bytes\<close> never panics for a length below \<open>2^62\<close>, which every caller
  guarantees with \<open>CheckCount\<close> before it reads.
\<close>

lemma cursor_bytes_graceful:
  assumes "cursor_ok c" and "n < 2 ^ 62"
  shows "graceful (cursor_bytes n c)"
proof (cases "c_err c = None \<and> fst (cursor_have n c)")
  case False
  then show ?thesis
    by (auto simp: cursor_bytes_def split: prod.split bool.split)
next
  case True
  then obtain d where hv: "cursor_have n c = (True, d)"
    by (cases "cursor_have n c") auto
  then have n: "0 \<le> n" "d = c" by (auto elim: cursor_have_cases)
  have "c_pos c + nat n \<le> length (c_buf c)"
    using cursor_fwd_advance(2) [OF assms(1) _ hv n(1) assms(2)] True by simp
  with n hv True show ?thesis
    using wrap_pos_id [OF assms(1) n(1) assms(2)]
    by (simp add: cursor_bytes_def nat_add_distrib)
qed

section \<open>Readers built from the cursor\<close>

text \<open>
  A reader that starts from a well-formed cursor, never crashes, and hands back a cursor
  that has only moved forward; the collection \<open>safe_read\<close> holds the rules that follow the
  shape of the code.
\<close>

named_theorems safe_read \<open>rules that build \<open>safe_read\<close> facts\<close>

definition safe_read :: "cursor \<Rightarrow> ('a \<times> cursor) res \<Rightarrow> bool" where
  "safe_read c r \<longleftrightarrow> graceful r \<and> (\<forall>x c'. r = Inr (x, c') \<longrightarrow> cursor_fwd c c')"

lemma safe_read_ok: "safe_read c (Inr (x, c')) \<Longrightarrow> cursor_ok c \<Longrightarrow> cursor_ok c'"
  by (auto simp: safe_read_def intro: cursor_fwd_ok)

lemma safe_read_bind [safe_read]:
  assumes "cursor_ok c" and m: "safe_read c m"
    and f: "\<And>x c'. cursor_ok c' \<Longrightarrow> safe_read c' (f x c')"
  shows "safe_read c (bindE m (\<lambda>(x, c'). f x c'))"
proof (cases m)
  case (Inl e)
  then show ?thesis using m by (simp add: safe_read_def graceful_def)
next
  case (Inr p)
  obtain x c' where p: "p = (x, c')" by (cases p)
  have fwd: "cursor_fwd c c'" using m Inr p by (simp add: safe_read_def)
  then have "safe_read c' (f x c')"
    using f assms(1) cursor_fwd_ok by blast
  with fwd show ?thesis
    by (auto simp: Inr p safe_read_def intro: cursor_fwd_trans)
qed

lemma safe_read_guard [safe_read]:
  "graceful m \<Longrightarrow> (\<And>u. m = Inr u \<Longrightarrow> safe_read c (f u)) \<Longrightarrow> safe_read c (bindE m f)"
  for m :: "unit res"
  by (cases m) (simp_all add: safe_read_def graceful_def)

lemma safe_read_return [safe_read]: "cursor_ok c \<Longrightarrow> safe_read c (Inr (x, c))"
  by (simp add: safe_read_def cursor_fwd_refl)

lemma safe_read_Err [safe_read]: "safe_read c (Inl (Err e))"
  by (simp add: safe_read_def)

lemma safe_read_if [safe_read]:
  "(b \<Longrightarrow> safe_read c r) \<Longrightarrow> (\<not> b \<Longrightarrow> safe_read c s) \<Longrightarrow> safe_read c (if b then r else s)"
  by simp

lemma safe_read_step:
  assumes "cursor_ok c" and "cursor_fwd c (snd (rd c))"
    and "\<And>x c'. cursor_ok c' \<Longrightarrow> safe_read c' (f x c')"
  shows "safe_read c (case rd c of (x, c') \<Rightarrow> f x c')"
proof -
  obtain x c' where p: "rd c = (x, c')" by (cases "rd c")
  then have fwd: "cursor_fwd c c'" using assms(2) by simp
  then have "safe_read c' (f x c')"
    using assms cursor_fwd_ok by blast
  with fwd show ?thesis
    by (auto simp: p safe_read_def intro: cursor_fwd_trans)
qed

lemma safe_read_reads [safe_read]:
  assumes "cursor_ok c"
  shows "(\<And>x c'. cursor_ok c' \<Longrightarrow> safe_read c' (f8 x c')) \<Longrightarrow> safe_read c (case cursor_u8 c of (x, c') \<Rightarrow> f8 x c')"
    and "(\<And>x c'. cursor_ok c' \<Longrightarrow> safe_read c' (f16 x c')) \<Longrightarrow> safe_read c (case cursor_u16 c of (x, c') \<Rightarrow> f16 x c')"
    and "(\<And>x c'. cursor_ok c' \<Longrightarrow> safe_read c' (f32 x c')) \<Longrightarrow> safe_read c (case cursor_u32 c of (x, c') \<Rightarrow> f32 x c')"
    and "(\<And>x c'. cursor_ok c' \<Longrightarrow> safe_read c' (f64 x c')) \<Longrightarrow> safe_read c (case cursor_u64 c of (x, c') \<Rightarrow> f64 x c')"
    and "(\<And>x c'. cursor_ok c' \<Longrightarrow> safe_read c' (fu x c')) \<Longrightarrow> safe_read c (case cursor_uvarint c of (x, c') \<Rightarrow> fu x c')"
  by (rule safe_read_step [OF assms]; simp add: assms ext_u8 ext_u16 ext_u32 ext_u64 ext_uvarint)+

lemma safe_read_bytes [safe_read]:
  "cursor_ok c \<Longrightarrow> n < 2 ^ 62 \<Longrightarrow> safe_read c (cursor_bytes n c)"
  by (auto simp: safe_read_def cursor_bytes_graceful intro: ext_bytes)

declare graceful_check_count [safe_read] graceful_cursor_check [safe_read]

section \<open>The overflow of the guard\<close>

text \<open>
  The guard of \<open>have\<close> itself is not sufficient: for a length near \<open>2^63\<close> the sum
  \<open>pos + n\<close> wraps to a negative number, \<open>have\<close> accepts it and the slice panics.
\<close>

theorem cursor_bytes_wraps:
  assumes "c_err c = None" and "0 < c_pos c" and "c_pos c < 2 ^ 62"
  shows "cursor_bytes (2 ^ 63 - 1) c = Inl Panic"
proof -
  have "wrap_int (int (c_pos c) + (2 ^ 63 - 1)) = int (c_pos c) + (2 ^ 63 - 1) - 2 ^ 64"
    using assms by (intro wrap_int_over) simp_all
  then show ?thesis
    using assms by (simp add: cursor_bytes_def cursor_have_def)
qed

theorem cursor_bytes_wraps_witness:
  "cursor_bytes (2 ^ 63 - 1) (snd (cursor_u8 (new_cursor [7, 8]))) = Inl Panic"
  by (rule cursor_bytes_wraps) (simp_all add: cursor_run short_def)

text \<open>\<open>Skip\<close> lets the same sum through: the offset becomes negative.\<close>

lemma cursor_skip_wraps:
  assumes "c_err c = None" and "0 < c_pos c" and "c_pos c < 2 ^ 62"
  shows "cursor_skip (2 ^ 63 - 1) c = None"
proof -
  have "wrap_int (int (c_pos c) + (2 ^ 63 - 1)) = int (c_pos c) + (2 ^ 63 - 1) - 2 ^ 64"
    using assms by (intro wrap_int_over) simp_all
  then show ?thesis using assms by (simp add: cursor_skip_def cursor_have_def)
qed

end
