(* ===== verification/Schema.thy ===== *)
theory Schema
  imports Column Cursor
begin

text \<open>
  \<open>internal/schema/schema.go\<close>: logical types, the schema, its validation, and its
  descriptor in the file footer. Names are Go strings, that is byte strings; \<open>Index\<close>
  returns an option where the code returns -1. The descriptor is read through the
  cursor; a failed read leaves zeros behind and the latched error is tested at the end,
  as in the code.
\<close>

unbundle bit_operations_syntax

type_synonym logical_type = u8

abbreviation TypeTimestamp :: logical_type where "TypeTimestamp \<equiv> 0"
abbreviation TypeIP :: logical_type where "TypeIP \<equiv> 1"
abbreviation TypeUint :: logical_type where "TypeUint \<equiv> 2"
abbreviation TypePort :: logical_type where "TypePort \<equiv> 3"
abbreviation TypeEnum :: logical_type where "TypeEnum \<equiv> 4"
abbreviation TypeString :: logical_type where "TypeString \<equiv> 5"
abbreviation TypeBool :: logical_type where "TypeBool \<equiv> 6"

definition type_kind :: "logical_type \<Rightarrow> kind" where
  "type_kind t = (if t = TypeIP \<or> t = TypeEnum \<or> t = TypeString then KindBytes else KindInt)"

definition type_valid :: "logical_type \<Rightarrow> bool" where
  "type_valid t \<longleftrightarrow> t \<le> TypeBool"

record column_def =
  col_Name :: bytes
  col_Type :: logical_type
  col_Indexed :: bool
  col_Nullable :: bool

record schema =
  sch_ID :: u32
  sch_Name :: bytes
  sch_Version :: u16
  sch_Columns :: "column_def list"

fun index_loop :: "bytes \<Rightarrow> nat \<Rightarrow> column_def list \<Rightarrow> nat option" where
  "index_loop name i [] = None"
| "index_loop name i (c # cs) = (if col_Name c = name then Some i else index_loop name (Suc i) cs)"

definition schema_index :: "schema \<Rightarrow> bytes \<Rightarrow> nat option" where
  "schema_index s name = index_loop name 0 (sch_Columns s)"

fun validate_columns :: "bytes list \<Rightarrow> column_def list \<Rightarrow> unit res" where
  "validate_columns seen [] = Inr ()"
| "validate_columns seen (c # cs) =
     (if col_Name c = [] then Inl (Err SchemaError)
      else if \<not> type_valid (col_Type c) then Inl (Err SchemaError)
      else if col_Name c \<in> set seen then Inl (Err SchemaError)
      else validate_columns (col_Name c # seen) cs)"

definition validate :: "schema \<Rightarrow> unit res" where
  "validate s =
     (if length (sch_Columns s) = 0 then Inl (Err SchemaError)
      else if unat MaxColumns < length (sch_Columns s) then Inl (Err SchemaError)
      else validate_columns [] (sch_Columns s))"

section \<open>Descriptor\<close>

definition put_string :: "bytes \<Rightarrow> bytes" where
  "put_string v = put_uvarint (of_nat (length v)) @ v"

definition column_flags :: "column_def \<Rightarrow> u8" where
  "column_flags c = (if col_Indexed c then 1 else 0) OR (if col_Nullable c then 2 else 0)"

definition append_column :: "column_def \<Rightarrow> bytes" where
  "append_column c = put_string (col_Name c) @ [col_Type c, column_flags c]"

definition append_descriptor :: "schema \<Rightarrow> bytes" where
  "append_descriptor s =
     le32 (sch_ID s) @ put_string (sch_Name s) @ le16 (sch_Version s)
       @ put_uvarint (of_nat (length (sch_Columns s))) @ concat (map append_column (sch_Columns s))"

text \<open>A length with its ceiling, then that many bytes: the code's pair of calls.\<close>

definition read_string :: "u64 \<Rightarrow> cursor \<Rightarrow> (bytes \<times> cursor) res" where
  "read_string limit c =
     (case cursor_uvarint c of (n, c1) \<Rightarrow>
      bindE (check_count n limit) (\<lambda>_. cursor_bytes (sint n) c1))"

fun read_columns :: "nat \<Rightarrow> cursor \<Rightarrow> (column_def list \<times> cursor) res" where
  "read_columns 0 c = Inr ([], c)"
| "read_columns (Suc k) c =
     bindE (read_string 4096 c) (\<lambda>(name, c1).
     case cursor_u8 c1 of (t, c2) \<Rightarrow>
     case cursor_u8 c2 of (flags, c3) \<Rightarrow>
     bindE (read_columns k c3) (\<lambda>(cols, c4).
       Inr (\<lparr>col_Name = name, col_Type = t, col_Indexed = flags AND 1 \<noteq> 0,
              col_Nullable = flags AND 2 \<noteq> 0\<rparr> # cols, c4)))"

definition read_descriptor :: "cursor \<Rightarrow> (schema \<times> cursor) res" where
  "read_descriptor c =
     (case cursor_u32 c of (sid, c1) \<Rightarrow>
      bindE (read_string 4096 c1) (\<lambda>(name, c2).
      case cursor_u16 c2 of (ver, c3) \<Rightarrow>
      case cursor_uvarint c3 of (colCount, c4) \<Rightarrow>
      bindE (check_count colCount MaxColumns) (\<lambda>_.
      bindE (read_columns (unat colCount) c4) (\<lambda>(cols, c5).
      bindE (cursor_check c5) (\<lambda>_.
        let s = \<lparr>sch_ID = sid, sch_Name = name, sch_Version = ver, sch_Columns = cols\<rparr>
        in bindE (validate s) (\<lambda>_. Inr (s, c5)))))))"

section \<open>Validation\<close>

lemma validate_columns_iff:
  "validate_columns seen cs = Inr () \<longleftrightarrow>
     (\<forall>c \<in> set cs. col_Name c \<noteq> [] \<and> type_valid (col_Type c) \<and> col_Name c \<notin> set seen)
     \<and> distinct (map col_Name cs)"
  by (induction cs arbitrary: seen) (auto simp: image_iff dest: sym)

lemma validate_iff:
  "validate s = Inr () \<longleftrightarrow>
     sch_Columns s \<noteq> [] \<and> length (sch_Columns s) \<le> 4096
     \<and> (\<forall>c \<in> set (sch_Columns s). col_Name c \<noteq> [] \<and> type_valid (col_Type c))
     \<and> distinct (map col_Name (sch_Columns s))"
  by (auto simp: validate_def validate_columns_iff limit_defs not_less)

lemma graceful_validate [graceful_intros]: "graceful (validate s)"
proof -
  have "graceful (validate_columns seen cs)" for seen cs
    by (induction cs arbitrary: seen) (auto intro!: graceful_intros)
  then show ?thesis by (simp add: validate_def)
qed

lemma index_loop_Some:
  "index_loop name i cs = Some j \<longleftrightarrow>
     i \<le> j \<and> j < i + length cs \<and> col_Name (cs ! (j - i)) = name
     \<and> (\<forall>k < j - i. col_Name (cs ! k) \<noteq> name)"
proof (induction cs arbitrary: i j)
  case Nil
  show ?case by simp
next
  case (Cons c cs)
  consider "j < i" | "j = i" | m where "j = Suc (i + m)"
    using less_imp_Suc_add [of i j] by (cases "j < i"; cases "j = i") auto
  then show ?case
  proof cases
    case 3
    then have "index_loop name (Suc i) cs = Some j \<longleftrightarrow>
        m < length cs \<and> col_Name (cs ! m) = name \<and> (\<forall>k < m. col_Name (cs ! k) \<noteq> name)"
      by (subst Cons.IH) simp
    moreover have "j - i = Suc m" "j < i + length (c # cs) \<longleftrightarrow> m < length cs" "i \<le> j" "i \<noteq> j"
      using 3 by simp_all
    ultimately show ?thesis by (auto simp: All_less_Suc2)
  qed (auto simp: Cons.IH)
qed

lemma schema_index_Some:
  "schema_index s name = Some j \<longleftrightarrow>
     j < length (sch_Columns s) \<and> col_Name (sch_Columns s ! j) = name
     \<and> (\<forall>k < j. col_Name (sch_Columns s ! k) \<noteq> name)"
  by (simp add: schema_index_def index_loop_Some)

lemma schema_index_bound: "schema_index s name = Some j \<Longrightarrow> j < length (sch_Columns s)"
  by (simp add: schema_index_Some)

section \<open>Round trip\<close>

lemma read_string_at:
  assumes "short (pre @ put_string v @ rest)" and "length v \<le> unat limit" and "limit \<le> 2 ^ 30"
  shows "read_string limit (at_cursor pre (put_string v @ rest))
     = Inr (v, at_cursor (pre @ put_string v) rest)"
proof -
  let ?n = "of_nat (length v) :: u64"
  have "unat limit \<le> 2 ^ 30" using assms(3) by (simp add: word_le_nat_alt)
  then have u: "unat ?n = length v" using assms(2) by (intro unat_of_nat_u64) simp
  then have le: "?n \<le> limit" using assms(2) by (simp add: word_le_nat_alt)
  then have s: "sint ?n = int (length v)"
    using sint_small [of ?n] assms(3) u by simp
  have sh: "short ((pre @ put_uvarint ?n) @ v @ rest)"
    using assms(1) by (simp add: put_string_def)
  show ?thesis
    using bytes_at_cursor [OF sh s] le by (simp add: read_string_def put_string_def uvarint_at_cursor)
qed

lemma column_flags_bits:
  "column_flags c AND 1 \<noteq> 0 \<longleftrightarrow> col_Indexed c" "column_flags c AND 2 \<noteq> 0 \<longleftrightarrow> col_Nullable c"
  by (cases "col_Indexed c"; cases "col_Nullable c"; simp add: column_flags_def)+

lemma read_columns_at:
  assumes "short (pre @ concat (map append_column cs) @ rest)"
    and "\<forall>c \<in> set cs. length (col_Name c) \<le> 4096"
  shows "read_columns (length cs) (at_cursor pre (concat (map append_column cs) @ rest))
     = Inr (cs, at_cursor (pre @ concat (map append_column cs)) rest)"
  using assms
proof (induction cs arbitrary: pre)
  case Nil
  then show ?case by simp
next
  case (Cons c cs)
  let ?f = "column_flags c"
  have sh: "short (pre @ put_string (col_Name c) @ col_Type c # ?f # concat (map append_column cs) @ rest)"
    using Cons.prems(1) by (simp add: append_column_def [of c])
  have n: "read_string 4096 (at_cursor pre (put_string (col_Name c) @ col_Type c # ?f
        # concat (map append_column cs) @ rest))
      = Inr (col_Name c, at_cursor (pre @ put_string (col_Name c))
          (col_Type c # ?f # concat (map append_column cs) @ rest))"
    using Cons.prems(2) sh by (intro read_string_at) simp_all
  have IH: "read_columns (length cs) (at_cursor (pre @ put_string (col_Name c) @ [col_Type c, ?f])
        (concat (map append_column cs) @ rest))
      = Inr (cs, at_cursor ((pre @ put_string (col_Name c) @ [col_Type c, ?f])
          @ concat (map append_column cs)) rest)"
    using Cons.prems(2) sh by (intro Cons.IH) simp_all
  show ?case
    using n IH sh column_flags_bits [of c]
    by (simp add: append_column_def [of c] u8_at_cursor)
qed

text \<open>The lengths the reader accepts; the writer does not check them.\<close>

definition names_fit :: "schema \<Rightarrow> bool" where
  "names_fit s \<longleftrightarrow> length (sch_Name s) \<le> 4096
     \<and> (\<forall>c \<in> set (sch_Columns s). length (col_Name c) \<le> 4096)"

lemma read_descriptor_at:
  assumes sh: "short (pre @ append_descriptor s @ rest)" and "names_fit s" and v: "validate s = Inr ()"
  shows "read_descriptor (at_cursor pre (append_descriptor s @ rest))
     = Inr (s, at_cursor (pre @ append_descriptor s) rest)"
proof -
  let ?n = "of_nat (length (sch_Columns s)) :: u64"
  let ?cols = "concat (map append_column (sch_Columns s))"
  have len: "length (sch_Columns s) \<le> 4096" using v by (simp add: validate_iff)
  then have u: "unat ?n = length (sch_Columns s)" by (intro unat_of_nat_u64) simp
  then have le: "?n \<le> MaxColumns" using len by (simp add: word_le_nat_alt limit_defs)
  have sh': "short (pre @ le32 (sch_ID s) @ put_string (sch_Name s) @ le16 (sch_Version s)
      @ put_uvarint ?n @ ?cols @ rest)"
    using sh by (simp add: append_descriptor_def)
  have n: "read_string 4096 (at_cursor (pre @ le32 (sch_ID s)) (put_string (sch_Name s)
        @ le16 (sch_Version s) @ put_uvarint ?n @ ?cols @ rest))
      = Inr (sch_Name s, at_cursor ((pre @ le32 (sch_ID s)) @ put_string (sch_Name s))
          (le16 (sch_Version s) @ put_uvarint ?n @ ?cols @ rest))"
    using assms(2) sh' by (intro read_string_at) (simp_all add: names_fit_def)
  have c: "read_columns (length (sch_Columns s)) (at_cursor (pre @ le32 (sch_ID s)
        @ put_string (sch_Name s) @ le16 (sch_Version s) @ put_uvarint ?n) (?cols @ rest))
      = Inr (sch_Columns s, at_cursor ((pre @ le32 (sch_ID s)
        @ put_string (sch_Name s) @ le16 (sch_Version s) @ put_uvarint ?n) @ ?cols) rest)"
    using assms(2) sh' by (intro read_columns_at) (simp_all add: names_fit_def)
  have s: "\<lparr>sch_ID = sch_ID s, sch_Name = sch_Name s, sch_Version = sch_Version s,
      sch_Columns = sch_Columns s\<rparr> = s"
    by simp
  show ?thesis
    using n c u le v sh'
    by (simp add: read_descriptor_def append_descriptor_def u32_at_cursor u16_at_cursor
          uvarint_at_cursor Let_def s)
qed

lemma read_string_safe [safe_read]:
  assumes "cursor_ok c" and "limit \<le> 2 ^ 30"
  shows "safe_read c (read_string limit c)"
  unfolding read_string_def
proof (intro safe_read assms(1))
  fix n c1 u
  assume "cursor_ok c1" and "check_count n limit = Inr (u :: unit)"
  then have n: "n \<le> 2 ^ 30" using assms(2) by (simp add: res_iff)
  then have "uint n \<le> 2 ^ 30" by (simp add: word_le_def)
  moreover have "sint n = uint n" using sint_small [OF n] by simp
  ultimately show "sint n < 2 ^ 62" by simp
qed

lemma read_columns_safe [safe_read]: "cursor_ok c \<Longrightarrow> safe_read c (read_columns k c)"
proof (induction k arbitrary: c)
  case (Suc k)
  show ?case
    unfolding read_columns.simps by (intro safe_read Suc) simp_all
qed (simp add: safe_read)

lemma read_descriptor_safe [safe_read]:
  assumes "cursor_ok c"
  shows "safe_read c (read_descriptor c)"
  unfolding read_descriptor_def Let_def
  by (intro safe_read assms graceful_validate) (simp_all add: limit_defs)

section \<open>Properties\<close>

text \<open>
  A schema that validates and whose names fit is read back from its descriptor exactly,
  wherever in the footer it stands, and the cursor is left just behind it.
\<close>

theorem schema_descriptor_roundtrip:
  assumes "validate s = Inr ()" and "names_fit s"
    and "length (pre @ append_descriptor s @ rest) < 2 ^ 62"
  shows "read_descriptor (at_cursor pre (append_descriptor s @ rest))
     = Inr (s, at_cursor (pre @ append_descriptor s) rest)"
  using assms by (intro read_descriptor_at) (simp_all add: short_def)

definition sample_schema :: schema where
  "sample_schema = \<lparr>sch_ID = 3, sch_Name = [102], sch_Version = 1, sch_Columns =
     [\<lparr>col_Name = [116, 115], col_Type = TypeTimestamp, col_Indexed = False, col_Nullable = False\<rparr>,
      \<lparr>col_Name = [105, 112], col_Type = TypeIP, col_Indexed = True, col_Nullable = True\<rparr>]\<rparr>"

lemma sample_schema_ok: "validate sample_schema = Inr ()" "names_fit sample_schema"
  by (simp_all add: validate_def sample_schema_def limit_defs type_valid_def names_fit_def)

theorem schema_descriptor_roundtrip_witness:
  "read_descriptor (at_cursor [] (append_descriptor sample_schema @ [7]))
     = Inr (sample_schema, at_cursor (append_descriptor sample_schema) [7])"
proof -
  have "length ([] @ append_descriptor sample_schema @ [7]) < 2 ^ 62"
    using length_put_uvarint_le10 [of 2] length_put_uvarint_le10 [of 1]
    by (simp add: append_descriptor_def append_column_def put_string_def sample_schema_def)
  from schema_descriptor_roundtrip [OF sample_schema_ok this] show ?thesis by simp
qed

text \<open>
  C33: reading a descriptor from hostile bytes never panics, moves the cursor only forward
  inside its buffer, and what it returns satisfies every structural constraint: between one
  and 4096 columns, non-empty unique names, known types; a lookup by name then finds a
  column of that name exactly when there is one.
\<close>

theorem read_descriptor_valid:
  assumes "cursor_ok c" and "read_descriptor c = Inr (s, c')"
  shows "cursor_fwd c c' \<and> sch_Columns s \<noteq> [] \<and> length (sch_Columns s) \<le> 4096
    \<and> distinct (map col_Name (sch_Columns s))
    \<and> (\<forall>cd \<in> set (sch_Columns s). col_Name cd \<noteq> [] \<and> col_Type cd \<le> 6)
    \<and> (\<forall>j < length (sch_Columns s). schema_index s (col_Name (sch_Columns s ! j)) = Some j)"
proof -
  have v: "validate s = Inr ()" using assms(2)
    by (auto simp: read_descriptor_def res_iff Let_def split_beta)
  have "schema_index s (col_Name (sch_Columns s ! j)) = Some j" if "j < length (sch_Columns s)" for j
    using that v nth_eq_iff_index_eq [of "map col_Name (sch_Columns s)"]
    by (auto simp: schema_index_Some validate_iff)
  moreover have "cursor_fwd c c'"
    using read_descriptor_safe [OF assms(1)] assms(2) by (simp add: safe_read_def)
  ultimately show ?thesis using v by (simp add: validate_iff type_valid_def)
qed

theorem read_descriptor_valid_witness:
  "schema_index sample_schema [105, 112] = Some 1"
proof -
  have sh: "short ([] @ append_descriptor sample_schema @ [])"
    using length_put_uvarint_le10 [of 2] length_put_uvarint_le10 [of 1]
    by (simp add: append_descriptor_def append_column_def put_string_def sample_schema_def short_def)
  then have "cursor_ok (at_cursor [] (append_descriptor sample_schema @ []))"
    by (simp add: cursor_ok_def)
  from read_descriptor_valid [OF this read_descriptor_at [OF sh sample_schema_ok(2,1)]]
  have "\<forall>j < 2. schema_index sample_schema (col_Name (sch_Columns sample_schema ! j)) = Some j"
    by (simp add: sample_schema_def numeral_2_eq_2)
  from this [rule_format, of 1] show ?thesis by (simp add: sample_schema_def)
qed

end
