(* ===== verification/Inverted.thy ===== *)
theory Inverted
  imports Roaring Schema "HOL-Library.AList"
begin

text \<open>
  The inverted index of \<open>internal/index/inverted.go\<close>: for each distinct value of a column,
  the bitmap of the rows that hold it. A Go map is an association list with distinct keys;
  the code iterates over it only to sort the keys or to build another map. The integer and
  the byte domain share their loops here, over the key type and its encoding; the locale
  \<open>key_codec\<close> is what the loops need of a key, interpreted for both domains.
\<close>

unbundle bit_operations_syntax

definition InvertedMaxCardinality :: u64 where [limit_defs]: "InvertedMaxCardinality = 65536"

record 'bm inverted =
  iv_kind :: u8
  iv_ints :: "(u64 \<times> 'bm) list"
  iv_bytesM :: "(bytes \<times> 'bm) list"

text \<open>\<open>present != nil && !present(i)\<close>\<close>

definition skipped :: "(nat \<Rightarrow> bool) option \<Rightarrow> nat \<Rightarrow> bool" where
  "skipped present i = (case present of None \<Rightarrow> False | Some p \<Rightarrow> \<not> p i)"

fun build_postings :: "'bm roaring \<Rightarrow> (nat \<Rightarrow> bool) option \<Rightarrow> ('k \<times> 'bm) list \<Rightarrow> nat \<Rightarrow> 'k list
    \<Rightarrow> ('k \<times> 'bm) list option" where
  "build_postings R present m i [] = Some m"
| "build_postings R present m i (v # vs) =
     (if skipped present i then build_postings R present m (Suc i) vs
      else case map_of m v of
        None \<Rightarrow>
          if unat InvertedMaxCardinality \<le> length m then None
          else build_postings R present (AList.update v (rb_add R (rb_new R) (of_nat i)) m) (Suc i) vs
      | Some bm \<Rightarrow> build_postings R present (AList.update v (rb_add R bm (of_nat i)) m) (Suc i) vs)"

definition build_inverted_ints ::
  "'bm roaring \<Rightarrow> u64 list \<Rightarrow> (nat \<Rightarrow> bool) option \<Rightarrow> 'bm inverted option" where
  "build_inverted_ints R vals present =
     (case build_postings R present [] 0 vals of
        None \<Rightarrow> None
      | Some m \<Rightarrow> Some \<lparr>iv_kind = 0, iv_ints = m, iv_bytesM = []\<rparr>)"

definition build_inverted_bytes ::
  "'bm roaring \<Rightarrow> bytes list \<Rightarrow> (nat \<Rightarrow> bool) option \<Rightarrow> 'bm inverted option" where
  "build_inverted_bytes R vals present =
     (case build_postings R present [] 0 vals of
        None \<Rightarrow> None
      | Some m \<Rightarrow> Some \<lparr>iv_kind = 1, iv_ints = [], iv_bytesM = m\<rparr>)"

definition lookup_int :: "'bm inverted option \<Rightarrow> u64 \<Rightarrow> 'bm option" where
  "lookup_int ivo v =
     (case ivo of None \<Rightarrow> None | Some iv \<Rightarrow> if iv_kind iv \<noteq> 0 then None else map_of (iv_ints iv) v)"

definition lookup_bytes :: "'bm inverted option \<Rightarrow> bytes \<Rightarrow> 'bm option" where
  "lookup_bytes ivo v =
     (case ivo of None \<Rightarrow> None | Some iv \<Rightarrow> if iv_kind iv \<noteq> 1 then None else map_of (iv_bytesM iv) v)"

definition histogram :: "'bm roaring \<Rightarrow> 'bm inverted option \<Rightarrow> (u64 \<times> u64) list" where
  "histogram R ivo =
     (case ivo of None \<Rightarrow> []
      | Some iv \<Rightarrow> if iv_kind iv \<noteq> 0 then []
          else map (\<lambda>(v, bm). (v, rb_cardinality R bm)) (iv_ints iv))"

definition histogram_bytes :: "'bm roaring \<Rightarrow> 'bm inverted option \<Rightarrow> (bytes \<times> u64) list" where
  "histogram_bytes R ivo =
     (case ivo of None \<Rightarrow> []
      | Some iv \<Rightarrow> if iv_kind iv \<noteq> 1 then []
          else map (\<lambda>(v, bm). (v, rb_cardinality R bm)) (iv_bytesM iv))"

section \<open>Serialisation\<close>

definition append_bitmap :: "'bm roaring \<Rightarrow> 'bm \<Rightarrow> bytes" where
  "append_bitmap R bm =
     (let raw = rb_marshal R (rb_optimize R bm) in put_uvarint (of_nat (length raw)) @ raw)"

definition append_entries :: "'bm roaring \<Rightarrow> ('k::linorder \<Rightarrow> bytes) \<Rightarrow> ('k \<times> 'bm) list \<Rightarrow> bytes" where
  "append_entries R put m =
     (let keys = sort (map fst m)
      in put_uvarint (of_nat (length keys))
         @ concat (map (\<lambda>k. put k @ append_bitmap R (the (map_of m k))) keys))"

definition append_inverted :: "'bm roaring \<Rightarrow> 'bm inverted \<Rightarrow> bytes" where
  "append_inverted R iv =
     iv_kind iv # (if iv_kind iv = 0 then append_entries R put_uvarint (iv_ints iv)
                   else append_entries R put_string (iv_bytesM iv))"

fun read_entries :: "'bm roaring \<Rightarrow> (cursor \<Rightarrow> ('k \<times> cursor) res) \<Rightarrow> nat \<Rightarrow> ('k \<times> 'bm) list \<Rightarrow> cursor
    \<Rightarrow> (('k \<times> 'bm) list \<times> cursor) res" where
  "read_entries R get 0 m c = Inr (m, c)"
| "read_entries R get (Suc n) m c =
     bindE (get c) (\<lambda>(k, c1).
     bindE (read_string MaxChunkStored c1) (\<lambda>(raw, c2).
     bindE (cursor_check c2) (\<lambda>_.
     (case rb_unmarshal R raw of
        None \<Rightarrow> Inl (Err Corrupt)
      | Some bm \<Rightarrow> read_entries R get n (AList.update k bm m) c2))))"

definition get_int_key :: "cursor \<Rightarrow> (u64 \<times> cursor) res" where
  "get_int_key c = Inr (cursor_uvarint c)"

definition get_bytes_key :: "cursor \<Rightarrow> (bytes \<times> cursor) res" where
  "get_bytes_key c = read_string MaxBytesValue c"

definition read_inverted :: "'bm roaring \<Rightarrow> cursor \<Rightarrow> ('bm inverted \<times> cursor) res" where
  "read_inverted R c =
     (case cursor_u8 c of (kind, c1) \<Rightarrow>
      case cursor_uvarint c1 of (count, c2) \<Rightarrow>
      bindE (check_count count InvertedMaxCardinality) (\<lambda>_.
      bindE (cursor_check c2) (\<lambda>_.
        if kind = 0 then
          bindE (read_entries R get_int_key (unat count) [] c2) (\<lambda>(m, c3).
            Inr (\<lparr>iv_kind = kind, iv_ints = m, iv_bytesM = []\<rparr>, c3))
        else if kind = 1 then
          bindE (read_entries R get_bytes_key (unat count) [] c2) (\<lambda>(m, c3).
            Inr (\<lparr>iv_kind = kind, iv_ints = [], iv_bytesM = m\<rparr>, c3))
        else Inl (Err Corrupt))))"

section \<open>The rows of a value\<close>

text \<open>The rows a posting list holds for a value, and the rows that do hold it.\<close>

definition posting :: "'bm roaring \<Rightarrow> ('k \<times> 'bm) list \<Rightarrow> 'k \<Rightarrow> nat set" where
  "posting R m k = (case map_of m k of None \<Rightarrow> {} | Some b \<Rightarrow> rb_set R b)"

definition holders :: "(nat \<Rightarrow> bool) option \<Rightarrow> nat \<Rightarrow> 'k list \<Rightarrow> 'k \<Rightarrow> nat set" where
  "holders present i vs k = {i + j | j. j < length vs \<and> \<not> skipped present (i + j) \<and> vs ! j = k}"

lemma holders_Nil [simp]: "holders present i [] k = {}"
  by (simp add: holders_def)

lemma holders_Cons:
  "holders present i (v # vs) k =
     (if \<not> skipped present i \<and> v = k then {i} else {}) \<union> holders present (Suc i) vs k"
proof -
  have "j < length (v # vs) \<longleftrightarrow> j = 0 \<or> (\<exists>j'. j = Suc j' \<and> j' < length vs)" for j
    by (cases j) auto
  then have "holders present i (v # vs) k
      = {i + j | j. (j = 0 \<or> (\<exists>j'. j = Suc j' \<and> j' < length vs)) \<and> \<not> skipped present (i + j) \<and> (v # vs) ! j = k}"
    unfolding holders_def by presburger
  also have "\<dots> = (if \<not> skipped present i \<and> v = k then {i} else {}) \<union> holders present (Suc i) vs k"
    unfolding holders_def by (fastforce split: if_splits)
  finally show ?thesis .
qed

lemma posting_update: "posting R (AList.update v b m) k = (if k = v then rb_set R b else posting R m k)"
  by (simp add: posting_def update_conv')

definition postings_wf :: "'bm roaring \<Rightarrow> ('k \<times> 'bm) list \<Rightarrow> bool" where
  "postings_wf R m \<longleftrightarrow> distinct (map fst m) \<and> length m \<le> 65536 \<and> (\<forall>b \<in> snd ` set m. rb_set R b \<noteq> {})"

lemma length_alist_update:
  "length (AList.update k v m) = (if map_of m k = None then Suc (length m) else length m)"
  by (induction m) (auto)

lemma snd_alist_update: "snd ` set (AList.update k v m) \<subseteq> insert v (snd ` set m)"
  by (induction m) auto

lemma postings_wf_update:
  assumes "postings_wf R m" and "rb_set R b \<noteq> {}" and "map_of m k = None \<longrightarrow> length m < 65536"
  shows "postings_wf R (AList.update k b m)"
proof -
  have "rb_set R b' \<noteq> {}" if "b' \<in> snd ` set (AList.update k b m)" for b'
    using that assms(1,2) snd_alist_update [of k b m] unfolding postings_wf_def by blast
  then show ?thesis
    using assms(1,3) by (auto simp: postings_wf_def distinct_update length_alist_update)
qed

lemma build_postings_ok:
  assumes "roaring_ok R" and "build_postings R present m i vs = Some m'" and "i + length vs \<le> 2 ^ 32"
    and "postings_wf R m"
  shows "postings_wf R m' \<and> (\<forall>k. posting R m' k = posting R m k \<union> holders present i vs k)"
  using assms(2-)
proof (induction vs arbitrary: m i)
  case Nil
  then show ?case by simp
next
  case (Cons v vs)
  show ?case
  proof (cases "skipped present i")
    case True
    then show ?thesis using Cons by (simp add: holders_Cons)
  next
    case False
    define b0 where "b0 = (case map_of m v of None \<Rightarrow> rb_new R | Some b \<Rightarrow> b)"
    define m1 where "m1 = AList.update v (rb_add R b0 (of_nat i)) m"
    have i: "unat (of_nat i :: u32) = i"
      using Cons.prems(2) by (simp add: unsigned_of_nat take_bit_eq_mod)
    have rest: "build_postings R present m1 (Suc i) vs = Some m'"
      and room: "map_of m v = None \<longrightarrow> length m < 65536"
      using Cons.prems(1) False
      by (auto simp: m1_def b0_def limit_defs split: option.splits if_splits)
    have b0: "rb_set R b0 = posting R m v"
      by (simp add: b0_def posting_def rb_new_set [OF assms(1)] split: option.split)
    have m1: "posting R m1 k = posting R m k \<union> (if k = v then {i} else {})" for k
      using b0 i by (auto simp: m1_def posting_update rb_add_set [OF assms(1)])
    have "postings_wf R m1"
      unfolding m1_def
      by (rule postings_wf_update) (use Cons.prems(3) room in \<open>auto simp: rb_add_set [OF assms(1)]\<close>)
    then have "postings_wf R m' \<and> (\<forall>k. posting R m' k = posting R m1 k \<union> holders present (Suc i) vs k)"
      using Cons.IH [OF rest] Cons.prems(2) by simp
    then show ?thesis
      using False by (auto simp: m1 holders_Cons)
  qed
qed

lemma build_postings_new:
  assumes "roaring_ok R" and "build_postings R present [] 0 vs = Some m" and "length vs \<le> 2 ^ 32"
  shows "postings_wf R m" and "posting R m k = holders present 0 vs k"
  using build_postings_ok [OF assms(1,2)] assms(3) by (auto simp: postings_wf_def posting_def)

section \<open>The index read back\<close>

text \<open>Two posting lists with the same keys and, under each key, bitmaps of the same rows.\<close>

definition same_postings :: "'bm roaring \<Rightarrow> ('k \<times> 'bm) list \<Rightarrow> ('k \<times> 'bm) list \<Rightarrow> bool" where
  "same_postings R m m' \<longleftrightarrow>
     (\<forall>k. rel_option (\<lambda>b b'. rb_rows R b = rb_rows R b') (map_of m k) (map_of m' k))"

lemma same_postings_posting: "same_postings R m m' \<Longrightarrow> posting R m k = posting R m' k"
  unfolding same_postings_def posting_def rb_set_def
  by (drule spec [of _ k]) (auto simp: rel_option_iff split: option.splits)

lemma same_postings_wf:
  assumes "same_postings R m m'" and wf: "postings_wf R m" and d: "distinct (map fst m')"
  shows "postings_wf R m'"
proof -
  have rel: "rel_option (\<lambda>b b'. rb_rows R b = rb_rows R b') (map_of m k) (map_of m' k)" for k
    using assms(1) by (simp add: same_postings_def)
  have "k \<in> fst ` set m' \<longleftrightarrow> k \<in> fst ` set m" for k
    using rel [of k] map_of_eq_None_iff [of m k] map_of_eq_None_iff [of m' k]
    by (cases "map_of m k"; cases "map_of m' k") auto
  then have "fst ` set m' = fst ` set m" by blast
  then have "length m' = length m"
    using d wf distinct_card [of "map fst m'"] distinct_card [of "map fst m"] by (simp add: postings_wf_def)
  moreover have "rb_set R b' \<noteq> {}" if b': "b' \<in> snd ` set m'" for b'
  proof -
    obtain k where "map_of m' k = Some b'" using b' d by auto
    then obtain b where "map_of m k = Some b" "rb_rows R b = rb_rows R b'"
      using rel [of k] by (cases "map_of m k") auto
    then show ?thesis
      using wf map_of_SomeD [of m k b] by (force simp: postings_wf_def rb_set_def)
  qed
  ultimately show ?thesis using wf d by (simp add: postings_wf_def)
qed

definition rows_small :: "'bm roaring \<Rightarrow> ('k \<times> 'bm) list \<Rightarrow> bool" where
  "rows_small R m \<longleftrightarrow> (\<forall>b \<in> snd ` set m. length (rb_rows R b) \<le> 2 ^ 24)"

lemma append_bitmap_at:
  assumes "roaring_ok R" and "length (rb_rows R b) \<le> 2 ^ 24" and "short (pre @ append_bitmap R b @ rest)"
  shows "\<exists>b'. rb_rows R b' = rb_rows R b
     \<and> rb_unmarshal R (rb_marshal R (rb_optimize R b)) = Some b'
     \<and> read_string MaxChunkStored (at_cursor pre (append_bitmap R b @ rest))
       = Inr (rb_marshal R (rb_optimize R b), at_cursor (pre @ append_bitmap R b) rest)"
proof -
  let ?raw = "rb_marshal R (rb_optimize R b)"
  have eq: "append_bitmap R b = put_string ?raw"
    by (simp add: append_bitmap_def put_string_def Let_def)
  have "length ?raw \<le> 2 ^ 20 + 4 * 2 ^ 24"
    using rb_marshal_length [OF assms(1), of "rb_optimize R b"] assms(2)
    by (simp add: rb_optimize_rows [OF assms(1)])
  then have "read_string MaxChunkStored (at_cursor pre (append_bitmap R b @ rest))
      = Inr (?raw, at_cursor (pre @ append_bitmap R b) rest)"
    unfolding eq using assms(3) by (intro read_string_at) (simp_all add: eq limit_defs)
  then show ?thesis
    using rb_unmarshal_marshal [OF assms(1), of "rb_optimize R b"] rb_optimize_rows [OF assms(1)] by fastforce
qed

lemma distinct_map_fst_Nil: "distinct (map fst [])"
  by simp

locale key_codec =
  fixes put :: "'k::linorder \<Rightarrow> bytes"
    and get :: "cursor \<Rightarrow> ('k \<times> cursor) res"
    and key_ok :: "'k \<Rightarrow> bool"
  assumes get_put: "key_ok k \<Longrightarrow> short (pre @ put k @ rest) \<Longrightarrow>
      get (at_cursor pre (put k @ rest)) = Inr (k, at_cursor (pre @ put k) rest)"
    and get_safe: "cursor_ok c \<Longrightarrow> safe_read c (get c)"
begin

lemma read_entries_at:
  assumes "roaring_ok R" and "\<forall>k \<in> set ks. key_ok k \<and> length (rb_rows R (f k)) \<le> 2 ^ 24"
    and "short (pre @ concat (map (\<lambda>k. put k @ append_bitmap R (f k)) ks) @ rest)"
    and "distinct (map fst m)"
  shows "\<exists>m'. read_entries R get (length ks) m
        (at_cursor pre (concat (map (\<lambda>k. put k @ append_bitmap R (f k)) ks) @ rest))
      = Inr (m', at_cursor (pre @ concat (map (\<lambda>k. put k @ append_bitmap R (f k)) ks)) rest)
    \<and> (\<forall>k. if k \<in> set ks then \<exists>b'. map_of m' k = Some b' \<and> rb_rows R b' = rb_rows R (f k)
           else map_of m' k = map_of m k)
    \<and> distinct (map fst m')"
  using assms(2-)
proof (induction ks arbitrary: pre m)
  case Nil
  then show ?case by simp
next
  case (Cons k ks)
  let ?tail = "concat (map (\<lambda>k. put k @ append_bitmap R (f k)) ks)"
  have sh: "short (pre @ put k @ append_bitmap R (f k) @ ?tail @ rest)" using Cons.prems(2) by simp
  have g: "get (at_cursor pre (put k @ append_bitmap R (f k) @ ?tail @ rest))
      = Inr (k, at_cursor (pre @ put k) (append_bitmap R (f k) @ ?tail @ rest))"
    using Cons.prems(1) sh by (intro get_put) simp_all
  obtain b' where b': "rb_rows R b' = rb_rows R (f k)"
    "rb_unmarshal R (rb_marshal R (rb_optimize R (f k))) = Some b'"
    "read_string MaxChunkStored (at_cursor (pre @ put k) (append_bitmap R (f k) @ ?tail @ rest))
       = Inr (rb_marshal R (rb_optimize R (f k)),
          at_cursor ((pre @ put k) @ append_bitmap R (f k)) (?tail @ rest))"
    using append_bitmap_at [OF assms(1), of "f k" "pre @ put k" "?tail @ rest"] Cons.prems(1) sh by auto
  obtain m' where m': "read_entries R get (length ks) (AList.update k b' m)
        (at_cursor (pre @ put k @ append_bitmap R (f k)) (?tail @ rest))
      = Inr (m', at_cursor ((pre @ put k @ append_bitmap R (f k)) @ ?tail) rest)"
    and look: "\<And>k'. if k' \<in> set ks then \<exists>b'. map_of m' k' = Some b' \<and> rb_rows R b' = rb_rows R (f k')
           else map_of m' k' = map_of (AList.update k b' m) k'"
    and dist: "distinct (map fst m')"
    using Cons.IH [of "pre @ put k @ append_bitmap R (f k)" "AList.update k b' m"] Cons.prems(1,3) sh
    by (auto simp: distinct_update)
  have "if k' \<in> set (k # ks) then \<exists>b'. map_of m' k' = Some b' \<and> rb_rows R b' = rb_rows R (f k')
           else map_of m' k' = map_of m k'" for k'
    using look [of k'] b'(1) by (cases "k' \<in> set ks"; cases "k' = k") (simp_all add: update_conv')
  moreover have "read_entries R get (length (k # ks)) m
        (at_cursor pre (concat (map (\<lambda>k. put k @ append_bitmap R (f k)) (k # ks)) @ rest))
      = Inr (m', at_cursor (pre @ concat (map (\<lambda>k. put k @ append_bitmap R (f k)) (k # ks))) rest)"
    using g b'(2,3) m' by simp
  ultimately show ?case using dist by blast
qed

lemma read_append_entries:
  assumes "roaring_ok R" and wf: "postings_wf R m" and "rows_small R m" and "\<forall>k \<in> fst ` set m. key_ok k"
    and sh: "short (pre @ append_entries R put m @ rest)"
  shows "\<exists>m'. (case cursor_uvarint (at_cursor pre (append_entries R put m @ rest)) of (count, c) \<Rightarrow>
        bindE (check_count count InvertedMaxCardinality) (\<lambda>_. bindE (cursor_check c) (\<lambda>_.
          read_entries R get (unat count) [] c)))
      = Inr (m', at_cursor (pre @ append_entries R put m) rest) \<and> same_postings R m m' \<and> postings_wf R m'"
proof -
  let ?ks = "sort (map fst m)"
  let ?f = "\<lambda>k. the (map_of m k)"
  let ?n = "of_nat (length ?ks) :: u64"
  have dom: "map_of m k = Some (?f k) \<and> ?f k \<in> snd ` set m" if "k \<in> fst ` set m" for k
    using that map_of_SomeD [of m k] by (cases "map_of m k") (auto simp: map_of_eq_None_iff rev_image_eqI)
  have u: "unat ?n = length ?ks" using wf by (intro unat_of_nat_u64) (simp add: postings_wf_def)
  have le: "?n \<le> InvertedMaxCardinality"
    using wf u by (simp add: word_le_nat_alt limit_defs postings_wf_def)
  have ks: "\<forall>k \<in> set ?ks. key_ok k \<and> length (rb_rows R (?f k)) \<le> 2 ^ 24"
    using assms(3,4) dom unfolding rows_small_def set_sort set_map by blast
  have "short ((pre @ put_uvarint ?n) @ concat (map (\<lambda>k. put k @ append_bitmap R (?f k)) ?ks) @ rest)"
    using sh by (simp add: append_entries_def Let_def)
  from read_entries_at [OF assms(1) ks this distinct_map_fst_Nil]
  obtain m' where m': "read_entries R get (length ?ks) []
        (at_cursor (pre @ put_uvarint ?n) (concat (map (\<lambda>k. put k @ append_bitmap R (?f k)) ?ks) @ rest))
      = Inr (m', at_cursor ((pre @ put_uvarint ?n) @ concat (map (\<lambda>k. put k @ append_bitmap R (?f k)) ?ks)) rest)"
    and l: "\<forall>k. if k \<in> set ?ks then \<exists>b'. map_of m' k = Some b' \<and> rb_rows R b' = rb_rows R (?f k)
           else map_of m' k = map_of [] k"
    and dist: "distinct (map fst m')" by blast
  have look: "if k \<in> fst ` set m then \<exists>b'. map_of m' k = Some b' \<and> rb_rows R b' = rb_rows R (?f k)
           else map_of m' k = None" for k
    using spec [OF l, of k] by simp
  have same: "same_postings R m m'"
    unfolding same_postings_def
  proof
    fix k
    show "rel_option (\<lambda>b b'. rb_rows R b = rb_rows R b') (map_of m k) (map_of m' k)"
      using look [of k] dom [of k] map_of_eq_None_iff [of m k] by (cases "k \<in> fst ` set m") auto
  qed
  then show ?thesis
    using m' u le same_postings_wf [OF same wf dist]
    by (intro exI [of _ m']) (simp add: append_entries_def Let_def uvarint_at_cursor)
qed

lemma read_entries_safe: "cursor_ok c \<Longrightarrow> safe_read c (read_entries R get n m c)"
proof (induction n arbitrary: m c)
  case (Suc n)
  have "safe_read c' (case rb_unmarshal R raw of None \<Rightarrow> Inl (Err Corrupt)
      | Some bm \<Rightarrow> read_entries R get n (AList.update k bm m) c')" if "cursor_ok c'" for raw k c'
    using Suc.IH [OF that] by (cases "rb_unmarshal R raw") (simp_all add: safe_read_Err)
  then show ?case
    unfolding read_entries.simps
    by (intro safe_read Suc.prems get_safe) (simp_all add: limit_defs)
qed (simp add: safe_read)

end

interpretation int_key: key_codec put_uvarint get_int_key "\<lambda>_. True"
proof
  show "safe_read c (get_int_key c)" if "cursor_ok c" for c
    using ext_uvarint [OF that] by (cases "cursor_uvarint c") (simp add: get_int_key_def safe_read_def)
qed (simp add: get_int_key_def uvarint_at_cursor)

interpretation bytes_key: key_codec put_string get_bytes_key "\<lambda>k. length k \<le> 2 ^ 24"
proof
  show "get_bytes_key (at_cursor pre (put_string k @ rest)) = Inr (k, at_cursor (pre @ put_string k) rest)"
    if "length k \<le> 2 ^ 24" and "short (pre @ put_string k @ rest)" for k pre rest
    unfolding get_bytes_key_def using that by (intro read_string_at) (simp_all add: limit_defs)
  show "safe_read c (get_bytes_key c)" if "cursor_ok c" for c
    unfolding get_bytes_key_def using that by (intro read_string_safe) (simp_all add: limit_defs)
qed

section \<open>The whole index\<close>

text \<open>An index with a known kind, its bitmaps within one segment.\<close>

definition inverted_wf :: "'bm roaring \<Rightarrow> 'bm inverted \<Rightarrow> bool" where
  "inverted_wf R iv \<longleftrightarrow>
     (iv_kind iv = 0 \<and> iv_bytesM iv = [] \<and> postings_wf R (iv_ints iv) \<and> rows_small R (iv_ints iv)
      \<or> iv_kind iv = 1 \<and> iv_ints iv = [] \<and> postings_wf R (iv_bytesM iv) \<and> rows_small R (iv_bytesM iv)
        \<and> (\<forall>k \<in> fst ` set (iv_bytesM iv). length k \<le> 2 ^ 24))"

definition same_inverted :: "'bm roaring \<Rightarrow> 'bm inverted \<Rightarrow> 'bm inverted \<Rightarrow> bool" where
  "same_inverted R iv iv' \<longleftrightarrow> iv_kind iv' = iv_kind iv
     \<and> postings_wf R (iv_ints iv') \<and> postings_wf R (iv_bytesM iv')
     \<and> same_postings R (iv_ints iv) (iv_ints iv') \<and> same_postings R (iv_bytesM iv) (iv_bytesM iv')"

lemma postings_wf_Nil [simp]: "postings_wf R []"
  by (simp add: postings_wf_def)

lemma same_postings_Nil [simp]: "same_postings R [] []"
  by (simp add: same_postings_def)

lemma read_inverted_at:
  assumes "roaring_ok R" and wf: "inverted_wf R iv" and sh: "short (pre @ append_inverted R iv @ rest)"
  shows "\<exists>iv'. read_inverted R (at_cursor pre (append_inverted R iv @ rest))
     = Inr (iv', at_cursor (pre @ append_inverted R iv) rest) \<and> same_inverted R iv iv'"
proof (cases "iv_kind iv = 0")
  case True
  then have z: "iv_bytesM iv = []" "postings_wf R (iv_ints iv)" "rows_small R (iv_ints iv)"
    using wf by (auto simp: inverted_wf_def)
  obtain m' where m': "(case cursor_uvarint (at_cursor (pre @ [0]) (append_entries R put_uvarint (iv_ints iv) @ rest))
      of (count, c) \<Rightarrow> bindE (check_count count InvertedMaxCardinality) (\<lambda>_. bindE (cursor_check c) (\<lambda>_.
          read_entries R get_int_key (unat count) [] c)))
      = Inr (m', at_cursor ((pre @ [0]) @ append_entries R put_uvarint (iv_ints iv)) rest)"
    "same_postings R (iv_ints iv) m'" "postings_wf R m'"
    using int_key.read_append_entries [OF assms(1) z(2,3), of "pre @ [0]" rest] sh True
    by (auto simp: append_inverted_def)
  show ?thesis
    using m' True z(1) sh
    by (intro exI [of _ "\<lparr>iv_kind = 0, iv_ints = m', iv_bytesM = []\<rparr>"])
       (auto simp: read_inverted_def append_inverted_def u8_at_cursor same_inverted_def res_iff split_beta)
next
  case False
  then have z: "iv_kind iv = 1" "iv_ints iv = []" "postings_wf R (iv_bytesM iv)" "rows_small R (iv_bytesM iv)"
    "\<forall>k \<in> fst ` set (iv_bytesM iv). length k \<le> 2 ^ 24"
    using wf by (auto simp: inverted_wf_def)
  obtain m' where m': "(case cursor_uvarint (at_cursor (pre @ [1]) (append_entries R put_string (iv_bytesM iv) @ rest))
      of (count, c) \<Rightarrow> bindE (check_count count InvertedMaxCardinality) (\<lambda>_. bindE (cursor_check c) (\<lambda>_.
          read_entries R get_bytes_key (unat count) [] c)))
      = Inr (m', at_cursor ((pre @ [1]) @ append_entries R put_string (iv_bytesM iv)) rest)"
    "same_postings R (iv_bytesM iv) m'" "postings_wf R m'"
    using bytes_key.read_append_entries [OF assms(1) z(3,4,5), of "pre @ [1]" rest] sh z(1)
    by (auto simp: append_inverted_def)
  show ?thesis
    using m' z(1,2) sh
    by (intro exI [of _ "\<lparr>iv_kind = 1, iv_ints = [], iv_bytesM = m'\<rparr>"])
       (auto simp: read_inverted_def append_inverted_def u8_at_cursor same_inverted_def res_iff split_beta)
qed

lemma read_inverted_safe [safe_read]:
  assumes "cursor_ok c"
  shows "safe_read c (read_inverted R c)"
  unfolding read_inverted_def
  by (intro safe_read int_key.read_entries_safe bytes_key.read_entries_safe assms)

section \<open>What the index built from a column holds\<close>

lemma holders_bound: "holders present 0 vs k \<subseteq> {..<length vs}"
  by (auto simp: holders_def)

lemma build_rows_small:
  assumes "roaring_ok R" and "build_postings R present [] 0 vs = Some m" and "length vs \<le> 2 ^ 24"
  shows "rows_small R m"
  unfolding rows_small_def
proof
  fix b
  assume "b \<in> snd ` set m"
  then obtain k where "(k, b) \<in> set m" by auto
  moreover have "distinct (map fst m)"
    using build_postings_new(1) [OF assms(1,2)] assms(3) by (simp add: postings_wf_def)
  ultimately have "rb_set R b = posting R m k" by (simp add: posting_def)
  also have "\<dots> \<subseteq> {..<length vs}"
    using build_postings_new(2) [OF assms(1,2)] assms(3) holders_bound by simp
  finally have "card (rb_set R b) \<le> length vs"
    using card_mono [of "{..<length vs}" "rb_set R b"] by simp
  then show "length (rb_rows R b) \<le> 2 ^ 24" using assms(3) by (simp add: rb_rows_length [OF assms(1)])
qed

lemma build_keys:
  assumes "roaring_ok R" and "build_postings R present [] 0 vs = Some m" and "length vs \<le> 2 ^ 24"
  shows "fst ` set m \<subseteq> set vs"
proof
  fix k
  assume "k \<in> fst ` set m"
  then obtain b where b: "map_of m k = Some b" "b \<in> snd ` set m"
    by (metis (no_types, lifting) image_iff map_of_SomeD map_of_eq_None_iff not_None_eq snd_conv)
  have wf: "postings_wf R m" using build_postings_new(1) [OF assms(1,2)] assms(3) by simp
  have "posting R m k \<noteq> {}" using b wf by (auto simp: posting_def postings_wf_def)
  then show "k \<in> set vs"
    using build_postings_new(2) [OF assms(1,2)] assms(3) by (auto simp: holders_def)
qed

lemma build_inverted_ints_wf:
  assumes "roaring_ok R" and "build_inverted_ints R vals present = Some iv" and "length vals \<le> 2 ^ 24"
  shows "inverted_wf R iv \<and> iv_kind iv = 0 \<and> (\<forall>v. posting R (iv_ints iv) v = holders present 0 vals v)"
  using assms build_postings_new [OF assms(1), of present vals] build_rows_small [OF assms(1), of present vals]
  by (auto simp: build_inverted_ints_def inverted_wf_def split: option.splits)

lemma build_inverted_bytes_wf:
  assumes "roaring_ok R" and "build_inverted_bytes R vals present = Some iv" and "length vals \<le> 2 ^ 24"
    and "\<forall>v \<in> set vals. length v \<le> 2 ^ 24"
  shows "inverted_wf R iv \<and> iv_kind iv = 1 \<and> (\<forall>v. posting R (iv_bytesM iv) v = holders present 0 vals v)"
proof -
  obtain m where m: "build_postings R present [] 0 vals = Some m"
    and iv: "iv = \<lparr>iv_kind = 1, iv_ints = [], iv_bytesM = m\<rparr>"
    using assms(2) by (auto simp: build_inverted_bytes_def split: option.splits)
  have "\<forall>k \<in> fst ` set m. length k \<le> 2 ^ 24"
    using build_keys [OF assms(1) m assms(3)] assms(4) by blast
  then show ?thesis
    using build_postings_new [OF assms(1) m] build_rows_small [OF assms(1) m assms(3)] assms(3)
    by (simp add: iv inverted_wf_def)
qed

end
