(* ===== verification/Compress.thy ===== *)
theory Compress
  imports Limits
begin

text \<open>
  The entropy layer, \<open>internal/compress/compress.go\<close>: the identity codec, the wrapper of
  zstd and the wrapper of LZ4 with its one-byte flag. The two compressors and the
  checksum xxHash64 are third-party packages: they are the fields of the record
  \<open>externals\<close>, an argument of every definition that calls them. What the wrappers promise
  is the locale \<open>entropy_codec\<close>; the wrapper of a compressor keeps the promise on the
  inputs the compressor itself inverts.
\<close>

type_synonym comp_id = u8

abbreviation CompNone :: comp_id where "CompNone \<equiv> 0"
abbreviation Zstd :: comp_id where "Zstd \<equiv> 1"
abbreviation LZ4 :: comp_id where "LZ4 \<equiv> 2"

text \<open>
  \<open>zstd_encode\<close> is \<open>Encoder.EncodeAll\<close>, \<open>zstd_decode\<close> is \<open>Decoder.DecodeAll\<close> (\<open>None\<close> for an
  error); \<open>lz4_block\<close> is \<open>CompressBlock\<close> (the block written, \<open>None\<close> for an error),
  \<open>lz4_unblock\<close> is \<open>UncompressBlock\<close> into a buffer of the given size (the part written).
\<close>

record externals =
  xxh64 :: "bytes \<Rightarrow> u64"
  zstd_encode :: "bytes \<Rightarrow> bytes"
  zstd_decode :: "bytes \<Rightarrow> bytes option"
  lz4_block :: "bytes \<Rightarrow> bytes option"
  lz4_unblock :: "bytes \<Rightarrow> nat \<Rightarrow> bytes option"

section \<open>The three codecs\<close>

definition none_compress :: "bytes \<Rightarrow> bytes" where
  "none_compress src = src"

definition none_decompress :: "bytes \<Rightarrow> nat \<Rightarrow> bytes res" where
  "none_decompress src outLen = (if length src \<noteq> outLen then Inl (Err Corrupt) else Inr src)"

definition zstd_compress :: "externals \<Rightarrow> bytes \<Rightarrow> bytes" where
  "zstd_compress X src = zstd_encode X src"

definition zstd_decompress :: "externals \<Rightarrow> bytes \<Rightarrow> nat \<Rightarrow> bytes res" where
  "zstd_decompress X src outLen =
     (case zstd_decode X src of
        None \<Rightarrow> Inl (Err Corrupt)
      | Some out \<Rightarrow> if length out \<noteq> outLen then Inl (Err Corrupt) else Inr out)"

definition lz4_compress :: "externals \<Rightarrow> bytes \<Rightarrow> bytes" where
  "lz4_compress X src =
     (case lz4_block X src of
        None \<Rightarrow> 0 # src
      | Some blk \<Rightarrow> if length blk = 0 \<or> length src \<le> length blk then 0 # src else 1 # blk)"

definition lz4_decompress :: "externals \<Rightarrow> bytes \<Rightarrow> nat \<Rightarrow> bytes res" where
  "lz4_decompress X src outLen =
     (case src of
        [] \<Rightarrow> if outLen = 0 then Inr [] else Inl (Err Truncated)
      | flag # payload \<Rightarrow>
          if flag = 0 then
            (if length payload \<noteq> outLen then Inl (Err Corrupt) else Inr payload)
          else if flag = 1 then
            (case lz4_unblock X payload outLen of
               None \<Rightarrow> Inl (Err Corrupt)
             | Some dst \<Rightarrow> if length dst \<noteq> outLen then Inl (Err Corrupt) else Inr dst)
          else Inl (Err Corrupt))"

text \<open>\<open>Get\<close>, followed by a call of the codec it returns.\<close>

definition get_codec :: "comp_id \<Rightarrow> unit res" where
  "get_codec cid =
     (if cid = CompNone \<or> cid = Zstd \<or> cid = LZ4 then Inr () else Inl (Err UnknownCompression))"

definition decompress :: "externals \<Rightarrow> comp_id \<Rightarrow> bytes \<Rightarrow> nat \<Rightarrow> bytes res" where
  "decompress X cid src outLen =
     (if cid = CompNone then none_decompress src outLen
      else if cid = Zstd then zstd_decompress X src outLen
      else if cid = LZ4 then lz4_decompress X src outLen
      else Inl (Err UnknownCompression))"

definition compress :: "externals \<Rightarrow> comp_id \<Rightarrow> bytes \<Rightarrow> bytes" where
  "compress X cid src =
     (if cid = Zstd then zstd_compress X src
      else if cid = LZ4 then lz4_compress X src else none_compress src)"

section \<open>What an entropy codec promises\<close>

locale entropy_codec =
  fixes comp :: "bytes \<Rightarrow> bytes"
    and decomp :: "bytes \<Rightarrow> nat \<Rightarrow> bytes res"
    and inverted :: "bytes \<Rightarrow> bool"
  assumes inverse: "inverted src \<Longrightarrow> decomp (comp src) (length src) = Inr src"
    and exact: "decomp src n = Inr out \<Longrightarrow> length out = n"
    and crash_free: "graceful (decomp src n)"
begin

text \<open>Two inputs of one length that compress to the same bytes are the same.\<close>

lemma comp_injective:
  assumes "inverted a" and "inverted b" and "length a = length b" and "comp a = comp b"
  shows "a = b"
  using inverse [OF assms(1)] inverse [OF assms(2)] unfolding assms(3,4) by simp

end

text \<open>The inputs on which the third-party compressor is inverted by its decompressor.\<close>

definition zstd_inverts :: "externals \<Rightarrow> bytes \<Rightarrow> bool" where
  "zstd_inverts X src \<longleftrightarrow> zstd_decode X (zstd_encode X src) = Some src"

definition lz4_inverts :: "externals \<Rightarrow> bytes \<Rightarrow> bool" where
  "lz4_inverts X src \<longleftrightarrow> (case lz4_block X src of None \<Rightarrow> True
     | Some blk \<Rightarrow> lz4_unblock X blk (length src) = Some src)"

definition inverts :: "externals \<Rightarrow> comp_id \<Rightarrow> bytes \<Rightarrow> bool" where
  "inverts X cid src \<longleftrightarrow> (cid = CompNone \<or> cid = Zstd \<and> zstd_inverts X src
     \<or> cid = LZ4 \<and> lz4_inverts X src)"

interpretation none: entropy_codec none_compress none_decompress "\<lambda>_. True"
  by standard (auto simp: none_compress_def none_decompress_def split: if_splits)

interpretation zstd: entropy_codec "zstd_compress X" "zstd_decompress X" "zstd_inverts X" for X
  by standard (auto simp: zstd_compress_def zstd_decompress_def zstd_inverts_def
      split: if_splits option.splits)

interpretation lz4: entropy_codec "lz4_compress X" "lz4_decompress X" "lz4_inverts X" for X
  by standard (auto simp: lz4_compress_def lz4_decompress_def lz4_inverts_def
      split: if_splits option.splits list.splits)

text \<open>The dispatch on the identifier keeps the contract of the codec it selects.\<close>

interpretation dispatch: entropy_codec "compress X cid" "decompress X cid" "inverts X cid" for X cid
proof
  show "decompress X cid (compress X cid src) (length src) = Inr src" if "inverts X cid src" for src
    using that none.inverse zstd.inverse lz4.inverse
    by (auto simp: compress_def decompress_def inverts_def)
  show "length out = n" if "decompress X cid src n = Inr out" for src n out
    using that none.exact zstd.exact lz4.exact by (auto simp: decompress_def split: if_splits)
  show "graceful (decompress X cid src n)" for src n
    using none.crash_free zstd.crash_free lz4.crash_free by (simp add: decompress_def)
qed

lemma decompress_known: "decompress X cid src n = Inr out \<Longrightarrow> get_codec cid = Inr ()"
  by (auto simp: decompress_def get_codec_def split: if_splits)

section \<open>Properties\<close>

text \<open>
  Decompressing with the identifier and the length of the original what a codec
  produced returns the original, for each of the three codecs; LZ4 falls back to the
  stored form when the block does not help, and never costs more than one byte.
\<close>

theorem compress_roundtrip:
  assumes "inverts X cid src"
  shows "decompress X cid (compress X cid src) (length src) = Inr src
    \<and> length (lz4_compress X src) \<le> length src + 1"
  using dispatch.inverse [OF assms] by (auto simp: lz4_compress_def split: option.split)

definition identity_externals :: externals where
  "identity_externals = \<lparr>xxh64 = \<lambda>b. of_nat (length b), zstd_encode = \<lambda>b. b,
     zstd_decode = Some, lz4_block = \<lambda>_. None, lz4_unblock = \<lambda>b n. Some (take n b)\<rparr>"

theorem compress_roundtrip_witness:
  "decompress identity_externals LZ4 (compress identity_externals LZ4 [1, 2, 3]) 3 = Inr [1, 2, 3]"
  using compress_roundtrip [of identity_externals LZ4 "[1, 2, 3]"]
  by (simp add: inverts_def lz4_inverts_def identity_externals_def numeral_3_eq_3)

end
