(* ===== verification/Bloom.thy ===== *)
theory Bloom
  imports Compress Cursor
begin

text \<open>
  The Bloom filter of \<open>internal/index/bloom.go\<close>. The floating-point sizing of \<open>NewBloom\<close>
  is a parameter (\<open>sizing\<close>), its integer part is not. Probing indexes the word array
  through \<open>index_at\<close> and a zero modulus panics, as in Go. \<open>xxHash64\<close> is the field of
  \<open>externals\<close>.
\<close>

unbundle bit_operations_syntax

record bloom =
  bl_bits :: "u64 list"
  bl_m :: u64
  bl_k :: u8

text \<open>
  \<open>sz_bits n fp\<close> is \<open>uint64(math.Ceil(-n * Log(fp) / Ln2^2))\<close>, \<open>sz_k mBits n\<close> is
  \<open>uint8(math.Round(mBits / n * Ln2))\<close>, at the fixed false-positive rate of the index.
\<close>

record sizing =
  sz_bits :: "nat \<Rightarrow> u64"
  sz_k :: "u64 \<Rightarrow> nat \<Rightarrow> u8"

definition new_bloom :: "sizing \<Rightarrow> nat \<Rightarrow> bloom" where
  "new_bloom S n0 =
     (let n = (if n0 < 1 then 1 else n0);
          words0 = (sz_bits S n + 63) div 64;
          words = (if words0 < 1 then 1 else words0);
          mBits = words * 64;
          k0 = sz_k S mBits n;
          k1 = (if k0 < 1 then 1 else k0);
          k = (if 32 < k1 then 32 else k1)
      in \<lparr>bl_bits = replicate (unat words) 0, bl_m = mBits, bl_k = k\<rparr>)"

definition probes :: "u64 \<Rightarrow> u64 \<times> u64" where
  "probes h =
     (let h2 = drop_bit 33 h OR push_bit 31 h
      in (h, if h2 = 0 then 0x9E3779B97F4A7C15 else h2))"

definition probe_bit :: "bloom \<Rightarrow> u64 \<Rightarrow> nat \<Rightarrow> u64 res" where
  "probe_bit b h i =
     (if bl_m b = 0 then Inl Panic
      else Inr ((fst (probes h) + of_nat i * snd (probes h)) mod bl_m b))"

definition add_hash :: "u64 \<Rightarrow> bloom \<Rightarrow> bloom res" where
  "add_hash h b0 =
     foldE (\<lambda>b i. bindE (probe_bit b h i) (\<lambda>bt.
        bindE (index_at (bl_bits b) (unat (drop_bit 6 bt))) (\<lambda>w.
        Inr (b\<lparr>bl_bits := (bl_bits b)[unat (drop_bit 6 bt) := w OR push_bit (unat (bt AND 63)) 1]\<rparr>))))
       b0 [0..<unat (bl_k b0)]"

definition bloom_add :: "externals \<Rightarrow> bytes \<Rightarrow> bloom \<Rightarrow> bloom res" where
  "bloom_add X key b = add_hash (xxh64 X key) b"

definition bloom_add_u64 :: "externals \<Rightarrow> u64 \<Rightarrow> bloom \<Rightarrow> bloom res" where
  "bloom_add_u64 X v b = add_hash (xxh64 X (le64 v)) b"

fun may_contain_loop :: "bloom \<Rightarrow> u64 \<Rightarrow> nat list \<Rightarrow> bool res" where
  "may_contain_loop b h [] = Inr True"
| "may_contain_loop b h (i # is) =
     bindE (probe_bit b h i) (\<lambda>bt.
     bindE (index_at (bl_bits b) (unat (drop_bit 6 bt))) (\<lambda>w.
     if w AND push_bit (unat (bt AND 63)) 1 = 0 then Inr False else may_contain_loop b h is))"

definition may_contain_hash :: "bloom \<Rightarrow> u64 \<Rightarrow> bool res" where
  "may_contain_hash b h = may_contain_loop b h [0..<unat (bl_k b)]"

definition may_contain :: "externals \<Rightarrow> bloom \<Rightarrow> bytes \<Rightarrow> bool res" where
  "may_contain X b key = may_contain_hash b (xxh64 X key)"

definition may_contain_u64 :: "externals \<Rightarrow> bloom \<Rightarrow> u64 \<Rightarrow> bool res" where
  "may_contain_u64 X b v = may_contain_hash b (xxh64 X (le64 v))"

definition append_bloom :: "bloom \<Rightarrow> bytes" where
  "append_bloom b =
     [bl_k b] @ put_uvarint (of_nat (length (bl_bits b))) @ concat (map le64 (bl_bits b))"

fun read_words :: "nat \<Rightarrow> cursor \<Rightarrow> u64 list \<times> cursor" where
  "read_words 0 c = ([], c)"
| "read_words (Suc k) c =
     (case cursor_u64 c of (w, c1) \<Rightarrow>
      case read_words k c1 of (ws, c2) \<Rightarrow> (w # ws, c2))"

definition read_bloom :: "cursor \<Rightarrow> (bloom \<times> cursor) res" where
  "read_bloom c =
     (case cursor_u8 c of (k, c1) \<Rightarrow>
      case cursor_uvarint c1 of (words, c2) \<Rightarrow>
      bindE (check_count words (2 ^ 28)) (\<lambda>_.
      bindE (cursor_check c2) (\<lambda>_.
      case read_words (unat words) c2 of (bits, c3) \<Rightarrow>
      bindE (cursor_check c3) (\<lambda>_.
      if words = 0 \<or> k = 0 then Inl (Err Corrupt)
      else Inr (\<lparr>bl_bits = bits, bl_m = words * 64, bl_k = k\<rparr>, c3)))))"

section \<open>The filter as a set of bits\<close>

definition bloom_ok :: "bloom \<Rightarrow> bool" where
  "bloom_ok b \<longleftrightarrow> bl_bits b \<noteq> [] \<and> length (bl_bits b) < 2 ^ 58
     \<and> bl_m b = of_nat (64 * length (bl_bits b)) \<and> bl_k b \<noteq> 0"

definition bloom_bit :: "bloom \<Rightarrow> u64 \<Rightarrow> bool" where
  "bloom_bit b bt \<longleftrightarrow> bit (bl_bits b ! unat (drop_bit 6 bt)) (unat (bt AND 63))"

definition probe :: "bloom \<Rightarrow> u64 \<Rightarrow> nat \<Rightarrow> u64" where
  "probe b h i = (fst (probes h) + of_nat i * snd (probes h)) mod bl_m b"

lemma unat_low6: "unat (w AND 63) = unat w mod 64" for w :: u64
proof -
  have "w AND mask 6 = take_bit 6 w" by (simp add: take_bit_eq_mask)
  then have "w AND 63 = take_bit 6 w" by (simp add: mask_eq_exp_minus_1)
  then show ?thesis by (simp add: take_bit_eq_mod unat_mod)
qed

lemma unat_high6: "unat (drop_bit 6 w) = unat w div 64" for w :: u64
  by (simp only: unat_drop_bit_eq) (simp add: drop_bit_eq_div)

lemma bloom_ok_m: "bloom_ok b \<Longrightarrow> unat (bl_m b) = 64 * length (bl_bits b)"
  using unat_of_nat_u64 [of "64 * length (bl_bits b)"] by (simp add: bloom_ok_def del: of_nat_mult)

lemma probe_ok:
  assumes "bloom_ok b"
  shows "probe_bit b h i = Inr (probe b h i)" and "unat (drop_bit 6 (probe b h i)) < length (bl_bits b)"
proof -
  have m: "unat (bl_m b) = 64 * length (bl_bits b)" by (rule bloom_ok_m [OF assms])
  then have "bl_m b \<noteq> 0" using assms by (auto simp: bloom_ok_def)
  then show "probe_bit b h i = Inr (probe b h i)"
    by (simp add: probe_bit_def probe_def)
  have "unat (probe b h i) < unat (bl_m b)"
    using \<open>bl_m b \<noteq> 0\<close> by (simp add: probe_def unat_mod unat_gt_0)
  then show "unat (drop_bit 6 (probe b h i)) < length (bl_bits b)"
    using m by (simp add: unat_high6 less_mult_imp_div_less mult.commute)
qed

lemma probe_cong: "bl_m b' = bl_m b \<Longrightarrow> probe b' h i = probe b h i"
  by (simp add: probe_def)

lemma bit_one_word: "bit (push_bit k 1 :: u64) j \<longleftrightarrow> j = k \<and> j < 64"
  by (auto simp: bit_exp_iff)

lemma and_bit_word: "k < 64 \<Longrightarrow> w AND 2 ^ k = 0 \<longleftrightarrow> \<not> bit w k" for w :: u64
proof -
  assume k: "k < 64"
  have "w AND 2 ^ k = (if bit w k then 2 ^ k else 0)"
    by (rule bit_word_eqI) (use k in \<open>auto simp: bit_and_iff bit_exp_iff\<close>)
  moreover have "(2 ^ k :: u64) \<noteq> 0"
    using bit_one_word [of k k] k by auto
  ultimately show ?thesis by simp
qed

lemma low6_less: "unat (w AND 63) < 64" for w :: u64
  by (simp add: unat_low6)

lemma may_contain_loop_iff:
  assumes "bloom_ok b"
  shows "may_contain_loop b h is = Inr (\<forall>i \<in> set is. bloom_bit b (probe b h i))"
  by (induction "is") (simp_all add: bloom_bit_def probe_ok [OF assms] and_bit_word low6_less)

lemma may_contain_hash_iff:
  "bloom_ok b \<Longrightarrow> may_contain_hash b h = Inr (\<forall>i < unat (bl_k b). bloom_bit b (probe b h i))"
  by (simp add: may_contain_hash_def may_contain_loop_iff) auto

text \<open>The state after setting the bits of some probes.\<close>

definition grows :: "bloom \<Rightarrow> bloom \<Rightarrow> bool" where
  "grows b b' \<longleftrightarrow> bloom_ok b' \<and> bl_m b' = bl_m b \<and> bl_k b' = bl_k b
     \<and> length (bl_bits b') = length (bl_bits b)
     \<and> (\<forall>bt. unat (drop_bit 6 bt) < length (bl_bits b) \<longrightarrow> bloom_bit b bt \<longrightarrow> bloom_bit b' bt)"

lemma grows_refl: "bloom_ok b \<Longrightarrow> grows b b"
  by (simp add: grows_def)

lemma grows_trans: "grows a b \<Longrightarrow> grows b c \<Longrightarrow> grows a c"
  by (simp add: grows_def)

lemma set_bit_grows:
  assumes "bloom_ok b" and i: "unat (drop_bit 6 bt) < length (bl_bits b)"
  defines "b' \<equiv> b\<lparr>bl_bits := (bl_bits b)[unat (drop_bit 6 bt) :=
     bl_bits b ! unat (drop_bit 6 bt) OR push_bit (unat (bt AND 63)) 1]\<rparr>"
  shows "grows b b'" and "bloom_bit b' bt"
proof -
  have "unat (bt AND 63) < 64" by (simp add: unat_low6)
  then show "bloom_bit b' bt"
    using i by (simp add: b'_def bloom_bit_def bit_or_iff bit_exp_iff)
  have "bloom_bit b' x" if "bloom_bit b x" and "unat (drop_bit 6 x) < length (bl_bits b)" for x
    using that i by (cases "unat (drop_bit 6 x) = unat (drop_bit 6 bt)")
      (simp_all add: b'_def bloom_bit_def bit_or_iff)
  then show "grows b b'"
    using assms(1) by (auto simp: grows_def b'_def bloom_ok_def)
qed

lemma add_hash_ok:
  assumes "bloom_ok b"
  shows "\<exists>b'. add_hash h b = Inr b' \<and> grows b b' \<and> may_contain_hash b' h = Inr True"
proof -
  let ?step = "\<lambda>b i. bindE (probe_bit b h i) (\<lambda>bt.
        bindE (index_at (bl_bits b) (unat (drop_bit 6 bt))) (\<lambda>w.
        Inr (b\<lparr>bl_bits := (bl_bits b)[unat (drop_bit 6 bt) := w OR push_bit (unat (bt AND 63)) 1]\<rparr>)))"
  have "\<exists>b'. foldE ?step b [0..<k] = Inr b' \<and> grows b b' \<and> (\<forall>i < k. bloom_bit b' (probe b' h i))" for k
  proof (induction k)
    case 0
    then show ?case using grows_refl [OF assms] by simp
  next
    case (Suc k)
    then obtain b1 where b1: "foldE ?step b [0..<k] = Inr b1" "grows b b1"
      "\<forall>i < k. bloom_bit b1 (probe b1 h i)" by blast
    have ok1: "bloom_ok b1" using b1(2) by (simp add: grows_def)
    note p = probe_ok [OF ok1, of h]
    let ?b2 = "b1\<lparr>bl_bits := (bl_bits b1)[unat (drop_bit 6 (probe b1 h k)) :=
      bl_bits b1 ! unat (drop_bit 6 (probe b1 h k)) OR push_bit (unat (probe b1 h k AND 63)) 1]\<rparr>"
    note g = set_bit_grows [OF ok1 p(2) [of k]]
    have "\<forall>i < Suc k. bloom_bit ?b2 (probe ?b2 h i)"
      using g b1(3) p(2) by (auto simp: less_Suc_eq grows_def probe_def)
    moreover have "foldE ?step b [0..<Suc k] = Inr ?b2"
      using b1(1) p by (simp add: foldE_append)
    ultimately show ?case using grows_trans [OF b1(2) g(1)] by blast
  qed
  from this [of "unat (bl_k b)"] show ?thesis
    by (auto simp: add_hash_def may_contain_hash_iff grows_def)
qed

lemma grows_may_contain:
  assumes "grows b b'" and "bloom_ok b" and "may_contain_hash b h = Inr True"
  shows "may_contain_hash b' h = Inr True"
proof -
  have "bloom_ok b'" "bl_k b' = bl_k b" "bl_m b' = bl_m b" using assms(1) by (simp_all add: grows_def)
  then show ?thesis
    using assms probe_ok(2) [OF assms(2), of h]
    by (auto simp: may_contain_hash_iff grows_def probe_def)
qed

lemma add_hashes_ok:
  assumes "bloom_ok b"
  shows "\<exists>b'. foldE (\<lambda>b h. add_hash h b) b hs = Inr b' \<and> grows b b'
    \<and> (\<forall>h \<in> set hs. may_contain_hash b' h = Inr True)"
proof (induction hs rule: rev_induct)
  case Nil
  then show ?case using grows_refl [OF assms] by simp
next
  case (snoc h hs)
  then obtain b1 where b1: "foldE (\<lambda>b h. add_hash h b) b hs = Inr b1" "grows b b1"
    "\<forall>h \<in> set hs. may_contain_hash b1 h = Inr True" by blast
  then have ok1: "bloom_ok b1" by (simp add: grows_def)
  from add_hash_ok [OF this, of h] obtain b2 where "add_hash h b1 = Inr b2" "grows b1 b2"
    "may_contain_hash b2 h = Inr True" by blast
  with b1 ok1 show ?case
    by (auto simp: foldE_append intro: grows_trans grows_may_contain)
qed

lemma new_bloom_ok: "bloom_ok (new_bloom S n)"
proof -
  define w0 where "w0 = (sz_bits S (if n < 1 then 1 else n) + 63) div 64"
  define w where "w = (if w0 < 1 then 1 else w0)"
  have "unat w0 < 2 ^ 58"
  proof -
    have "unat w0 = unat (sz_bits S (if n < 1 then 1 else n) + 63) div 64"
      by (simp add: w0_def unat_div)
    also have "\<dots> < 2 ^ 58"
      using unsigned_less [of "sz_bits S (if n < 1 then 1 else n) + 63", where 'a = nat]
      by (simp add: less_mult_imp_div_less)
    finally show ?thesis .
  qed
  then have w: "unat w < 2 ^ 58" by (simp add: w_def)
  have "w \<noteq> 0" by (auto simp: w_def word_less_nat_alt)
  then have "0 < unat w" by (simp add: unat_gt_0)
  moreover have "w * 64 = of_nat (64 * unat w)" by simp
  ultimately show ?thesis
    using w by (auto simp: new_bloom_def Let_def bloom_ok_def w_def w0_def word_less_nat_alt)
qed

section \<open>Properties\<close>

text \<open>
  C34: a Bloom filter has no false negatives: whatever keys are added to a new filter, of
  whatever size, none of the additions panics and every key added is reported as possibly
  present.
\<close>

theorem bloom_no_false_negatives:
  "\<exists>b. foldE (\<lambda>b key. bloom_add X key b) (new_bloom S n) keys = Inr b
     \<and> list_all (\<lambda>key. may_contain X b key = Inr True) keys"
proof -
  have "foldE (\<lambda>b key. bloom_add X key b) b0 keys = foldE (\<lambda>b h. add_hash h b) b0 (map (xxh64 X) keys)"
    for b0
    by (induction keys arbitrary: b0) (simp_all add: bloom_add_def)
  with add_hashes_ok [OF new_bloom_ok, of S n "map (xxh64 X) keys"] show ?thesis
    by (auto simp: list_all_iff may_contain_def)
qed

lemma read_words_at:
  assumes "short (pre @ concat (map le64 ws) @ rest)"
  shows "read_words (length ws) (at_cursor pre (concat (map le64 ws) @ rest))
     = (ws, at_cursor (pre @ concat (map le64 ws)) rest)"
  using assms
proof (induction ws arbitrary: pre)
  case Nil
  then show ?case by simp
next
  case (Cons w ws)
  have "read_words (length ws) (at_cursor (pre @ le64 w) (concat (map le64 ws) @ rest))
      = (ws, at_cursor ((pre @ le64 w) @ concat (map le64 ws)) rest)"
    using Cons.prems by (intro Cons.IH) simp
  then show ?case
    using Cons.prems by (simp add: u64_at_cursor)
qed

lemma read_bloom_at:
  assumes "bloom_ok b" and "length (bl_bits b) \<le> 2 ^ 28" and sh: "short (pre @ append_bloom b @ rest)"
  shows "read_bloom (at_cursor pre (append_bloom b @ rest)) = Inr (b, at_cursor (pre @ append_bloom b) rest)"
proof -
  let ?n = "of_nat (length (bl_bits b)) :: u64"
  have u: "unat ?n = length (bl_bits b)" using assms(2) by (intro unat_of_nat_u64) simp
  have le: "?n \<le> 2 ^ 28" using assms(2) u by (simp add: word_le_nat_alt)
  have nz: "?n \<noteq> 0" using u assms(1) by (auto simp: bloom_ok_def)
  have m: "?n * 64 = bl_m b" using assms(1) by (simp add: bloom_ok_def)
  have sh': "short (pre @ bl_k b # put_uvarint ?n @ concat (map le64 (bl_bits b)) @ rest)"
    using sh by (simp add: append_bloom_def)
  have "read_words (length (bl_bits b)) (at_cursor (pre @ bl_k b # put_uvarint ?n)
        (concat (map le64 (bl_bits b)) @ rest))
      = (bl_bits b, at_cursor ((pre @ bl_k b # put_uvarint ?n) @ concat (map le64 (bl_bits b))) rest)"
    using sh' by (intro read_words_at) simp
  then show ?thesis
    using sh' u le nz m assms(1)
    by (simp add: read_bloom_def append_bloom_def u8_at_cursor uvarint_at_cursor bloom_ok_def)
qed

lemma read_words_fwd: "cursor_ok c \<Longrightarrow> cursor_fwd c (snd (read_words k c))"
proof (induction k arbitrary: c)
  case 0
  then show ?case by (simp add: cursor_fwd_refl)
next
  case (Suc k)
  have f: "cursor_fwd c (snd (cursor_u64 c))" by (rule ext_u64 [OF Suc.prems])
  then have "cursor_fwd (snd (cursor_u64 c)) (snd (read_words k (snd (cursor_u64 c))))"
    using Suc cursor_fwd_ok by blast
  with f show ?case by (simp add: split_beta) (rule cursor_fwd_trans)
qed

lemma length_read_words: "length (fst (read_words k c)) = k"
  by (induction k arbitrary: c) (simp_all add: split_beta)

lemma read_bloom_safe [safe_read]:
  assumes "cursor_ok c"
  shows "safe_read c (read_bloom c)"
  unfolding read_bloom_def
  by (intro safe_read safe_read_step [where rd = "read_words _"] read_words_fwd assms)

lemma read_bloom_ok:
  assumes "read_bloom c = Inr (b, c')"
  shows "bloom_ok b"
proof -
  obtain words bits k where b: "b = \<lparr>bl_bits = bits, bl_m = words * 64, bl_k = k\<rparr>"
    and "k \<noteq> 0" and "words \<noteq> 0" and le: "words \<le> 2 ^ 28" and len: "length bits = unat words"
    using assms length_read_words
    by (auto simp: read_bloom_def res_iff split_beta split: if_splits)
  have "unat words \<le> 2 ^ 28" using le by (simp add: word_le_nat_alt)
  moreover have "words * 64 = of_nat (64 * unat words)" by simp
  moreover have "unat words \<noteq> 0" using \<open>words \<noteq> 0\<close> by (simp add: unat_eq_0)
  ultimately show ?thesis
    using \<open>k \<noteq> 0\<close> len by (auto simp: bloom_ok_def b)
qed

text \<open>
  A filter read from hostile bytes can be queried safely: \<open>ReadBloom\<close> never crashes, and
  whatever filter it returns, a query on any key answers without a panic.
\<close>

theorem read_bloom_queries_safe:
  assumes "cursor_ok c" and "read_bloom c = Inr (b, c')"
  shows "cursor_fwd c c' \<and> (\<exists>r. may_contain X b key = Inr r) \<and> (\<exists>r. may_contain_u64 X b v = Inr r)"
  using read_bloom_safe [OF assms(1)] may_contain_hash_iff [OF read_bloom_ok [OF assms(2)]] assms(2)
  by (simp add: safe_read_def may_contain_def may_contain_u64_def)

definition sample_bloom :: bloom where
  "sample_bloom = \<lparr>bl_bits = [5, 0], bl_m = 128, bl_k = 3\<rparr>"

lemma sample_bloom_ok: "bloom_ok sample_bloom"
  by (simp add: bloom_ok_def sample_bloom_def)

lemma sample_bloom_read:
  "read_bloom (at_cursor [] (append_bloom sample_bloom)) = Inr (sample_bloom, at_cursor (append_bloom sample_bloom) [])"
  using read_bloom_at [OF sample_bloom_ok, of "[]" "[]"] length_put_uvarint_le10 [of 2]
  by (simp add: sample_bloom_def short_def append_bloom_def)

theorem read_bloom_queries_safe_witness:
  "\<exists>r. may_contain identity_externals sample_bloom [1, 2] = Inr r"
proof -
  have "cursor_ok (at_cursor [] (append_bloom sample_bloom))"
    using length_put_uvarint_le10 [of 2]
    by (simp add: cursor_ok_def short_def sample_bloom_def append_bloom_def)
  from read_bloom_queries_safe [OF this sample_bloom_read] show ?thesis by blast
qed

end
