(* ===== verification/ColumnIndex.thy ===== *)
theory ColumnIndex
  imports Inverted Bloom
begin

text \<open>
  The column index of \<open>internal/index/index.go\<close>: a Bloom filter over the distinct values of
  an indexed column and, on request, an inverted index, in one blob. The code iterates over
  the set of distinct values in no particular order; here it is a list in the order of first
  occurrence, and what is proved of the filter does not depend on it. Both domains share the
  loops, over the operation that adds one value to a filter.
\<close>

unbundle bit_operations_syntax

record 'bm column_index =
  ci_Bloom :: "bloom option"
  ci_Inverted :: "'bm inverted option"

definition bloomProbeCap :: nat where "bloomProbeCap = 2 ^ 20"

fun probe_distinct :: "(nat \<Rightarrow> bool) option \<Rightarrow> 'k list \<times> bool \<Rightarrow> nat \<Rightarrow> 'k list \<Rightarrow> 'k list \<times> bool" where
  "probe_distinct present (d, capped) i [] = (d, capped)"
| "probe_distinct present (d, capped) i (v # vs) =
     (if skipped present i \<or> capped then probe_distinct present (d, capped) (Suc i) vs
      else let d' = (if v \<in> set d then d else d @ [v])
           in probe_distinct present (d', bloomProbeCap \<le> length d') (Suc i) vs)"

fun add_present :: "('k \<Rightarrow> bloom \<Rightarrow> bloom res) \<Rightarrow> (nat \<Rightarrow> bool) option \<Rightarrow> bloom \<Rightarrow> nat \<Rightarrow> 'k list \<Rightarrow> bloom res" where
  "add_present add present bl i [] = Inr bl"
| "add_present add present bl i (v # vs) =
     (if skipped present i then add_present add present bl (Suc i) vs
      else bindE (add v bl) (\<lambda>bl'. add_present add present bl' (Suc i) vs))"

definition build_filter ::
  "sizing \<Rightarrow> ('k \<Rightarrow> bloom \<Rightarrow> bloom res) \<Rightarrow> 'k list \<Rightarrow> (nat \<Rightarrow> bool) option \<Rightarrow> bloom res" where
  "build_filter S add vals present =
     (case probe_distinct present ([], False) 0 vals of (d, capped) \<Rightarrow>
        let bl = new_bloom S (if capped then length vals else length d)
        in if capped then add_present add present bl 0 vals
           else foldE (\<lambda>bl v. add v bl) bl d)"

definition build_int_column :: "externals \<Rightarrow> sizing \<Rightarrow> 'bm roaring \<Rightarrow> u64 list \<Rightarrow> (nat \<Rightarrow> bool) option \<Rightarrow> bool
    \<Rightarrow> 'bm column_index res" where
  "build_int_column X S R vals present withInverted =
     bindE (build_filter S (bloom_add_u64 X) vals present) (\<lambda>bl.
       Inr \<lparr>ci_Bloom = Some bl,
            ci_Inverted = (if withInverted then build_inverted_ints R vals present else None)\<rparr>)"

definition build_bytes_column :: "externals \<Rightarrow> sizing \<Rightarrow> 'bm roaring \<Rightarrow> bytes list \<Rightarrow> (nat \<Rightarrow> bool) option \<Rightarrow> bool
    \<Rightarrow> 'bm column_index res" where
  "build_bytes_column X S R vals present withInverted =
     bindE (build_filter S (bloom_add X) vals present) (\<lambda>bl.
       Inr \<lparr>ci_Bloom = Some bl,
            ci_Inverted = (if withInverted then build_inverted_bytes R vals present else None)\<rparr>)"

definition flagBloom :: u8 where "flagBloom = 1"
definition flagInverted :: u8 where "flagInverted = 2"

definition append_index :: "'bm roaring \<Rightarrow> 'bm column_index \<Rightarrow> bytes" where
  "append_index R ci =
     [(if ci_Bloom ci \<noteq> None then flagBloom else 0) OR (if ci_Inverted ci \<noteq> None then flagInverted else 0)]
     @ (case ci_Bloom ci of None \<Rightarrow> [] | Some bl \<Rightarrow> append_bloom bl)
     @ (case ci_Inverted ci of None \<Rightarrow> [] | Some iv \<Rightarrow> append_inverted R iv)"

definition read_column_index :: "'bm roaring \<Rightarrow> bytes \<Rightarrow> 'bm column_index res" where
  "read_column_index R raw =
     (if length raw = 0 then Inr \<lparr>ci_Bloom = None, ci_Inverted = None\<rparr>
      else case cursor_u8 (new_cursor raw) of (flags, c) \<Rightarrow>
        bindE (cursor_check c) (\<lambda>_.
        bindE (if flags AND flagBloom \<noteq> 0
               then bindE (read_bloom c) (\<lambda>(bl, c1). Inr (Some bl, c1)) else Inr (None, c)) (\<lambda>(bl, c1).
        bindE (if flags AND flagInverted \<noteq> 0
               then bindE (read_inverted R c1) (\<lambda>(iv, c2). Inr (Some iv, c2)) else Inr (None, c1)) (\<lambda>(iv, c2).
        Inr \<lparr>ci_Bloom = bl, ci_Inverted = iv\<rparr>))))"

section \<open>The filter holds every present value\<close>

definition present_vals :: "(nat \<Rightarrow> bool) option \<Rightarrow> nat \<Rightarrow> 'k list \<Rightarrow> 'k set" where
  "present_vals present i vs = {v. holders present i vs v \<noteq> {}}"

lemma present_vals_simps [simp]:
  "present_vals present i [] = {}"
  "present_vals present i (v # vs) = (if skipped present i then {} else {v}) \<union> present_vals present (Suc i) vs"
  by (auto simp: present_vals_def holders_Cons)

lemma probe_distinct_capped [simp]: "probe_distinct present (d, True) i vs = (d, True)"
  by (induction vs arbitrary: i) simp_all

lemma probe_distinct_set:
  "probe_distinct present (d, False) i vs = (d', False) \<Longrightarrow> set d' = set d \<union> present_vals present i vs"
proof (induction vs arbitrary: d i)
  case (Cons v vs)
  show ?case
  proof (cases "skipped present i")
    case True
    then show ?thesis using Cons by simp
  next
    case False
    define d1 where "d1 = (if v \<in> set d then d else d @ [v])"
    have p: "probe_distinct present (d1, bloomProbeCap \<le> length d1) (Suc i) vs = (d', False)"
      using Cons.prems False by (simp add: d1_def Let_def)
    then have "\<not> bloomProbeCap \<le> length d1"
      using probe_distinct_capped [of present d1 "Suc i" vs] by (metis prod.inject)
    then have "set d' = set d1 \<union> present_vals present (Suc i) vs"
      using Cons.IH [of d1 "Suc i"] p by simp
    then show ?thesis using False by (auto simp: d1_def)
  qed
qed simp

lemma probe_distinct_length:
  "length (fst (probe_distinct present (d, capped) i vs)) \<le> length d + length vs"
proof (induction vs arbitrary: d capped i)
  case (Cons v vs)
  show ?case
    using Cons.IH [of d capped "Suc i"] Cons.IH [of d "bloomProbeCap \<le> length d" "Suc i"]
      Cons.IH [of "d @ [v]" "bloomProbeCap \<le> Suc (length d)" "Suc i"]
    by (simp add: Let_def)
qed simp

text \<open>
  \<open>bloom_adder\<close> is the contract between the filter and its two callers: adding keeps the
  filter well formed, its size and what it already reports, and the value added is reported.
\<close>

locale bloom_adder =
  fixes add :: "'k \<Rightarrow> bloom \<Rightarrow> bloom res"
    and may :: "bloom \<Rightarrow> 'k \<Rightarrow> bool res"
  assumes add_ok: "bloom_ok b \<Longrightarrow> \<exists>b'. add v b = Inr b' \<and> grows b b' \<and> may b' v = Inr True"
    and may_grows: "grows b b' \<Longrightarrow> bloom_ok b \<Longrightarrow> may b v = Inr True \<Longrightarrow> may b' v = Inr True"
begin

lemma adds_ok:
  "bloom_ok b \<Longrightarrow> \<exists>b'. foldE (\<lambda>bl v. add v bl) b vs = Inr b' \<and> grows b b' \<and> (\<forall>v \<in> set vs. may b' v = Inr True)"
proof (induction vs arbitrary: b)
  case Nil
  then show ?case by (simp add: grows_refl)
next
  case (Cons v vs)
  obtain b1 where b1: "add v b = Inr b1" "grows b b1" "may b1 v = Inr True"
    using add_ok [OF Cons.prems] by blast
  have ok1: "bloom_ok b1" using b1(2) by (simp add: grows_def)
  obtain b2 where b2: "foldE (\<lambda>bl v. add v bl) b1 vs = Inr b2" "grows b1 b2" "\<forall>v \<in> set vs. may b2 v = Inr True"
    using Cons.IH [OF ok1] by blast
  then show ?case
    using b1 ok1 grows_trans [OF b1(2) b2(2)] may_grows by auto
qed

lemma add_present_foldE:
  "\<exists>ws. set ws = present_vals present i vs \<and> add_present add present b i vs = foldE (\<lambda>bl v. add v bl) b ws"
proof (induction vs arbitrary: b i)
  case (Cons v vs)
  show ?case
  proof (cases "skipped present i")
    case True
    then show ?thesis using Cons.IH [of "Suc i" b] by simp
  next
    case False
    show ?thesis
    proof (cases "add v b")
      case (Inl e)
      obtain ws where "set ws = present_vals present (Suc i) vs" using Cons.IH [of "Suc i" b] by blast
      with False Inl show ?thesis by (intro exI [of _ "v # ws"]) simp
    next
      case (Inr b')
      obtain ws where "set ws = present_vals present (Suc i) vs"
        "add_present add present b' (Suc i) vs = foldE (\<lambda>bl v. add v bl) b' ws"
        using Cons.IH [of "Suc i" b'] by blast
      with False Inr show ?thesis by (intro exI [of _ "v # ws"]) simp
    qed
  qed
qed simp

lemma build_filter_ok:
  "\<exists>b n. build_filter S add vals present = Inr b \<and> bloom_ok b \<and> n \<le> length vals
     \<and> length (bl_bits b) = length (bl_bits (new_bloom S n))
     \<and> (\<forall>v \<in> present_vals present 0 vals. may b v = Inr True)"
proof -
  obtain d capped where d: "probe_distinct present ([], False) 0 vals = (d, capped)"
    by (cases "probe_distinct present ([], False) 0 vals")
  have len: "length d \<le> length vals"
    using probe_distinct_length [of present "[]" False 0 vals] d by simp
  let ?n = "if capped then length vals else length d"
  obtain ws where ws: "set ws = present_vals present 0 vals"
    "build_filter S add vals present = foldE (\<lambda>bl v. add v bl) (new_bloom S ?n) ws"
  proof (cases capped)
    case True
    then show ?thesis
      using add_present_foldE [of present 0 vals "new_bloom S (length vals)"] that d
      by (auto simp: build_filter_def)
  next
    case False
    then show ?thesis
      using that [of d] d probe_distinct_set [of present "[]" 0 vals d] by (simp add: build_filter_def)
  qed
  obtain b where "foldE (\<lambda>bl v. add v bl) (new_bloom S ?n) ws = Inr b" "grows (new_bloom S ?n) b"
    "\<forall>v \<in> set ws. may b v = Inr True"
    using adds_ok [OF new_bloom_ok] by blast
  then show ?thesis
    using ws len by (intro exI [of _ b] exI [of _ ?n]) (simp add: grows_def)
qed

end

interpretation int_adder: bloom_adder "bloom_add_u64 X" "may_contain_u64 X"
proof
  show "\<exists>b'. bloom_add_u64 X v b = Inr b' \<and> grows b b' \<and> may_contain_u64 X b' v = Inr True" if "bloom_ok b" for b v
    using add_hash_ok [OF that] by (simp add: bloom_add_u64_def may_contain_u64_def)
  show "may_contain_u64 X b' v = Inr True" if "grows b b'" "bloom_ok b" "may_contain_u64 X b v = Inr True" for b b' v
    using grows_may_contain [OF that(1,2)] that(3) by (simp add: may_contain_u64_def)
qed

interpretation bytes_adder: bloom_adder "bloom_add X" "may_contain X"
proof
  show "\<exists>b'. bloom_add X v b = Inr b' \<and> grows b b' \<and> may_contain X b' v = Inr True" if "bloom_ok b" for b v
    using add_hash_ok [OF that] by (simp add: bloom_add_def may_contain_def)
  show "may_contain X b' v = Inr True" if "grows b b'" "bloom_ok b" "may_contain X b v = Inr True" for b b' v
    using grows_may_contain [OF that(1,2)] that(3) by (simp add: may_contain_def)
qed

section \<open>The blob\<close>

text \<open>
  The documented size of the filter at the fixed false-positive rate, about 9.6 bits a
  value, keeps the filter of a segment below 2^28 bits.
\<close>

definition sizing_ok :: "sizing \<Rightarrow> bool" where
  "sizing_ok S \<longleftrightarrow> (\<forall>n \<le> 2 ^ 24. unat (sz_bits S n) \<le> 2 ^ 28)"

lemma new_bloom_length:
  assumes "sizing_ok S" and "n \<le> 2 ^ 24"
  shows "length (bl_bits (new_bloom S n)) \<le> 2 ^ 28"
proof -
  define k where "k = (if n < 1 then 1 else n)"
  have "k \<le> 2 ^ 24" using assms(2) by (simp add: k_def)
  then have le: "unat (sz_bits S k) \<le> 2 ^ 28" using assms(1) by (simp add: sizing_ok_def)
  then have "unat (sz_bits S k + 63) = unat (sz_bits S k) + 63"
    by (simp add: unat_word_ariths)
  then have "unat ((sz_bits S k + 63) div 64) \<le> 2 ^ 28"
    using le by (simp add: unat_div)
  then show ?thesis
    by (auto simp: new_bloom_def Let_def k_def)
qed

lemma index_flags:
  "(flagBloom OR 0) AND flagBloom \<noteq> 0" "(flagBloom OR 0) AND flagInverted = 0"
  "(flagBloom OR flagInverted) AND flagBloom \<noteq> 0" "(flagBloom OR flagInverted) AND flagInverted \<noteq> 0"
  by (simp_all add: flagBloom_def flagInverted_def)

definition index_wf :: "'bm roaring \<Rightarrow> 'bm column_index \<Rightarrow> bool" where
  "index_wf R ci \<longleftrightarrow>
     (\<exists>bl. ci_Bloom ci = Some bl \<and> bloom_ok bl \<and> length (bl_bits bl) \<le> 2 ^ 28)
     \<and> (\<forall>iv. ci_Inverted ci = Some iv \<longrightarrow> inverted_wf R iv)"

lemma read_column_index_at:
  assumes "roaring_ok R" and wf: "index_wf R ci" and sh: "short (append_index R ci)"
  shows "\<exists>ci'. read_column_index R (append_index R ci) = Inr ci' \<and> ci_Bloom ci' = ci_Bloom ci
     \<and> rel_option (same_inverted R) (ci_Inverted ci) (ci_Inverted ci')"
proof -
  obtain bl where bl: "ci_Bloom ci = Some bl" "bloom_ok bl" "length (bl_bits bl) \<le> 2 ^ 28"
    using wf by (auto simp: index_wf_def)
  show ?thesis
  proof (cases "ci_Inverted ci")
    case None
    have "read_bloom (at_cursor [flagBloom OR 0] (append_bloom bl @ []))
        = Inr (bl, at_cursor ([flagBloom OR 0] @ append_bloom bl) [])"
      using bl sh None by (intro read_bloom_at) (simp_all add: append_index_def)
    then show ?thesis
      using None bl sh index_flags
      by (simp add: read_column_index_def append_index_def new_cursor_at u8_at_cursor)
  next
    case (Some iv)
    let ?pre = "[flagBloom OR flagInverted]"
    have b: "read_bloom (at_cursor ?pre (append_bloom bl @ append_inverted R iv))
        = Inr (bl, at_cursor (?pre @ append_bloom bl) (append_inverted R iv))"
      using bl sh Some by (intro read_bloom_at) (simp_all add: append_index_def)
    obtain iv' where "read_inverted R (at_cursor (?pre @ append_bloom bl) (append_inverted R iv @ []))
        = Inr (iv', at_cursor ((?pre @ append_bloom bl) @ append_inverted R iv) [])" "same_inverted R iv iv'"
      using read_inverted_at [OF assms(1), of iv "?pre @ append_bloom bl" "[]"] wf sh Some bl
      by (auto simp: index_wf_def append_index_def)
    then show ?thesis
      using b Some bl sh index_flags
      by (simp add: read_column_index_def append_index_def new_cursor_at u8_at_cursor)
  qed
qed

lemma read_column_index_graceful:
  assumes "short raw"
  shows "graceful (read_column_index R raw)"
proof (cases "length raw = 0")
  case False
  have "cursor_ok (new_cursor raw)" using assms by (simp add: new_cursor_def cursor_ok_def)
  then have c: "cursor_ok (snd (cursor_u8 (new_cursor raw)))"
    using ext_u8 cursor_fwd_ok by blast
  obtain flags c0 where u: "cursor_u8 (new_cursor raw) = (flags, c0)" by (cases "cursor_u8 (new_cursor raw)")
  define B where "B = (if flags AND flagBloom \<noteq> 0
      then bindE (read_bloom c0) (\<lambda>(bl, c1). Inr (Some bl, c1)) else Inr (None, c0))"
  define I where "I c1 = (if flags AND flagInverted \<noteq> 0
      then bindE (read_inverted R c1) (\<lambda>(iv, c2). Inr (Some iv, c2)) else Inr (None, c1))" for c1
  have b: "safe_read c0 B"
    unfolding B_def using c u by (intro safe_read) simp_all
  have i: "safe_read c1 (I c1)" if "cursor_ok c1" for c1
    unfolding I_def using that by (intro safe_read)
  have "graceful (bindE B (\<lambda>(bl, c1). bindE (I c1) (\<lambda>(iv, c2). Inr \<lparr>ci_Bloom = bl, ci_Inverted = iv\<rparr>)))"
  proof (rule graceful_bindE)
    show "graceful B" using b by (simp add: safe_read_def)
    fix p
    assume "B = Inr p"
    then have "cursor_ok (snd p)" using b c u by (cases p) (auto simp: safe_read_def intro: cursor_fwd_ok)
    then have "graceful (I (snd p))" using i by (simp add: safe_read_def)
    then show "graceful (case p of (bl, c1) \<Rightarrow> bindE (I c1) (\<lambda>(iv, c2). Inr \<lparr>ci_Bloom = bl, ci_Inverted = iv\<rparr>))"
      by (cases p) (auto intro: graceful_bindE)
  qed
  then show ?thesis
    using False u by (auto simp: read_column_index_def B_def I_def intro: graceful_bindE)
qed (simp add: read_column_index_def)

section \<open>Properties\<close>

text \<open>The rows a looked-up bitmap holds; a value without a bitmap has none.\<close>

definition lookup_rows :: "'bm roaring \<Rightarrow> 'bm option \<Rightarrow> nat set" where
  "lookup_rows R bo = (case bo of None \<Rightarrow> {} | Some b \<Rightarrow> rb_set R b)"

lemma lookup_rows_posting:
  "iv_kind iv = 0 \<Longrightarrow> lookup_rows R (lookup_int (Some iv) v) = posting R (iv_ints iv) v"
  "iv_kind iv = 1 \<Longrightarrow> lookup_rows R (lookup_bytes (Some iv) w) = posting R (iv_bytesM iv) w"
  by (simp_all add: lookup_rows_def lookup_int_def lookup_bytes_def posting_def)

text \<open>
  What the executor relies on: the index answers for a column in which the value \<open>v\<close> stands
  in the rows \<open>H v\<close>.
\<close>

definition int_index_exact ::
  "externals \<Rightarrow> 'bm roaring \<Rightarrow> 'bm column_index \<Rightarrow> (u64 \<Rightarrow> nat set) \<Rightarrow> bool" where
  "int_index_exact X R ci H \<longleftrightarrow>
     (\<forall>v. case ci_Bloom ci of None \<Rightarrow> True | Some bl \<Rightarrow>
            \<exists>r. may_contain_u64 X bl v = Inr r \<and> (r \<or> H v = {}))
     \<and> (\<forall>iv. ci_Inverted ci = Some iv \<longrightarrow> iv_kind iv = 0 \<and> postings_wf R (iv_ints iv) \<and>
          (\<forall>v. lookup_rows R (lookup_int (Some iv) v) = H v))"

definition bytes_index_exact ::
  "externals \<Rightarrow> 'bm roaring \<Rightarrow> 'bm column_index \<Rightarrow> (bytes \<Rightarrow> nat set) \<Rightarrow> bool" where
  "bytes_index_exact X R ci H \<longleftrightarrow>
     (\<forall>v. case ci_Bloom ci of None \<Rightarrow> True | Some bl \<Rightarrow>
            \<exists>r. may_contain X bl v = Inr r \<and> (r \<or> H v = {}))
     \<and> (\<forall>iv. ci_Inverted ci = Some iv \<longrightarrow> iv_kind iv = 1 \<and> postings_wf R (iv_bytesM iv) \<and>
          (\<forall>v. lookup_rows R (lookup_bytes (Some iv) v) = H v))"

lemma same_inverted_rows:
  assumes "same_inverted R iv iv'"
  shows "iv_kind iv = 0 \<Longrightarrow> lookup_rows R (lookup_int (Some iv') v) = posting R (iv_ints iv) v"
    and "iv_kind iv = 1 \<Longrightarrow> lookup_rows R (lookup_bytes (Some iv') w) = posting R (iv_bytesM iv) w"
  using assms same_postings_posting [of R "iv_ints iv" "iv_ints iv'" v]
    same_postings_posting [of R "iv_bytesM iv" "iv_bytesM iv'" w]
  by (simp_all add: same_inverted_def lookup_rows_posting)

text \<open>A well-formed index is never too long for the cursor.\<close>

lemma append_bitmap_length:
  assumes "roaring_ok R" and "length (rb_rows R b) \<le> 2 ^ 24"
  shows "length (append_bitmap R b) \<le> 2 ^ 28"
proof -
  have "length (rb_marshal R (rb_optimize R b)) \<le> 2 ^ 20 + 4 * length (rb_rows R (rb_optimize R b))"
    by (rule rb_marshal_length [OF assms(1)])
  then show ?thesis
    using assms(2) length_put_uvarint_le10 [of "of_nat (length (rb_marshal R (rb_optimize R b)))"]
    by (simp add: append_bitmap_def Let_def rb_optimize_rows [OF assms(1)])
qed

lemma length_concat_bound: "\<forall>k \<in> set ks. length (f k) \<le> n \<Longrightarrow> length (concat (map f ks)) \<le> n * length ks"
  by (induction ks) auto

lemma append_entries_length:
  assumes "roaring_ok R" and "postings_wf R m" and "rows_small R m" and "\<And>k. k \<in> fst ` set m \<Longrightarrow> length (put k) \<le> 2 ^ 28"
  shows "length (append_entries R put m) \<le> 2 ^ 60"
proof -
  have one: "length (put k @ append_bitmap R (the (map_of m k))) \<le> 2 ^ 29" if k: "k \<in> fst ` set m" for k
  proof -
    obtain b where b: "map_of m k = Some b" "(k, b) \<in> set m"
      using k assms(2) by (auto simp: postings_wf_def)
    then have "length (rb_rows R b) \<le> 2 ^ 24" using assms(3) by (force simp: rows_small_def)
    from append_bitmap_length [OF assms(1) this] assms(4) [OF k] b(1) show ?thesis by simp
  qed
  from length_concat_bound [of "sort (map fst m)" "\<lambda>k. put k @ append_bitmap R (the (map_of m k))" "2 ^ 29"] one
  have "length (concat (map (\<lambda>k. put k @ append_bitmap R (the (map_of m k))) (sort (map fst m)))) \<le> 2 ^ 29 * length m"
    by simp
  then show ?thesis
    using assms(2) length_put_uvarint_le10 [of "of_nat (length m)"]
    by (simp add: append_entries_def Let_def postings_wf_def)
qed

lemma index_wf_short:
  assumes "roaring_ok R" and "index_wf R ci"
  shows "short (append_index R ci)"
proof -
  obtain bl where bl: "ci_Bloom ci = Some bl" "length (bl_bits bl) \<le> 2 ^ 28" using assms(2) by (auto simp: index_wf_def)
  have "length (append_bloom bl) \<le> 2 ^ 32"
    using bl(2) length_put_uvarint_le10 [of "of_nat (length (bl_bits bl))"] length_concat_bound [of "bl_bits bl" le64 8]
    by (simp add: append_bloom_def)
  moreover have "length (append_inverted R iv) \<le> 2 ^ 60 + 1" if "ci_Inverted ci = Some iv" for iv
  proof -
    have wf: "inverted_wf R iv" using that assms(2) by (simp add: index_wf_def)
    have "length (append_entries R put_uvarint (iv_ints iv)) \<le> 2 ^ 60" if "iv_kind iv = 0"
    proof (rule append_entries_length [OF assms(1)])
      show "length (put_uvarint k) \<le> 2 ^ 28" for k :: u64 using length_put_uvarint_le10 [of k] by simp
    qed (use wf that in \<open>auto simp: inverted_wf_def\<close>)
    moreover have "length (append_entries R put_string (iv_bytesM iv)) \<le> 2 ^ 60" if "iv_kind iv \<noteq> 0"
    proof (rule append_entries_length [OF assms(1)])
      show "length (put_string k) \<le> 2 ^ 28" if "k \<in> fst ` set (iv_bytesM iv)" for k
        using wf that \<open>iv_kind iv \<noteq> 0\<close> length_put_uvarint_le10 [of "of_nat (length k)"]
        by (auto simp: inverted_wf_def put_string_def)
    qed (use wf that in \<open>auto simp: inverted_wf_def\<close>)
    ultimately show ?thesis by (simp add: append_inverted_def)
  qed
  ultimately show ?thesis
    using bl(1) by (cases "ci_Inverted ci") (force simp: append_index_def short_def)+
qed

lemma int_column_blob:
  assumes "roaring_ok R" and "sizing_ok S" and len: "length vals \<le> 2 ^ 24"
  shows "\<exists>ci ci'. build_int_column X S R vals (Some p) wi = Inr ci
     \<and> read_column_index R (append_index R ci) = Inr ci' \<and> int_index_exact X R ci' (holders (Some p) 0 vals)"
proof -
  obtain b n where b: "build_filter S (bloom_add_u64 X) vals (Some p) = Inr b" "bloom_ok b" "n \<le> length vals"
    "length (bl_bits b) = length (bl_bits (new_bloom S n))"
    "\<forall>v \<in> present_vals (Some p) 0 vals. may_contain_u64 X b v = Inr True"
    using int_adder.build_filter_ok [of S X vals "Some p"] by blast
  define ivo where "ivo = (if wi then build_inverted_ints R vals (Some p) else None)"
  let ?ci = "\<lparr>ci_Bloom = Some b, ci_Inverted = ivo\<rparr>"
  have iv: "inverted_wf R iv \<and> iv_kind iv = 0 \<and> (\<forall>v. posting R (iv_ints iv) v = holders (Some p) 0 vals v)"
    if "ivo = Some iv" for iv
    using that build_inverted_ints_wf [OF assms(1) _ len] by (auto simp: ivo_def split: if_splits)
  have wf: "index_wf R ?ci"
    using b new_bloom_length [OF assms(2), of n] len iv by (simp add: index_wf_def)
  have filter: "\<exists>r. may_contain_u64 X b v = Inr r \<and> (r \<or> holders (Some p) 0 vals v = {})" for v
    using b(2,5) may_contain_hash_iff [OF b(2)] by (force simp: present_vals_def may_contain_u64_def)
  have "\<exists>ci'. read_column_index R (append_index R ?ci) = Inr ci' \<and> int_index_exact X R ci' (holders (Some p) 0 vals)"
  proof -
    obtain ci' where ci': "read_column_index R (append_index R ?ci) = Inr ci'" "ci_Bloom ci' = Some b"
      "rel_option (same_inverted R) ivo (ci_Inverted ci')"
      using read_column_index_at [OF assms(1) wf index_wf_short [OF assms(1) wf]] by auto
    have "iv_kind iv' = 0 \<and> postings_wf R (iv_ints iv') \<and>
          (\<forall>v. lookup_rows R (lookup_int (Some iv') v) = holders (Some p) 0 vals v)"
      if found: "ci_Inverted ci' = Some iv'" for iv'
    proof -
      obtain iv where i: "ivo = Some iv" "same_inverted R iv iv'"
        using ci'(3) found by (cases ivo) auto
      then show ?thesis
        using iv [OF i(1)] same_inverted_rows(1) [OF i(2)] by (simp add: same_inverted_def)
    qed
    then have "int_index_exact X R ci' (holders (Some p) 0 vals)"
      using filter ci'(2) unfolding int_index_exact_def by simp
    with ci'(1) show ?thesis by blast
  qed
  moreover have "build_int_column X S R vals (Some p) wi = Inr ?ci"
    using b(1) by (simp add: build_int_column_def ivo_def)
  ultimately show ?thesis by blast
qed

lemma bytes_column_blob:
  assumes "roaring_ok R" and "sizing_ok S" and len: "length vals \<le> 2 ^ 24"
    and fit: "\<forall>v \<in> set vals. length v \<le> 2 ^ 24"
  shows "\<exists>ci ci'. build_bytes_column X S R vals (Some p) wi = Inr ci
     \<and> read_column_index R (append_index R ci) = Inr ci' \<and> bytes_index_exact X R ci' (holders (Some p) 0 vals)"
proof -
  obtain b n where b: "build_filter S (bloom_add X) vals (Some p) = Inr b" "bloom_ok b" "n \<le> length vals"
    "length (bl_bits b) = length (bl_bits (new_bloom S n))"
    "\<forall>v \<in> present_vals (Some p) 0 vals. may_contain X b v = Inr True"
    using bytes_adder.build_filter_ok [of S X vals "Some p"] by blast
  define ivo where "ivo = (if wi then build_inverted_bytes R vals (Some p) else None)"
  let ?ci = "\<lparr>ci_Bloom = Some b, ci_Inverted = ivo\<rparr>"
  have iv: "inverted_wf R iv \<and> iv_kind iv = 1 \<and> (\<forall>v. posting R (iv_bytesM iv) v = holders (Some p) 0 vals v)"
    if "ivo = Some iv" for iv
    using that build_inverted_bytes_wf [OF assms(1) _ len fit] by (auto simp: ivo_def split: if_splits)
  have wf: "index_wf R ?ci"
    using b new_bloom_length [OF assms(2), of n] len iv by (simp add: index_wf_def)
  have filter: "\<exists>r. may_contain X b v = Inr r \<and> (r \<or> holders (Some p) 0 vals v = {})" for v
    using b(2,5) may_contain_hash_iff [OF b(2)] by (force simp: present_vals_def may_contain_def)
  have "\<exists>ci'. read_column_index R (append_index R ?ci) = Inr ci' \<and> bytes_index_exact X R ci' (holders (Some p) 0 vals)"
  proof -
    obtain ci' where ci': "read_column_index R (append_index R ?ci) = Inr ci'" "ci_Bloom ci' = Some b"
      "rel_option (same_inverted R) ivo (ci_Inverted ci')"
      using read_column_index_at [OF assms(1) wf index_wf_short [OF assms(1) wf]] by auto
    have "iv_kind iv' = 1 \<and> postings_wf R (iv_bytesM iv') \<and>
          (\<forall>v. lookup_rows R (lookup_bytes (Some iv') v) = holders (Some p) 0 vals v)"
      if found: "ci_Inverted ci' = Some iv'" for iv'
    proof -
      obtain iv where i: "ivo = Some iv" "same_inverted R iv iv'"
        using ci'(3) found by (cases ivo) auto
      then show ?thesis
        using iv [OF i(1)] same_inverted_rows(2) [OF i(2)] by (simp add: same_inverted_def)
    qed
    then have "bytes_index_exact X R ci' (holders (Some p) 0 vals)"
      using filter ci'(2) unfolding bytes_index_exact_def by simp
    with ci'(1) show ?thesis by blast
  qed
  moreover have "build_bytes_column X S R vals (Some p) wi = Inr ?ci"
    using b(1) by (simp add: build_bytes_column_def ivo_def)
  ultimately show ?thesis by blast
qed



end
