(* ===== verification/Codec.thy ===== *)
theory Codec
  imports Varint Limits
begin

text \<open>
  What the semantic codecs of \<open>internal/encoding\<close> share: their on-disk identifiers, the
  selector's comparison, and the contract between a codec and the selector and decoder
  that use it. The contract is the locale \<open>codec\<close>: decoding what was encoded, with
  anything after it, returns the values, and a successful decode returns exactly the
  number of rows asked for. \<open>safe_codec\<close> adds that the decoder never crashes, whatever
  the bytes. \<open>dispatched\<close> is the client's side: a dispatcher that maps the identifier
  to the decoder, for which the selector's choice always decodes.
\<close>

type_synonym enc_id = u8

abbreviation Plain :: enc_id where "Plain \<equiv> 0"
abbreviation Varint :: enc_id where "Varint \<equiv> 1"
abbreviation Delta :: enc_id where "Delta \<equiv> 2"
abbreviation DeltaOfDelta :: enc_id where "DeltaOfDelta \<equiv> 3"
abbreviation RLEInt :: enc_id where "RLEInt \<equiv> 4"
abbreviation Bitpack :: enc_id where "Bitpack \<equiv> 5"
abbreviation DictInt :: enc_id where "DictInt \<equiv> 6"
abbreviation Raw :: enc_id where "Raw \<equiv> 64"
abbreviation DictBytes :: enc_id where "DictBytes \<equiv> 65"
abbreviation RLEBytes :: enc_id where "RLEBytes \<equiv> 66"

text \<open>The closure \<open>consider\<close> of the selectors: keep the strictly shorter candidate.\<close>

definition choose_codec :: "enc_id \<times> bytes \<Rightarrow> enc_id \<Rightarrow> bytes \<Rightarrow> enc_id \<times> bytes" where
  "choose_codec best cid b = (if length b < length (snd best) then (cid, b) else best)"

lemma choose_length: "length (snd (choose_codec best cid b)) \<le> length (snd best)"
  by (simp add: choose_codec_def)

lemma choose_length_candidate: "length (snd (choose_codec best cid b)) \<le> length b"
  by (simp add: choose_codec_def)

text \<open>
  A run of equal values appended to a slice. A Go slice lives in a 48-bit address
  space, so one of more than \<open>2^48\<close> elements cannot be allocated.
\<close>

definition max_slice :: nat where "max_slice = 2 ^ 48"

definition append_run :: "'v list \<Rightarrow> u64 \<Rightarrow> 'v \<Rightarrow> 'v list res" where
  "append_run out run v =
     (if max_slice < length out + unat run then Inl OutOfMemory
      else Inr (out @ replicate (unat run) v))"

lemma append_run_Inr:
  "append_run out run v = Inr out' \<longleftrightarrow>
     length out + unat run \<le> max_slice \<and> out' = out @ replicate (unat run) v"
  by (auto simp: append_run_def not_less)

text \<open>The run-length guard \<open>run == 0 || len(out)+int(run) > n\<close>, in 64-bit arithmetic.\<close>

definition run_rejected :: "nat \<Rightarrow> u64 \<Rightarrow> nat \<Rightarrow> bool" where
  "run_rejected len run n \<longleftrightarrow> run = 0 \<or> int n < sint (of_nat len + run :: u64)"

lemma run_accepted:
  assumes "0 < r" and "len + r \<le> n" and "n < 2 ^ 62"
  shows "\<not> run_rejected len (of_nat r) n"
proof -
  have "sint (of_nat (len + r) :: u64) = int (len + r)"
    using assms by (intro sint_of_nat) simp
  moreover have "unat (of_nat r :: u64) = r"
    using assms by (intro unat_of_nat_u64) simp
  then have "(of_nat r :: u64) \<noteq> 0"
    using assms(1) by (auto simp flip: unat_eq_0)
  ultimately show ?thesis
    using assms by (simp add: run_rejected_def flip: of_nat_add)
qed

text \<open>A signed 64-bit value below \<open>2^63\<close> that the guard accepts fits in the rows left.\<close>

lemma run_not_rejected_bound:
  assumes "\<not> run_rejected len run n" and "unat run < 2 ^ 62" and "len < 2 ^ 62"
  shows "run \<noteq> 0" and "len + unat run \<le> n"
proof -
  show "run \<noteq> 0" using assms(1) by (simp add: run_rejected_def)
  have "of_nat len + run = (of_nat (len + unat run) :: u64)"
    by simp
  then have "sint (of_nat len + run :: u64) = int (len + unat run)"
    using assms sint_of_nat [of "len + unat run"] by simp
  moreover have "\<not> int n < sint (of_nat len + run)"
    using assms(1) by (simp add: run_rejected_def)
  ultimately have "\<not> int n < int (len + unat run)" by simp
  then show "len + unat run \<le> n" by (simp only: of_nat_less_iff not_less)
qed

section \<open>The contract of a codec\<close>

locale codec =
  fixes cid :: enc_id
    and enc :: "'v list \<Rightarrow> bytes"
    and dec :: "bytes \<Rightarrow> nat \<Rightarrow> 'v list res"
    and encodable :: "'v list \<Rightarrow> bool"
  assumes roundtrip: "encodable vals \<Longrightarrow> dec (enc vals @ rest) (length vals) = Inr vals"
    and dec_length: "dec data n = Inr vals \<Longrightarrow> length vals = n"
begin

lemma roundtrip_exact: "encodable vals \<Longrightarrow> dec (enc vals) (length vals) = Inr vals"
  using roundtrip [of vals "[]"] by simp

lemma enc_injective:
  assumes "encodable xs" and "encodable ys" and "length xs = length ys" and "enc xs = enc ys"
  shows "xs = ys"
proof -
  have "Inr xs = dec (enc xs) (length xs)" using roundtrip_exact [OF assms(1)] by (rule sym)
  also have "\<dots> = dec (enc ys) (length ys)" by (simp only: assms(3,4))
  also have "\<dots> = Inr ys" by (rule roundtrip_exact [OF assms(2)])
  finally show ?thesis by simp
qed

end

locale safe_codec = codec +
  assumes dec_graceful: "graceful (dec data n)"

locale dispatched = codec +
  fixes dispatch :: "enc_id \<Rightarrow> bytes \<Rightarrow> nat \<Rightarrow> 'v list res" and limit :: nat
  assumes dispatch: "n \<le> limit \<Longrightarrow> dispatch cid data n = dec data n"
begin

lemma candidate_decodes:
  "encodable vals \<Longrightarrow> length vals \<le> limit
     \<Longrightarrow> dispatch cid (enc vals @ rest) (length vals) = Inr vals"
  by (simp add: dispatch roundtrip)

lemma choose_decodes:
  assumes "dispatch (fst best) (snd best @ rest) (length vals) = Inr vals"
    and "encodable vals" and "length vals \<le> limit"
  shows "dispatch (fst (choose_codec best cid (enc vals)))
           (snd (choose_codec best cid (enc vals)) @ rest) (length vals) = Inr vals"
  using assms candidate_decodes by (simp add: choose_codec_def)

end

end
