(* ===== verification/Bitpack.thy ===== *)
theory Bitpack
  imports Varint
begin

text \<open>
  \<open>internal/encoding/bitpack.go\<close>: fixed-width bit packing through a 64-bit accumulator,
  and the random-access extraction of the packed values. The loop state of
  \<open>appendPacked\<close> is the triple (bytes emitted, accumulator, bits in the accumulator).
  Lengths and bit offsets are naturals: the largest of them, \<open>n * width\<close> for a slice that
  exists, is far below \<open>2^64\<close>.
\<close>

unbundle bit_operations_syntax

function min_width :: "u64 \<Rightarrow> nat" where
  "min_width m = (if 0 < m then Suc (min_width (drop_bit 1 m)) else 0)"
  by pat_completeness auto
termination
proof (relation "measure unat")
  fix m :: u64
  assume "0 < m"
  then have "0 < unat m" by (simp add: word_less_nat_alt)
  moreover have "unat (drop_bit 1 m) = unat m div 2"
    by (simp only: unat_drop_bit_eq) (simp add: drop_bit_eq_div)
  ultimately show "(drop_bit 1 m, m) \<in> measure unat" by simp
qed simp

declare min_width.simps [simp del]

definition packed_bytes :: "nat \<Rightarrow> nat \<Rightarrow> nat" where
  "packed_bytes n width = (if width = 0 then 0 else (n * width + 7) div 8)"

definition pack_mask :: "nat \<Rightarrow> u64" where
  "pack_mask width = (if width < 64 then push_bit width 1 - 1 else NOT 0)"

type_synonym packer = "bytes \<times> u64 \<times> nat"

definition pack_step :: "nat \<Rightarrow> packer \<Rightarrow> u64 \<Rightarrow> packer" where
  "pack_step width = (\<lambda>(dst, acc, nbits) v0.
     let v = v0 AND pack_mask width;
         free = 64 - nbits;
         (dst1, acc1, nbits1) =
           (if width \<le> free then (dst, acc OR push_bit nbits v, nbits + width)
            else (dst @ le64 (acc OR push_bit nbits (v AND (push_bit free 1 - 1))),
                  drop_bit free v, width - free))
     in if nbits1 = 64 then (dst1 @ le64 acc1, 0, 0) else (dst1, acc1, nbits1))"

fun pack_flush :: "bytes \<Rightarrow> u64 \<Rightarrow> nat \<Rightarrow> bytes" where
  "pack_flush dst acc nbits =
     (if 0 < nbits
      then pack_flush (dst @ [ucast acc]) (drop_bit 8 acc) (if 8 \<le> nbits then nbits - 8 else 0)
      else dst)"

declare pack_flush.simps [simp del]

definition append_packed :: "bytes \<Rightarrow> u64 list \<Rightarrow> nat \<Rightarrow> bytes" where
  "append_packed dst vals width =
     (if width = 0 then dst
      else case foldl (pack_step width) (dst, 0, 0) vals of
        (dst', acc, nbits) \<Rightarrow> pack_flush dst' acc nbits)"

function read_le64_loop :: "bytes \<Rightarrow> nat \<Rightarrow> nat \<Rightarrow> u64 \<Rightarrow> u64" where
  "read_le64_loop src pos i v =
     (if i < 8 \<and> pos + i < length src
      then read_le64_loop src pos (i + 1) (v OR push_bit (8 * i) (ucast (src ! (pos + i))))
      else v)"
  by pat_completeness auto
termination by (relation "measure (\<lambda>(src, pos, i, v). 8 - i)") auto

declare read_le64_loop.simps [simp del]

definition read_le64 :: "bytes \<Rightarrow> nat \<Rightarrow> u64" where
  "read_le64 src pos = read_le64_loop src pos 0 0"

definition get_bits :: "bytes \<Rightarrow> nat \<Rightarrow> nat \<Rightarrow> u64" where
  "get_bits src off width =
     (if width = 0 then 0
      else let bytePos = off div 8; bitPos = off mod 8;
               v = drop_bit bitPos (read_le64 src bytePos);
               have = 64 - bitPos;
               v' = (if have < width then v OR push_bit have (read_le64 src (bytePos + 8)) else v)
           in if width < 64 then v' AND (push_bit width 1 - 1) else v')"

fun unpack_loop :: "bytes \<Rightarrow> nat \<Rightarrow> nat \<Rightarrow> nat \<Rightarrow> u64 list" where
  "unpack_loop src width off 0 = []"
| "unpack_loop src width off (Suc n) =
     get_bits src off width # unpack_loop src width (off + width) n"

definition unpack_into :: "nat \<Rightarrow> bytes \<Rightarrow> nat \<Rightarrow> u64 list res" where
  "unpack_into n src width =
     (if width = 0 then Inr (replicate n 0)
      else if 64 < width then Inl (Err Corrupt)
      else if length src < packed_bytes n width then Inl (Err Truncated)
      else Inr (unpack_loop src width 0 n))"

section \<open>Width\<close>

lemma min_width_bits: "\<not> bit m j" if "min_width m \<le> j"
  using that
proof (induction m arbitrary: j rule: min_width.induct)
  case (1 m)
  show ?case
  proof (cases "0 < m")
    case False
    then show ?thesis by (simp add: word_neq_0_conv [symmetric])
  next
    case True
    with "1.prems" obtain k where k: "j = Suc k" "min_width (drop_bit 1 m) \<le> k"
      by (cases j) (auto simp: min_width.simps [of m])
    have "\<not> bit (drop_bit 1 m) k" by (rule "1.IH" [OF True k(2)])
    then show ?thesis by (simp only: k(1) bit_drop_bit_eq comp_def) simp
  qed
qed

lemma min_width_least: "0 < m \<Longrightarrow> bit m (min_width m - 1)"
proof (induction m rule: min_width.induct)
  case (1 m)
  show ?case
  proof (cases "0 < drop_bit 1 m")
    case True
    then obtain k where k: "min_width (drop_bit 1 m) = Suc k"
      using min_width.simps [of "drop_bit 1 m"] by auto
    have "bit (drop_bit 1 m) k"
      using "1.IH" [OF "1.prems" True] k by simp
    then have "bit m (Suc k)" by (simp only: bit_drop_bit_eq comp_def) simp
    then show ?thesis
      using "1.prems" k by (simp add: min_width.simps [of m])
  next
    case False
    then have z: "drop_bit 1 m = 0" by (simp add: word_neq_0_conv [symmetric])
    have "bit m 0"
    proof (rule ccontr)
      assume n: "\<not> bit m 0"
      have "\<not> bit m j" for j
        using arg_cong [OF z, of "\<lambda>w. bit w (j - 1)"] n
        by (cases j) (simp_all only: bit_drop_bit_eq comp_def, simp_all)
      then have "m = 0" by (intro word_eq_by_bits) simp
      with "1.prems" show False by simp
    qed
    then show ?thesis using "1.prems" z by (simp add: min_width.simps)
  qed
qed

lemma unat_less_min_width: "unat m < 2 ^ min_width m"
proof (induction m rule: min_width.induct)
  case (1 m)
  have "unat (drop_bit 1 m) = unat m div 2"
    by (simp only: unat_drop_bit_eq) (simp add: drop_bit_eq_div)
  with 1 show ?case
    by (cases "0 < m") (auto simp: min_width.simps [of m] word_less_nat_alt)
qed

lemma bit_le_unat: "bit (v :: u64) j \<Longrightarrow> 2 ^ j \<le> unat v"
proof (rule ccontr)
  assume b: "bit v j" and "\<not> 2 ^ j \<le> unat v"
  then have "unat v div 2 ^ j = 0" by simp
  moreover have "bit (unat v) j" using b by (simp add: bit_unsigned_iff)
  ultimately show False by (simp add: bit_iff_odd)
qed

lemma min_width_le: "min_width m \<le> 64"
proof (cases "0 < m")
  case True
  then have "min_width m - 1 < 64"
    using min_width_least [OF True] bit_imp_le_length [of m "min_width m - 1"] by simp
  then show ?thesis by simp
next
  case False
  then show ?thesis by (simp add: min_width.simps)
qed

section \<open>Bit streams of fixed-width values\<close>

definition vbit :: "nat \<Rightarrow> u64 list \<Rightarrow> nat \<Rightarrow> bool" where
  "vbit w vals j \<longleftrightarrow> j div w < length vals \<and> bit (vals ! (j div w)) (j mod w)"

lemma vbit_beyond: "0 < w \<Longrightarrow> w * length vals \<le> j \<Longrightarrow> \<not> vbit w vals j"
  by (auto simp: vbit_def div_less_iff_less_mult mult.commute)

lemma vbit_snoc:
  assumes "0 < w"
  shows "vbit w (vals @ [v]) j \<longleftrightarrow>
    (if j < w * length vals then vbit w vals j
     else j < w * length vals + w \<and> bit v (j - w * length vals))"
proof (cases "j < w * length vals")
  case True
  then have "j div w < length vals"
    using assms by (simp add: div_less_iff_less_mult mult.commute)
  then show ?thesis using True by (simp add: vbit_def nth_append)
next
  case False
  then obtain k where k: "j = w * length vals + k" by (metis le_Suc_ex not_less)
  have d: "j div w = length vals + k div w"
    using assms by (simp add: k)
  have m: "j mod w = k mod w" by (simp add: k)
  show ?thesis
    using False assms by (cases "k < w") (auto simp: vbit_def d m k nth_append div_eq_0_iff)
qed

lemma vbit_nth:
  assumes "i < length vals" and "j < w"
  shows "vbit w vals (i * w + j) \<longleftrightarrow> bit (vals ! i) j"
  using assms by (simp add: vbit_def)

lemma bit_pack_mask: "bit (pack_mask w) j \<longleftrightarrow> j < 64 \<and> (w < 64 \<longrightarrow> j < w)"
  using bit_mask_iff [of w j, where 'a = u64]
  by (auto simp: pack_mask_def mask_eq_exp_minus_1 bit_not_iff)

lemma bit_low_mask:
  "bit (push_bit n 1 - 1 :: u64) j \<longleftrightarrow> j < n \<and> j < 64"
  "bit (2 ^ n - 1 :: u64) j \<longleftrightarrow> j < n \<and> j < 64"
  using bit_mask_iff [of n j, where 'a = u64] by (auto simp: mask_eq_exp_minus_1)

section \<open>Packing\<close>

text \<open>
  Invariant of the packing loop: the accumulator holds \<open>nbits < 64\<close> bits, and the bytes
  emitted followed by those bits spell the values packed so far.
\<close>

definition pack_inv :: "nat \<Rightarrow> bytes \<Rightarrow> u64 list \<Rightarrow> packer \<Rightarrow> bool" where
  "pack_inv w dst vals = (\<lambda>(emitted, acc, nbits).
     nbits < 64 \<and> (\<forall>j \<ge> nbits. \<not> bit acc j) \<and>
     (\<exists>out. emitted = dst @ out \<and> 8 * length out + nbits = w * length vals \<and>
       (\<forall>j. (if j < 8 * length out then sbit out j else bit acc (j - 8 * length out))
            = vbit w vals j)))"

lemma pack_inv_start: "pack_inv w dst [] (dst, 0, 0)"
  by (auto simp: pack_inv_def vbit_def)

lemma pack_invI:
  assumes "nbits < 64" and "\<And>j. nbits \<le> j \<Longrightarrow> \<not> bit acc j"
    and "emitted = dst @ out" and "8 * length out + nbits = w * length vals"
    and "\<And>j. j < 8 * length out \<Longrightarrow> sbit out j = vbit w vals j"
    and "\<And>j. 8 * length out \<le> j \<Longrightarrow> bit acc (j - 8 * length out) = vbit w vals j"
  shows "pack_inv w dst vals (emitted, acc, nbits)"
  using assms by (auto simp: pack_inv_def intro!: exI [of _ out])

lemma bit_push_or:
  assumes "\<And>j. nbits \<le> j \<Longrightarrow> \<not> bit acc j" and "nbits \<le> 64"
  shows "bit (acc OR push_bit nbits v :: u64) j
           \<longleftrightarrow> (if j < nbits then bit acc j else j < 64 \<and> bit v (j - nbits))"
  using assms by (auto simp: bit_or_iff bit_push_bit_iff)

lemma pack_step_inv:
  assumes w: "0 < w" "w \<le> 64" and inv: "pack_inv w dst vals (emitted, acc, nbits)"
  shows "pack_inv w dst (vals @ [v0]) (pack_step w (emitted, acc, nbits) v0)"
proof -
  from inv obtain out where n: "nbits < 64" and hi: "\<And>j. nbits \<le> j \<Longrightarrow> \<not> bit acc j"
    and t: "emitted = dst @ out" and L: "8 * length out + nbits = w * length vals"
    and st: "\<And>j. (if j < 8 * length out then sbit out j else bit acc (j - 8 * length out))
                  = vbit w vals j"
    by (auto simp: pack_inv_def)
  define v where "v = v0 AND pack_mask w"
  define free where "free = 64 - nbits"
  have vb: "bit v j \<longleftrightarrow> j < w \<and> bit v0 j" for j
    using w bit_imp_le_length [of v0 j] by (auto simp: v_def bit_and_iff bit_pack_mask)
  have lo: "sbit out j = vbit w vals j" if "j < 8 * length out" for j
    using st [of j] that by simp
  have mid: "bit acc j = vbit w vals (8 * length out + j)" for j
    using st [of "8 * length out + j"] by simp
  have goal: "vbit w (vals @ [v0]) j \<longleftrightarrow>
      (if j < 8 * length out then sbit out j
       else if j < 8 * length out + nbits then bit acc (j - 8 * length out)
       else bit v (j - (8 * length out + nbits)))" for j
    using vbit_snoc [OF w(1), of vals v0 j] st [of j] L by (auto simp: vb)
  show ?thesis
  proof (cases "w \<le> free")
    case True
    define acc1 where "acc1 = acc OR push_bit nbits v"
    have a1: "bit acc1 j \<longleftrightarrow> (if j < nbits then bit acc j else j < 64 \<and> bit v (j - nbits))" for j
      unfolding acc1_def by (rule bit_push_or [OF hi]) (use n in simp_all)
    have a1': "bit acc1 j \<longleftrightarrow> (if j < nbits then bit acc j else bit v (j - nbits))" for j
      using a1 [of j] True n by (auto simp: vb free_def)
    show ?thesis
    proof (cases "nbits + w = 64")
      case full: True
      have "pack_inv w dst (vals @ [v0]) (emitted @ le64 acc1, 0, 0)"
      proof (rule pack_invI [where out = "out @ le64 acc1"])
        show "8 * length (out @ le64 acc1) + 0 = w * length (vals @ [v0])"
          using L full by simp
        fix j
        show "sbit (out @ le64 acc1) j = vbit w (vals @ [v0]) j"
          by (auto simp: goal sbit_append sbit_le64 a1')
        show "bit (0::u64) (j - 8 * length (out @ le64 acc1)) = vbit w (vals @ [v0]) j"
          if "8 * length (out @ le64 acc1) \<le> j"
          using vbit_beyond [OF w(1), of "vals @ [v0]" j] that L full by simp
      qed (simp_all add: t)
      then show ?thesis
        using True full by (simp add: pack_step_def Let_def acc1_def v_def free_def)
    next
      case part: False
      have "pack_inv w dst (vals @ [v0]) (emitted, acc1, nbits + w)"
      proof (rule pack_invI [where out = out])
        show "nbits + w < 64" using True part n by (simp add: free_def)
        show "\<not> bit acc1 j" if "nbits + w \<le> j" for j
          using that a1' [of j] vb [of "j - nbits"] by auto
        show "sbit out j = vbit w (vals @ [v0]) j" if "j < 8 * length out" for j
          using that by (simp add: goal)
        show "bit acc1 (j - 8 * length out) = vbit w (vals @ [v0]) j" if "8 * length out \<le> j" for j
          using that by (auto simp: goal a1')
      qed (use L in \<open>simp_all add: t\<close>)
      then show ?thesis
        using True part by (simp add: pack_step_def Let_def acc1_def v_def free_def)
    qed
  next
    case False
    define word where "word = acc OR push_bit nbits (v AND (push_bit free 1 - 1))"
    have wd: "bit word j \<longleftrightarrow> (if j < nbits then bit acc j else j < 64 \<and> bit v (j - nbits))" for j
    proof -
      have "bit word j \<longleftrightarrow> (if j < nbits then bit acc j
              else j < 64 \<and> bit (v AND (push_bit free 1 - 1)) (j - nbits))"
        unfolding word_def by (rule bit_push_or [OF hi]) (use n in simp_all)
      then show ?thesis
        by (simp only: bit_and_iff bit_low_mask free_def) auto
    qed
    have dr: "bit (drop_bit free v) j \<longleftrightarrow> bit v (free + j)" for j
      by (simp add: bit_drop_bit_eq)
    have "pack_inv w dst (vals @ [v0]) (emitted @ le64 word, drop_bit free v, w - free)"
    proof (rule pack_invI [where out = "out @ le64 word"])
      show "w - free < 64" using n w by (simp add: free_def)
      show "\<not> bit (drop_bit free v) j" if "w - free \<le> j" for j
        using that False by (auto simp only: dr vb)
      show "8 * length (out @ le64 word) + (w - free) = w * length (vals @ [v0])"
        using L False n by (simp add: free_def)
      fix j
      show "sbit (out @ le64 word) j = vbit w (vals @ [v0]) j" if "j < 8 * length (out @ le64 word)"
        using that n by (auto simp: goal sbit_append sbit_le64 wd)
      show "bit (drop_bit free v) (j - 8 * length (out @ le64 word)) = vbit w (vals @ [v0]) j"
        if "8 * length (out @ le64 word) \<le> j"
      proof -
        have "free + (j - 8 * length (out @ le64 word)) = j - (8 * length out + nbits)"
          using that n by (simp add: free_def)
        then show ?thesis using that n by (simp add: goal dr)
      qed
    qed (simp_all add: t)
    moreover have "w - free \<noteq> 64" using n w by (simp add: free_def)
    ultimately show ?thesis
      using False by (simp add: pack_step_def Let_def word_def v_def free_def)
  qed
qed

lemma pack_fold_inv:
  assumes "0 < w" and "w \<le> 64"
  shows "pack_inv w dst vals (foldl (pack_step w) (dst, 0, 0) vals)"
proof (induction vals rule: rev_induct)
  case Nil
  show ?case by (simp add: pack_inv_start)
next
  case (snoc v vals)
  obtain emitted acc nbits where "foldl (pack_step w) (dst, 0, 0) vals = (emitted, acc, nbits)"
    by (metis prod_cases3)
  with snoc show ?case
    using pack_step_inv [OF assms] by simp
qed

lemma pack_flush_le_bytes: "pack_flush dst acc nbits = dst @ le_bytes ((nbits + 7) div 8) acc"
proof (induction dst acc nbits rule: pack_flush.induct)
  case (1 dst acc nbits)
  show ?case
  proof (cases "nbits = 0")
    case True
    then show ?thesis by (simp add: pack_flush.simps)
  next
    case False
    then have "(nbits + 7) div 8 = Suc (((if 8 \<le> nbits then nbits - 8 else 0) + 7) div 8)"
      by (auto simp: div_if)
    then show ?thesis
      using False "1.IH" by (simp add: pack_flush.simps [of dst acc nbits])
  qed
qed

lemma append_packed_decomp:
  assumes "0 < w" and "w \<le> 64"
  obtains out where "append_packed dst vals w = dst @ out"
    and "length out = packed_bytes (length vals) w" and "\<And>j. sbit out j = vbit w vals j"
proof -
  obtain emitted acc nbits where f: "foldl (pack_step w) (dst, 0, 0) vals = (emitted, acc, nbits)"
    by (metis prod_cases3)
  with pack_fold_inv [OF assms, of dst vals] obtain out where
    n: "nbits < 64" and t: "emitted = dst @ out" and L: "8 * length out + nbits = w * length vals"
    and hi: "\<And>j. nbits \<le> j \<Longrightarrow> \<not> bit acc j"
    and st: "\<And>j. (if j < 8 * length out then sbit out j else bit acc (j - 8 * length out))
                  = vbit w vals j"
    by (auto simp: pack_inv_def)
  let ?tail = "le_bytes ((nbits + 7) div 8) acc"
  have tb: "sbit ?tail j = bit acc j" for j
  proof (cases "nbits \<le> j")
    case True
    then show ?thesis using hi [of j] by (simp add: sbit_le_bytes)
  next
    case False
    then have "j < 8 * ((nbits + 7) div 8)" by simp
    then show ?thesis by (simp add: sbit_le_bytes)
  qed
  show thesis
  proof (rule that [of "out @ ?tail"])
    show "append_packed dst vals w = dst @ (out @ ?tail)"
      using assms f t by (simp add: append_packed_def pack_flush_le_bytes)
    have "length vals * w + 7 = nbits + 7 + 8 * length out"
      using L by (simp add: mult.commute)
    then show "length (out @ ?tail) = packed_bytes (length vals) w"
      using assms by (simp add: packed_bytes_def)
    show "sbit (out @ ?tail) j = vbit w vals j" for j
      using st [of j] by (simp only: sbit_append tb)
  qed
qed

section \<open>Unpacking\<close>

lemma bit_read_le64_loop:
  "i \<le> 8 \<Longrightarrow> bit (read_le64_loop src pos i v) j
     \<longleftrightarrow> bit v j \<or> (8 * i \<le> j \<and> j < 64 \<and> sbit src (8 * pos + j))"
proof (induction src pos i v rule: read_le64_loop.induct)
  case (1 src pos i v)
  show ?case
  proof (cases "i < 8 \<and> pos + i < length src")
    case True
    let ?v' = "v OR push_bit (8 * i) (ucast (src ! (pos + i)))"
    have IH: "bit (read_le64_loop src pos (i + 1) ?v') j
        \<longleftrightarrow> bit ?v' j \<or> (8 * (i + 1) \<le> j \<and> j < 64 \<and> sbit src (8 * pos + j))"
      using "1.IH" True by simp
    have here: "sbit src (8 * pos + j) \<longleftrightarrow> bit (src ! (pos + i)) (j - 8 * i)"
      if "8 * i \<le> j" "j < 8 * (i + 1)"
    proof -
      define k where "k = j - 8 * i"
      have k: "j = 8 * i + k" "k < 8" using that by (auto simp: k_def)
      have "8 * pos + j = k + 8 * (pos + i)" using k by simp
      then have "(8 * pos + j) div 8 = pos + i" and "(8 * pos + j) mod 8 = k"
        using k(2) by (simp_all only: div_mult_self2 mod_mult_self2) simp_all
      then show ?thesis using True k by (simp add: sbit_def)
    qed
    have b8: "\<not> bit (src ! (pos + i)) k" if "8 \<le> k" for k
      using that bit_imp_le_length [of "src ! (pos + i)" k] by auto
    have "bit ?v' j \<longleftrightarrow> bit v j \<or> (8 * i \<le> j \<and> j < 8 * (i + 1) \<and> sbit src (8 * pos + j))"
    proof (cases "8 * i \<le> j \<and> j < 8 * (i + 1)")
      case in_byte: True
      then show ?thesis
        using here True by (auto simp: bit_or_iff bit_push_bit_iff bit_ucast_iff)
    next
      case False
      then show ?thesis
        using b8 [of "j - 8 * i"] by (cases "8 * i \<le> j") (auto simp: bit_or_iff bit_push_bit_iff bit_ucast_iff)
    qed
    with IH True show ?thesis
      by (subst read_le64_loop.simps) auto
  next
    case False
    then have "\<not> (8 * i \<le> j \<and> j < 64 \<and> sbit src (8 * pos + j))"
      using "1.prems" by (auto simp: sbit_def)
    with False show ?thesis
      by (subst read_le64_loop.simps) auto
  qed
qed

lemma bit_read_le64: "bit (read_le64 src pos) j \<longleftrightarrow> j < 64 \<and> sbit src (8 * pos + j)"
  by (simp add: read_le64_def bit_read_le64_loop)

lemma bit_get_bits:
  assumes "w \<le> 64"
  shows "bit (get_bits src off w) j \<longleftrightarrow> j < w \<and> sbit src (off + j)"
proof (cases "w = 0")
  case True
  then show ?thesis by (simp add: get_bits_def)
next
  case False
  define q r where "q = off div 8" and "r = off mod 8"
  have off: "off = 8 * q + r" and r: "r < 8" by (simp_all add: q_def r_def)
  have lo: "bit (drop_bit r (read_le64 src q)) k \<longleftrightarrow> r + k < 64 \<and> sbit src (off + k)" for k
    by (simp add: bit_drop_bit_eq bit_read_le64 off add.assoc)
  have hi: "bit (push_bit (64 - r) (read_le64 src (q + 8))) k
      \<longleftrightarrow> 64 - r \<le> k \<and> k < 64 \<and> sbit src (off + k)" for k
  proof (cases "64 - r \<le> k")
    case True
    then have "8 * (q + 8) + (k - (64 - r)) = off + k" using r by (simp add: off)
    then show ?thesis using True by (auto simp: bit_push_bit_iff bit_read_le64)
  next
    case False
    then show ?thesis by (simp add: bit_push_bit_iff)
  qed
  define v where "v = drop_bit r (read_le64 src q)"
  define v' where "v' = (if 64 - r < w then v OR push_bit (64 - r) (read_le64 src (q + 8)) else v)"
  have v': "j < w \<Longrightarrow> bit v' j \<longleftrightarrow> sbit src (off + j)"
    using assms r lo [of j] hi [of j] by (auto simp: v'_def v_def bit_or_iff)
  have "get_bits src off w = (if w < 64 then v' AND (push_bit w 1 - 1) else v')"
    using False by (simp add: get_bits_def Let_def v'_def v_def q_def r_def)
  moreover have "\<not> w < 64 \<Longrightarrow> \<not> j < w \<Longrightarrow> \<not> bit v' j"
    using bit_imp_le_length [of v' j] by auto
  ultimately show ?thesis
    using v' assms by (auto simp: bit_and_iff bit_low_mask)
qed

lemma unpack_loop_nth:
  "unpack_loop src w off n = map (\<lambda>i. get_bits src (off + i * w) w) [0..<n]"
proof (induction n arbitrary: off)
  case 0
  then show ?case by simp
next
  case (Suc n)
  have "[0..<Suc n] = 0 # map Suc [0..<n]"
    by (simp add: map_Suc_upt upt_conv_Cons)
  then show ?case by (simp add: Suc.IH add.assoc)
qed

lemma length_unpack_loop [simp]: "length (unpack_loop src w off n) = n"
  by (simp add: unpack_loop_nth)

lemma unpack_into_graceful [graceful_intros, simp]: "graceful (unpack_into n src w)"
  by (simp add: unpack_into_def)

lemma unpack_into_length: "unpack_into n src w = Inr vs \<Longrightarrow> length vs = n"
  by (auto simp: unpack_into_def split: if_splits)

definition fits :: "nat \<Rightarrow> u64 list \<Rightarrow> bool" where
  "fits w vals \<longleftrightarrow> (\<forall>v \<in> set vals. \<forall>j. bit v j \<longrightarrow> j < w)"

lemma fits_min_width:
  assumes "\<And>v. v \<in> set vals \<Longrightarrow> v \<le> m"
  shows "fits (min_width m) vals"
proof -
  have "j < min_width m" if "v \<in> set vals" and "bit v j" for v j
  proof (rule ccontr)
    assume "\<not> j < min_width m"
    then have "(2::nat) ^ min_width m \<le> 2 ^ j" by simp
    also have "\<dots> \<le> unat v"
      using bit_le_unat [OF that(2)] .
    also have "\<dots> \<le> unat m"
      using assms [OF that(1)] by (simp add: word_le_nat_alt)
    finally show False using unat_less_min_width [of m] by simp
  qed
  then show ?thesis by (auto simp: fits_def)
qed

lemma unpack_append_packed:
  assumes "w \<le> 64" and "fits w vals" and "at_pos data pos (append_packed [] vals w @ rest)"
  shows "unpack_into (length vals) (drop pos data) w = Inr vals"
proof (cases "w = 0")
  case True
  then have "vals = replicate (length vals) 0"
    using assms(2) by (intro replicate_eqI) (auto simp: fits_def intro: word_eq_by_bits)
  then show ?thesis using True by (simp add: unpack_into_def)
next
  case False
  then obtain out where out: "append_packed [] vals w = out"
    and len: "length out = packed_bytes (length vals) w" and sb: "\<And>j. sbit out j = vbit w vals j"
    using append_packed_decomp [of w "[]" vals] assms(1) by (metis append_Nil not_gr_zero)
  have src: "drop pos data = out @ rest"
    using assms(3) out by (simp add: at_pos_drop)
  have fit: "j < w" if "i < length vals" and "bit (vals ! i) j" for i j
    using assms(2) nth_mem [OF that(1)] that(2) unfolding fits_def by blast
  have "unpack_loop (out @ rest) w 0 (length vals) = vals"
  proof (rule nth_equalityI)
    fix i assume "i < length (unpack_loop (out @ rest) w 0 (length vals))"
    then have i: "i < length vals" by simp
    have bits: "sbit (out @ rest) (i * w + j) \<longleftrightarrow> bit (vals ! i) j" if "j < w" for j
    proof -
      have "i * w + j < (i + 1) * w" using that by simp
      also have "\<dots> \<le> length vals * w" using i by (intro mult_le_mono1) simp
      also have "\<dots> \<le> 8 * length out" using False by (simp add: len packed_bytes_def)
      finally have "i * w + j < 8 * length out" .
      then show ?thesis
        using i that by (simp add: sbit_append sb vbit_nth)
    qed
    show "unpack_loop (out @ rest) w 0 (length vals) ! i = vals ! i"
    proof (rule word_eq_by_bits)
      fix j
      show "bit (unpack_loop (out @ rest) w 0 (length vals) ! i) j = bit (vals ! i) j"
        using i bits [of j] assms(1) fit [of i j] by (auto simp: unpack_loop_nth bit_get_bits)
    qed
  qed simp
  with False assms(1) len show ?thesis
    by (simp add: unpack_into_def src)
qed

lemma fits_unat: "(\<And>v. v \<in> set vals \<Longrightarrow> unat v < 2 ^ w) \<Longrightarrow> fits w vals"
proof -
  assume a: "\<And>v. v \<in> set vals \<Longrightarrow> unat v < 2 ^ w"
  have "j < w" if "v \<in> set vals" and "bit v j" for v j
  proof -
    have "(2::nat) ^ j < 2 ^ w"
      by (rule le_less_trans [OF bit_le_unat [OF that(2)] a [OF that(1)]])
    then show ?thesis by simp
  qed
  then show ?thesis by (auto simp: fits_def)
qed

lemma pack_step_append:
  "pack_step w (d @ x, acc, n) v = (case pack_step w (x, acc, n) v of (e, a, m) \<Rightarrow> (d @ e, a, m))"
  by (simp add: pack_step_def Let_def)

lemma append_packed_append: "w \<le> 64 \<Longrightarrow> append_packed dst vals w = dst @ append_packed [] vals w"
proof (cases "w = 0")
  case True
  then show ?thesis by (simp add: append_packed_def)
next
  case False
  assume "w \<le> 64"
  have eq: "foldl (pack_step w) (d @ x, acc, nbits) vals
      = (case foldl (pack_step w) (x, acc, nbits) vals of (e, a, n) \<Rightarrow> (d @ e, a, n))" for d x acc nbits
  proof (induction vals rule: rev_induct)
    case Nil
    show ?case by simp
  next
    case (snoc v vals)
    obtain e a n where "foldl (pack_step w) (x, acc, nbits) vals = (e, a, n)"
      by (metis prod_cases3)
    with snoc show ?case by (simp add: pack_step_append)
  qed
  show ?thesis
    using False eq [of dst "[]" 0 0] by (simp add: append_packed_def pack_flush_le_bytes split: prod.split)
qed

lemma length_append_packed:
  "w \<le> 64 \<Longrightarrow> length (append_packed dst vals w) = length dst + packed_bytes (length vals) w"
proof (cases "w = 0")
  case True
  then show ?thesis by (simp add: append_packed_def packed_bytes_def)
next
  case False
  assume "w \<le> 64"
  with False obtain out where "append_packed dst vals w = dst @ out"
    and "length out = packed_bytes (length vals) w"
    using append_packed_decomp [of w dst vals] by blast
  then show ?thesis by simp
qed



end
