(* ===== verification/Shared.thy ===== *)
theory Shared
  imports Codec Bitpack
begin

text \<open>
  The two schemes that \<open>ints.go\<close> and \<open>bytes.go\<close> spell out once per value domain, written
  once over the value type: run-length pairs, parameterised by how one value is written
  (\<open>wr\<close>) and read (\<open>rd\<close>), and the bit-packed ordinals of a dictionary. The codecs of the
  two domains are instances.
\<close>

unbundle bit_operations_syntax

section \<open>Run-length pairs\<close>

fun run_len :: "'v \<Rightarrow> 'v list \<Rightarrow> nat" where
  "run_len v [] = 0"
| "run_len v (w # ws) = (if w = v then Suc (run_len v ws) else 0)"

fun rle_encode :: "('v \<Rightarrow> bytes) \<Rightarrow> 'v list \<Rightarrow> bytes" where
  "rle_encode wr [] = []"
| "rle_encode wr (v # vs) =
     (let r = run_len v vs in
      wr v @ put_uvarint (of_nat (Suc r)) @ rle_encode wr (drop r vs))"

function rle_decode ::
  "(bytes \<Rightarrow> nat \<Rightarrow> ('v \<times> nat) res) \<Rightarrow> bytes \<Rightarrow> nat \<Rightarrow> 'v list \<Rightarrow> nat \<Rightarrow> 'v list res" where
  "rle_decode rd data n out pos =
     (if length out < n then
        bindE (rd data pos) (\<lambda>(v, pos1).
        bindE (read_uvarint data pos1) (\<lambda>(run, pos2).
          if run_rejected (length out) run n then Inl (Err Corrupt)
          else bindE (append_run out run v) (\<lambda>out'. rle_decode rd data n out' pos2)))
      else if length out \<noteq> n then Inl (Err Corrupt)
      else Inr out)"
  by pat_completeness auto
termination
proof (relation "measure (\<lambda>(rd, data, n, out, pos). n - length out)")
  fix n out run v out'
  assume "length (out :: 'v list) < n" and "\<not> run_rejected (length out) run n"
    and "append_run out run v = Inr out'"
  then have "0 < unat run" and "length out' = length out + unat run"
    by (auto simp: run_rejected_def append_run_Inr unat_gt_0)
  with \<open>length out < n\<close> show "((rd, data, n, out', pos2), rd, data, n, out, pos)
      \<in> measure (\<lambda>(rd, data, n, out, pos). n - length out)" for rd data pos pos2
    by simp
qed simp

declare rle_decode.simps [simp del]

lemma run_len_le: "run_len v vs \<le> length vs"
  by (induction vs) auto

lemma run_len_split: "vs = replicate (run_len v vs) v @ drop (run_len v vs) vs"
  by (induction vs) auto

lemma rle_decode_ok:
  assumes rd: "\<And>v pos rest. v \<in> set vs \<Longrightarrow> at_pos data pos (wr v @ rest)
                 \<Longrightarrow> rd data pos = Inr (v, pos + length (wr v))"
    and "at_pos data pos (rle_encode wr vs @ rest)"
    and "n = length out + length vs" and "n \<le> max_slice"
  shows "rle_decode rd data n out pos = Inr (out @ vs)"
  using assms
proof (induction wr vs arbitrary: out pos rule: rle_encode.induct)
  case (1 wr)
  then show ?case by (simp add: rle_decode.simps)
next
  case (2 wr v vs)
  let ?r = "run_len v vs"
  let ?run = "of_nat (Suc ?r) :: u64"
  let ?tail = "drop ?r vs"
  have le: "?r \<le> length vs" by (rule run_len_le)
  have a: "at_pos data pos (wr v @ put_uvarint ?run @ rle_encode wr ?tail @ rest)"
    using "2.prems"(2) by (simp add: Let_def)
  note b = at_pos_append [OF a]
  note c = at_pos_append [OF b]
  have n62: "n < 2 ^ 62" using "2.prems"(4) by (simp add: max_slice_def)
  have ur: "unat ?run = Suc ?r"
    using le "2.prems"(3) n62 by (intro unat_of_nat_u64) simp
  have acc: "\<not> run_rejected (length out) ?run n"
    using le "2.prems"(3) n62 by (intro run_accepted) simp_all
  have app: "append_run out ?run v = Inr (out @ replicate (Suc ?r) v)"
    using le ur "2.prems"(3,4) by (simp add: append_run_def)
  have split: "replicate ?r v @ ?tail = vs" using run_len_split [of vs v] by simp
  have IH: "rle_decode rd data n (out @ replicate (Suc ?r) v)
      (pos + length (wr v) + length (put_uvarint ?run)) = Inr ((out @ replicate (Suc ?r) v) @ ?tail)"
  proof (rule "2.IH" [OF refl _ c])
    show "rd data p = Inr (w, p + length (wr w))"
      if "w \<in> set ?tail" and "at_pos data p (wr w @ rest')" for w p rest'
      using that "2.prems"(1) [of w p rest'] in_set_dropD [of w ?r vs] by simp
    show "n = length (out @ replicate (Suc ?r) v) + length ?tail"
      using le "2.prems"(3) by simp
  qed (rule "2.prems"(4))
  have lt: "length out < n" using "2.prems"(3) by simp
  show ?case
    using lt "2.prems"(1) [of v pos, OF _ a] read_uvarint_put [OF b] acc app IH split
    by (subst rle_decode.simps) (simp add: replicate_app_Cons_same)
qed

lemma rle_decode_length: "rle_decode rd data n out pos = Inr vs \<Longrightarrow> length vs = n"
  by (induction rd data n out pos rule: rle_decode.induct)
     (subst (asm) (2) rle_decode.simps, auto simp: res_iff split: if_splits)

text \<open>The guard accepts exactly the runs that fit, and every run that overflows the sum.\<close>

lemma run_guard_exact:
  assumes "len \<le> n" and "n < 2 ^ 62"
  shows "\<not> run_rejected len run n \<longleftrightarrow>
    run \<noteq> 0 \<and> (len + unat run \<le> n \<or> 2 ^ 63 \<le> len + unat run)"
proof -
  define m where "m = len + unat run"
  have w: "of_nat len + run = (word_of_int (int m) :: u64)"
    by (simp add: m_def)
  have w': "(word_of_int (int m) :: u64) = word_of_int (int m - 2 ^ 64)"
    by (simp only: word_of_int_eq_iff take_bit_eq_mod) simp
  have "unat run < 2 ^ 64" using unsigned_less [of run, where 'a = nat] by simp
  then have m: "m < n + 2 ^ 64" using assms by (simp add: m_def)
  have "sint (of_nat len + run :: u64) \<le> int n \<longleftrightarrow> m \<le> n \<or> 2 ^ 63 \<le> m"
  proof (cases "m < 2 ^ 63")
    case True
    then show ?thesis using sint_of_int [of "int m"] by (simp add: w)
  next
    case False
    then have "sint (word_of_int (int m - 2 ^ 64) :: u64) = int m - 2 ^ 64"
      using assms m by (intro sint_of_int) simp_all
    moreover have "int m - 2 ^ 64 \<le> int n" using m by simp
    ultimately show ?thesis using False by (simp only: w w') simp
  qed
  then show ?thesis by (auto simp: run_rejected_def not_less m_def)
qed

lemma append_run_not_Panic [simp]: "append_run out run v \<noteq> Inl Panic"
  by (simp add: append_run_def)

lemma rle_decode_no_panic:
  assumes rd: "\<And>pos. pos \<le> length data \<Longrightarrow> graceful (rd data pos)"
    and bound: "\<And>pos v pos'. rd data pos = Inr (v, pos') \<Longrightarrow> pos' \<le> length data"
    and "pos \<le> length data"
  shows "rle_decode rd data n out pos \<noteq> Inl Panic"
  using assms
proof (induction rd data n out pos rule: rle_decode.induct)
  case (1 rd data n out pos)
  have r0: "rd data pos \<noteq> Inl Panic"
    using "1.prems"(1,3) by (auto simp: graceful_def)
  have r1: "read_uvarint data p \<noteq> Inl Panic" if "p \<le> length data" for p
    using read_uvarint_graceful [OF that] by (auto simp: graceful_def)
  show ?case
  proof
    assume "rle_decode rd data n out pos = Inl Panic"
    then obtain v pos1 run pos2 out' where lt: "length out < n"
      and v: "rd data pos = Inr (v, pos1)" and run: "read_uvarint data pos1 = Inr (run, pos2)"
      and acc: "\<not> run_rejected (length out) run n" and app: "append_run out run v = Inr out'"
      and rec: "rle_decode rd data n out' pos2 = Inl Panic"
      using r0 r1 "1.prems"(2)
      by (subst (asm) rle_decode.simps) (auto simp: bindE_Inl_iff split: if_splits)
    have "pos2 \<le> length data" by (rule read_uvarint_bound(2) [OF run])
    with "1.IH" [OF lt v refl run refl acc app "1.prems"(1,2)] rec show False by simp
  qed
qed

text \<open>
  A run that overflows the guard is appended in full: there is no slice to hold it.
\<close>

lemma rle_decode_overflow:
  assumes "length out < n" and "n < 2 ^ 62" and "2 ^ 63 \<le> unat run"
    and "rd data pos = Inr (v, pos1)" and "read_uvarint data pos1 = Inr (run, pos2)"
  shows "rle_decode rd data n out pos = Inl OutOfMemory"
proof -
  have "run \<noteq> 0" using assms(3) by auto
  then have "\<not> run_rejected (length out) run n"
    using assms run_guard_exact [of "length out" n run] by simp
  moreover have "append_run out run v = Inl OutOfMemory"
    using assms(3) by (simp add: append_run_def max_slice_def)
  ultimately show ?thesis
    using assms by (subst rle_decode.simps) simp
qed

section \<open>Dictionary ordinals\<close>

text \<open>The cap on the number of distinct values the selectors count.\<close>

definition dictProbeLimit :: nat where "dictProbeLimit = 65536"

text \<open>The distinct values in order of first appearance, as the map-and-append loop collects them.\<close>

definition dict_collect :: "'v list \<Rightarrow> 'v list" where
  "dict_collect vals = foldl (\<lambda>d v. if v \<in> set d then d else d @ [v]) [] vals"

text \<open>The ordinals: \<open>seen[v] = uint32(i)\<close>, then \<open>uint64(seen[v])\<close>; a missing key reads as 0.\<close>

definition dict_index :: "'v list \<Rightarrow> 'v \<Rightarrow> u64" where
  "dict_index dict v =
     (case map_of (zip dict (map (\<lambda>i. of_nat i :: u32) [0..<length dict])) v of
        Some i \<Rightarrow> ucast i | None \<Rightarrow> 0)"

definition dict_width :: "'v list \<Rightarrow> nat" where
  "dict_width dict = min_width (of_nat (length dict) - 1)"

definition append_ordinals :: "bytes \<Rightarrow> 'v list \<Rightarrow> 'v list \<Rightarrow> bytes" where
  "append_ordinals dst dict vals =
     append_packed (dst @ [of_nat (dict_width dict)]) (map (dict_index dict) vals) (dict_width dict)"

fun lookup_ordinals :: "u64 \<Rightarrow> 'v list \<Rightarrow> u64 list \<Rightarrow> 'v list res" where
  "lookup_ordinals dictLen dict [] = Inr []"
| "lookup_ordinals dictLen dict (ix # idx) =
     (if dictLen \<le> ix then Inl (Err Corrupt)
      else bindE (index_at dict (unat ix)) (\<lambda>v.
           bindE (lookup_ordinals dictLen dict idx) (\<lambda>vs. Inr (v # vs))))"

definition read_ordinals :: "bytes \<Rightarrow> nat \<Rightarrow> nat \<Rightarrow> u64 \<Rightarrow> 'v list \<Rightarrow> 'v list res" where
  "read_ordinals data n pos dictLen dict =
     (if length data \<le> pos then (if n = 0 then Inr [] else Inl (Err Truncated))
      else bindE (index_at data pos) (\<lambda>b.
        let width = unat b in
        if 64 < width then Inl (Err Corrupt)
        else bindE (slice_from data (pos + 1)) (\<lambda>src.
             bindE (unpack_into n src width) (\<lambda>idx.
             lookup_ordinals dictLen dict idx))))"

lemma set_dict_collect [simp]: "set (dict_collect vals) = set vals"
  by (induction vals rule: rev_induct) (auto simp: dict_collect_def)

lemma distinct_dict_collect [simp]: "distinct (dict_collect vals)"
  by (induction vals rule: rev_induct) (auto simp: dict_collect_def)

lemma length_dict_collect: "length (dict_collect vals) \<le> length vals"
  by (metis card_length distinct_card distinct_dict_collect set_dict_collect)

lemma dict_index_nth:
  assumes "distinct dict" and "i < length dict" and "length dict < 2 ^ 32"
  shows "dict_index dict (dict ! i) = of_nat i"
proof -
  have "map_of (zip dict (map (\<lambda>i. of_nat i :: u32) [0..<length dict])) (dict ! i)
      = Some (map (\<lambda>i. of_nat i :: u32) [0..<length dict] ! i)"
    using assms by (intro map_of_zip_nth) simp_all
  then have "dict_index dict (dict ! i) = ucast (of_nat i :: u32)"
    using assms(2) by (simp add: dict_index_def)
  also have "\<dots> = of_nat i"
    using assms by (simp add: word_unat_eq_iff unsigned_ucast_eq unsigned_of_nat take_bit_eq_mod)
  finally show ?thesis .
qed

lemma fits_dict_index:
  assumes "distinct dict" and "set vals \<subseteq> set dict" and "length dict < 2 ^ 32"
  shows "fits (dict_width dict) (map (dict_index dict) vals)"
  unfolding dict_width_def
proof (rule fits_min_width)
  fix x assume "x \<in> set (map (dict_index dict) vals)"
  then obtain v where "v \<in> set dict" and x: "x = dict_index dict v"
    using assms(2) by auto
  then obtain i where i: "i < length dict" "v = dict ! i"
    by (metis in_set_conv_nth)
  have "(of_nat (length dict) - 1 :: u64) = of_nat (length dict - 1)"
    using i(1) by (simp add: of_nat_diff)
  moreover have "(of_nat i :: u64) \<le> of_nat (length dict - 1)"
    using i(1) assms(3) by (simp add: word_le_nat_alt unat_of_nat_u64 del: of_nat_diff)
  ultimately show "x \<le> of_nat (length dict) - 1"
    using dict_index_nth [OF assms(1) i(1) assms(3)] by (simp add: x i(2) del: of_nat_diff)
qed

lemma lookup_ordinals_ok:
  assumes "distinct dict" and "set vals \<subseteq> set dict" and "length dict < 2 ^ 32"
  shows "lookup_ordinals (of_nat (length dict)) dict (map (dict_index dict) vals) = Inr vals"
  using assms(2)
proof (induction vals)
  case Nil
  then show ?case by simp
next
  case (Cons v vals)
  then obtain i where i: "i < length dict" "v = dict ! i"
    by (metis in_set_conv_nth insert_subset list.simps(15))
  have "unat (of_nat i :: u64) = i"
    using i assms(3) by (intro unat_of_nat_u64) simp
  moreover have "\<not> (of_nat (length dict) :: u64) \<le> of_nat i"
    using i assms(3) by (simp add: word_le_nat_alt unat_of_nat_u64)
  ultimately show ?case
    using Cons i dict_index_nth [OF assms(1) i(1) assms(3)] by simp
qed

lemma lookup_ordinals_length: "lookup_ordinals dl dict idx = Inr vs \<Longrightarrow> length vs = length idx"
  by (induction idx arbitrary: vs) (auto simp: res_iff split: if_splits)

lemma lookup_ordinals_graceful:
  "unat dictLen \<le> length dict \<Longrightarrow> graceful (lookup_ordinals dictLen dict idx)"
  by (induction idx) (auto intro!: graceful_intros simp: word_le_nat_alt)

lemma dict_width_le: "dict_width dict \<le> 64"
  by (simp add: dict_width_def min_width_le)

lemma append_ordinals_eq:
  "append_ordinals dst dict vals =
     dst @ of_nat (dict_width dict) # append_packed [] (map (dict_index dict) vals) (dict_width dict)"
  using append_packed_append [OF dict_width_le, of "dst @ [of_nat (dict_width dict)]"]
  by (simp add: append_ordinals_def)

lemma read_ordinals_ok:
  assumes "distinct dict" and "set vals \<subseteq> set dict" and "length dict < 2 ^ 32"
    and "at_pos data pos (of_nat (dict_width dict)
           # append_packed [] (map (dict_index dict) vals) (dict_width dict) @ rest)"
  shows "read_ordinals data (length vals) pos (of_nat (length dict)) dict = Inr vals"
proof -
  note p = at_pos_Cons [OF assms(4)]
  have "unat (of_nat (dict_width dict) :: byte) = dict_width dict"
    using dict_width_le [of dict] by (simp add: unsigned_of_nat take_bit_eq_mod)
  moreover have "unpack_into (length (map (dict_index dict) vals)) (drop (Suc pos) data) (dict_width dict)
      = Inr (map (dict_index dict) vals)"
    by (rule unpack_append_packed [OF dict_width_le fits_dict_index [OF assms(1-3)] p(3)])
  ultimately show ?thesis
    using p(1,2) at_pos_le [OF p(3)] dict_width_le [of dict] lookup_ordinals_ok [OF assms(1-3)]
    by (simp add: read_ordinals_def)
qed

lemma read_ordinals_graceful [graceful_intros]:
  "unat dictLen \<le> length dict \<Longrightarrow> graceful (read_ordinals data n pos dictLen dict)"
  by (auto simp: read_ordinals_def Let_def intro!: graceful_intros lookup_ordinals_graceful)

lemma read_ordinals_length: "read_ordinals data n pos dl dict = Inr vs \<Longrightarrow> length vs = n"
  by (auto simp: read_ordinals_def Let_def res_iff
        dest!: lookup_ordinals_length unpack_into_length split: if_splits)

end
