(* ===== verification/IntCodecs.thy ===== *)
theory IntCodecs
  imports Shared
begin

text \<open>
  The integer codecs of \<open>internal/encoding/ints.go\<close>: for each its encoder and decoder as
  the code has them, the interpretation of \<open>codec\<close> (and of \<open>safe_codec\<close>, for all but the
  run-length decoder). Values are 64-bit words, so the arithmetic on deltas and residuals
  wraps as in Go. Positions are naturals; every slice of the input is bounds-checked.
\<close>

unbundle bit_operations_syntax

section \<open>Plain\<close>

definition encode_plain :: "u64 list \<Rightarrow> bytes" where
  "encode_plain vals = concat (map le64 vals)"

text \<open>\<open>binary.LittleEndian.Uint64\<close> panics on fewer than eight bytes.\<close>

definition le_u64 :: "bytes \<Rightarrow> u64 res" where
  "le_u64 b = (if length b < 8 then Inl Panic else Inr (le_word (take 8 b)))"

fun decode_plain_loop :: "bytes \<Rightarrow> nat \<Rightarrow> nat \<Rightarrow> u64 list res" where
  "decode_plain_loop data i 0 = Inr []"
| "decode_plain_loop data i (Suc k) =
     bindE (slice_from data (i * 8)) (\<lambda>s.
     bindE (le_u64 s) (\<lambda>v.
     bindE (decode_plain_loop data (Suc i) k) (\<lambda>vs. Inr (v # vs))))"

definition decode_plain :: "bytes \<Rightarrow> nat \<Rightarrow> u64 list res" where
  "decode_plain data n =
     (if length data < n * 8 then Inl (Err Truncated) else decode_plain_loop data 0 n)"

lemma length_encode_plain: "length (encode_plain vals) = 8 * length vals"
  by (induction vals) (auto simp: encode_plain_def)

lemma decode_plain_loop_ok:
  "at_pos data (i * 8) (encode_plain vs @ rest) \<Longrightarrow> decode_plain_loop data i (length vs) = Inr vs"
proof (induction vs arbitrary: i)
  case Nil
  then show ?case by simp
next
  case (Cons v vs)
  then have a: "at_pos data (i * 8) (le64 v @ encode_plain vs @ rest)"
    by (simp add: encode_plain_def)
  then have "at_pos data (Suc i * 8) (encode_plain vs @ rest)"
    using at_pos_append [OF a] by (simp add: add.commute)
  with Cons.IH a show ?case
    by (simp add: at_pos_le at_pos_drop le_u64_def)
qed

lemma decode_plain_loop_graceful:
  "(i + k) * 8 \<le> length data \<Longrightarrow> graceful (decode_plain_loop data i k)"
  by (induction k arbitrary: i) (auto intro!: graceful_intros simp: le_u64_def)

lemma decode_plain_loop_length: "decode_plain_loop data i k = Inr vs \<Longrightarrow> length vs = k"
  by (induction k arbitrary: i vs) (auto simp: res_iff)

interpretation plain: safe_codec Plain encode_plain decode_plain "\<lambda>_. True"
proof
  show "decode_plain (encode_plain vals @ rest) (length vals) = Inr vals" for vals rest
    using decode_plain_loop_ok [of "encode_plain vals @ rest" 0 vals rest]
    by (simp add: decode_plain_def length_encode_plain)
  show "length vals = n" if "decode_plain data n = Inr vals" for data n vals
    using that by (auto simp: decode_plain_def dest: decode_plain_loop_length split: if_splits)
  show "graceful (decode_plain data n)" for data n
    using decode_plain_loop_graceful [of 0 n data] by (simp add: decode_plain_def)
qed

section \<open>Varint\<close>

definition encode_varint :: "u64 list \<Rightarrow> bytes" where
  "encode_varint vals = concat (map put_uvarint vals)"

fun decode_varint_loop :: "bytes \<Rightarrow> nat \<Rightarrow> nat \<Rightarrow> u64 list res" where
  "decode_varint_loop data pos 0 = Inr []"
| "decode_varint_loop data pos (Suc k) =
     bindE (read_uvarint data pos) (\<lambda>(v, pos').
     bindE (decode_varint_loop data pos' k) (\<lambda>vs. Inr (v # vs)))"

definition decode_varint :: "bytes \<Rightarrow> nat \<Rightarrow> u64 list res" where
  "decode_varint data n = decode_varint_loop data 0 n"

lemma decode_varint_loop_ok:
  "at_pos data pos (encode_varint vs @ rest) \<Longrightarrow> decode_varint_loop data pos (length vs) = Inr vs"
proof (induction vs arbitrary: pos)
  case Nil
  then show ?case by simp
next
  case (Cons v vs)
  then have a: "at_pos data pos (put_uvarint v @ encode_varint vs @ rest)"
    by (simp add: encode_varint_def)
  with Cons.IH [OF at_pos_append [OF a]] show ?case
    by (simp add: read_uvarint_put)
qed

lemma decode_varint_loop_graceful:
  "pos \<le> length data \<Longrightarrow> graceful (decode_varint_loop data pos k)"
  by (induction k arbitrary: pos)
     (auto intro!: graceful_intros dest: read_uvarint_bound(2) split: prod.split)

lemma decode_varint_loop_length: "decode_varint_loop data pos k = Inr vs \<Longrightarrow> length vs = k"
  by (induction k arbitrary: pos vs) (auto simp: res_iff)

interpretation varint: safe_codec Varint encode_varint decode_varint "\<lambda>_. True"
proof
  show "decode_varint (encode_varint vals @ rest) (length vals) = Inr vals" for vals rest
    unfolding decode_varint_def by (rule decode_varint_loop_ok [where rest = rest]) simp
  show "length vals = n" if "decode_varint data n = Inr vals" for data n vals
    using that by (auto simp: decode_varint_def dest: decode_varint_loop_length)
  show "graceful (decode_varint data n)" for data n
    by (simp add: decode_varint_def decode_varint_loop_graceful)
qed

section \<open>Delta\<close>

fun delta_loop :: "u64 \<Rightarrow> u64 list \<Rightarrow> bytes" where
  "delta_loop prev [] = []"
| "delta_loop prev (v # vs) = put_uvarint (zigzag (v - prev)) @ delta_loop v vs"

fun encode_delta :: "u64 list \<Rightarrow> bytes" where
  "encode_delta [] = []"
| "encode_delta (v # vs) = put_uvarint v @ delta_loop v vs"

fun decode_delta_loop :: "bytes \<Rightarrow> nat \<Rightarrow> u64 \<Rightarrow> nat \<Rightarrow> u64 list res" where
  "decode_delta_loop data pos prev 0 = Inr []"
| "decode_delta_loop data pos prev (Suc k) =
     bindE (read_uvarint data pos) (\<lambda>(z, pos').
     let v = prev + unzigzag z in
     bindE (decode_delta_loop data pos' v k) (\<lambda>vs. Inr (v # vs)))"

definition decode_delta :: "bytes \<Rightarrow> nat \<Rightarrow> u64 list res" where
  "decode_delta data n =
     (if n = 0 then Inr []
      else bindE (read_uvarint data 0) (\<lambda>(first, pos).
           bindE (decode_delta_loop data pos first (n - 1)) (\<lambda>vs. Inr (first # vs))))"

lemma decode_delta_loop_ok:
  "at_pos data pos (delta_loop prev vs @ rest)
     \<Longrightarrow> decode_delta_loop data pos prev (length vs) = Inr vs"
proof (induction vs arbitrary: pos prev)
  case Nil
  then show ?case by simp
next
  case (Cons v vs)
  then have a: "at_pos data pos (put_uvarint (zigzag (v - prev)) @ delta_loop v vs @ rest)"
    by simp
  with Cons.IH [OF at_pos_append [OF a]] show ?case
    by (simp add: read_uvarint_put)
qed

lemma decode_delta_loop_graceful:
  "pos \<le> length data \<Longrightarrow> graceful (decode_delta_loop data pos prev k)"
  by (induction k arbitrary: pos prev)
     (auto intro!: graceful_intros simp: Let_def dest: read_uvarint_bound(2) split: prod.split)

lemma decode_delta_loop_length: "decode_delta_loop data pos prev k = Inr vs \<Longrightarrow> length vs = k"
  by (induction k arbitrary: pos prev vs) (auto simp: res_iff Let_def)

interpretation delta: safe_codec Delta encode_delta decode_delta "\<lambda>_. True"
proof
  show "decode_delta (encode_delta vals @ rest) (length vals) = Inr vals" for vals rest
  proof (cases vals)
    case Nil
    then show ?thesis by (simp add: decode_delta_def)
  next
    case (Cons v vs)
    have a: "at_pos (encode_delta vals @ rest) 0 (put_uvarint v @ delta_loop v vs @ rest)"
      by (simp add: Cons)
    show ?thesis
      using decode_delta_loop_ok [OF at_pos_append [OF a]] read_uvarint_put [OF a]
      by (simp add: decode_delta_def Cons)
  qed
  show "length vals = n" if "decode_delta data n = Inr vals" for data n vals
    using that by (auto simp: decode_delta_def res_iff dest: decode_delta_loop_length split: if_splits)
  show "graceful (decode_delta data n)" for data n
    by (auto simp: decode_delta_def intro!: graceful_intros decode_delta_loop_graceful
          dest: read_uvarint_bound(2) split: prod.split)
qed

section \<open>Delta of delta\<close>

fun dod_loop :: "u64 \<Rightarrow> u64 \<Rightarrow> u64 list \<Rightarrow> bytes" where
  "dod_loop prev prevDelta [] = []"
| "dod_loop prev prevDelta (v # vs) =
     (let d = v - prev in put_uvarint (zigzag (d - prevDelta)) @ dod_loop v d vs)"

fun encode_dod :: "u64 list \<Rightarrow> bytes" where
  "encode_dod [] = []"
| "encode_dod [v] = put_uvarint v"
| "encode_dod (v0 # v1 # vs) =
     put_uvarint v0 @ put_uvarint (zigzag (v1 - v0)) @ dod_loop v1 (v1 - v0) vs"

fun decode_dod_loop :: "bytes \<Rightarrow> nat \<Rightarrow> u64 \<Rightarrow> u64 \<Rightarrow> nat \<Rightarrow> u64 list res" where
  "decode_dod_loop data pos prev prevDelta 0 = Inr []"
| "decode_dod_loop data pos prev prevDelta (Suc k) =
     bindE (read_uvarint data pos) (\<lambda>(z, pos').
     let d = prevDelta + unzigzag z; v = prev + d in
     bindE (decode_dod_loop data pos' v d k) (\<lambda>vs. Inr (v # vs)))"

definition decode_dod :: "bytes \<Rightarrow> nat \<Rightarrow> u64 list res" where
  "decode_dod data n =
     (if n = 0 then Inr []
      else bindE (read_uvarint data 0) (\<lambda>(first, pos).
        if n = 1 then Inr [first]
        else bindE (read_uvarint data pos) (\<lambda>(z, pos').
          let d = unzigzag z; v1 = first + d in
          bindE (decode_dod_loop data pos' v1 d (n - 2)) (\<lambda>vs. Inr (first # v1 # vs)))))"

lemma decode_dod_loop_ok:
  "at_pos data pos (dod_loop prev prevDelta vs @ rest)
     \<Longrightarrow> decode_dod_loop data pos prev prevDelta (length vs) = Inr vs"
proof (induction vs arbitrary: pos prev prevDelta)
  case Nil
  then show ?case by simp
next
  case (Cons v vs)
  then have a: "at_pos data pos
      (put_uvarint (zigzag (v - prev - prevDelta)) @ dod_loop v (v - prev) vs @ rest)"
    by (simp add: Let_def)
  with Cons.IH [OF at_pos_append [OF a]] show ?case
    by (simp add: read_uvarint_put Let_def)
qed

lemma decode_dod_loop_graceful:
  "pos \<le> length data \<Longrightarrow> graceful (decode_dod_loop data pos prev prevDelta k)"
  by (induction k arbitrary: pos prev prevDelta)
     (auto intro!: graceful_intros simp: Let_def dest: read_uvarint_bound(2) split: prod.split)

lemma decode_dod_loop_length:
  "decode_dod_loop data pos prev prevDelta k = Inr vs \<Longrightarrow> length vs = k"
  by (induction k arbitrary: pos prev prevDelta vs) (auto simp: res_iff Let_def)

lemma decode_dod_ok: "decode_dod (encode_dod vals @ rest) (length vals) = Inr vals"
proof (cases vals rule: encode_dod.cases)
  case 1
  then show ?thesis by (simp add: decode_dod_def)
next
  case (2 v)
  then show ?thesis
    using read_uvarint_put [of "put_uvarint v @ rest" 0 v rest] by (simp add: decode_dod_def)
next
  case (3 v0 v1 vs)
  let ?data = "encode_dod vals @ rest"
  have a: "at_pos ?data 0
      (put_uvarint v0 @ put_uvarint (zigzag (v1 - v0)) @ dod_loop v1 (v1 - v0) vs @ rest)"
    by (simp add: 3)
  note b = at_pos_append [OF a]
  show ?thesis
    using read_uvarint_put [OF a] read_uvarint_put [OF b] decode_dod_loop_ok [OF at_pos_append [OF b]]
    by (simp add: decode_dod_def 3 Let_def)
qed

interpretation dod: safe_codec DeltaOfDelta encode_dod decode_dod "\<lambda>_. True"
proof
  show "decode_dod (encode_dod vals @ rest) (length vals) = Inr vals" for vals rest
    by (rule decode_dod_ok)
  show "length vals = n" if "decode_dod data n = Inr vals" for data n vals
    using that by (auto simp: decode_dod_def res_iff Let_def dest: decode_dod_loop_length split: if_splits)
  show "graceful (decode_dod data n)" for data n
    by (auto simp: decode_dod_def Let_def intro!: graceful_intros decode_dod_loop_graceful
          dest: read_uvarint_bound(2) split: prod.split)
qed

section \<open>Run-length\<close>

definition encode_rle_int :: "u64 list \<Rightarrow> bytes" where
  "encode_rle_int vals = rle_encode put_uvarint vals"

definition decode_rle_int :: "bytes \<Rightarrow> nat \<Rightarrow> u64 list res" where
  "decode_rle_int data n = rle_decode read_uvarint data n [] 0"

interpretation rle_int: codec RLEInt encode_rle_int decode_rle_int "\<lambda>vals. length vals \<le> max_slice"
proof
  show "decode_rle_int (encode_rle_int vals @ rest) (length vals) = Inr vals"
    if "length vals \<le> max_slice" for vals rest
  proof -
    have "rle_decode read_uvarint (encode_rle_int vals @ rest) (length vals) [] 0 = Inr ([] @ vals)"
      by (rule rle_decode_ok [where wr = put_uvarint and rest = rest])
         (use that in \<open>simp_all add: read_uvarint_put encode_rle_int_def\<close>)
    then show ?thesis by (simp add: decode_rle_int_def)
  qed
  show "length vals = n" if "decode_rle_int data n = Inr vals" for data n vals
    using that by (auto simp: decode_rle_int_def dest: rle_decode_length)
qed

lemma decode_rle_int_no_panic: "decode_rle_int data n \<noteq> Inl Panic"
  unfolding decode_rle_int_def
  by (rule rle_decode_no_panic) (auto intro: read_uvarint_graceful dest: read_uvarint_bound(2))

text \<open>
  C39: a run length of \<open>2^63\<close> or more passes the guard \<open>len(out)+int(run) > n\<close>, because
  the conversion to \<open>int\<close> makes it negative, and the decoder then appends that many
  values: eleven bytes of input exhaust the memory of the process.
\<close>

theorem decode_rle_int_overflow:
  assumes "0 < n" and "n < 2 ^ 62" and "2 ^ 63 \<le> unat run"
  shows "decode_rle_int (put_uvarint v @ put_uvarint run @ rest) n = Inl OutOfMemory"
proof -
  let ?data = "put_uvarint v @ put_uvarint run @ rest"
  have a: "at_pos ?data 0 (put_uvarint v @ put_uvarint run @ rest)" by simp
  have "read_uvarint ?data 0 = Inr (v, length (put_uvarint v))"
    using read_uvarint_put [OF a] by simp
  moreover have "read_uvarint ?data (length (put_uvarint v))
      = Inr (run, length (put_uvarint v) + length (put_uvarint run))"
    using read_uvarint_put [OF at_pos_append [OF a]] by simp
  moreover have "length ([] :: u64 list) < n" using assms(1) by simp
  ultimately show ?thesis
    unfolding decode_rle_int_def by (intro rle_decode_overflow [OF _ assms(2,3)])
qed

theorem decode_rle_int_overflow_witness:
  "decode_rle_int (put_uvarint 0 @ put_uvarint (2 ^ 63) @ []) 1 = Inl OutOfMemory"
  by (rule decode_rle_int_overflow) simp_all

section \<open>Frame-of-reference bit packing\<close>

record int_stats =
  st_n :: nat
  st_min :: u64
  st_max :: u64
  st_distinct :: nat
  st_distinctExact :: bool
  st_runs :: nat
  st_sortedNonDesc :: bool

definition encode_bitpack :: "u64 list \<Rightarrow> int_stats \<Rightarrow> bytes" where
  "encode_bitpack vals st =
     (let width = min_width (st_max st - st_min st);
          out = put_uvarint (st_min st) @ [of_nat width]
      in if width = 0 then out
         else append_packed out (map (\<lambda>v. v - st_min st) vals) width)"

definition decode_bitpack :: "bytes \<Rightarrow> nat \<Rightarrow> u64 list res" where
  "decode_bitpack data n =
     bindE (read_uvarint data 0) (\<lambda>(minv, pos).
       if length data \<le> pos then Inl (Err Truncated)
       else bindE (index_at data pos) (\<lambda>b.
         let width = unat b in
         if 64 < width then Inl (Err Corrupt)
         else bindE (slice_from data (pos + 1)) (\<lambda>src.
              bindE (unpack_into n src width) (\<lambda>out.
              Inr (map (\<lambda>r. r + minv) out)))))"

lemma encode_bitpack_eq:
  "encode_bitpack vals st = put_uvarint (st_min st) @ of_nat (min_width (st_max st - st_min st))
     # append_packed [] (map (\<lambda>v. v - st_min st) vals) (min_width (st_max st - st_min st))"
  using append_packed_append [OF min_width_le, of "put_uvarint (st_min st) @ [of_nat (min_width (st_max st - st_min st))]"]
  by (simp add: encode_bitpack_def Let_def) (simp add: append_packed_def)

text \<open>Statistics whose range covers the values.\<close>

definition covers :: "int_stats \<Rightarrow> u64 list \<Rightarrow> bool" where
  "covers st vals \<longleftrightarrow> (\<forall>v \<in> set vals. st_min st \<le> v \<and> v \<le> st_max st)"

lemma decode_bitpack_ok:
  assumes "covers st vals"
  shows "decode_bitpack (encode_bitpack vals st @ rest) (length vals) = Inr vals"
proof -
  let ?w = "min_width (st_max st - st_min st)"
  let ?res = "map (\<lambda>v. v - st_min st) vals"
  let ?data = "encode_bitpack vals st @ rest"
  have a: "at_pos ?data 0 (put_uvarint (st_min st) @ of_nat ?w # append_packed [] ?res ?w @ rest)"
    by (simp add: encode_bitpack_eq)
  note b = at_pos_Cons [OF at_pos_append [OF a]]
  have "fits ?w ?res"
  proof (rule fits_min_width)
    fix r assume "r \<in> set ?res"
    then obtain v where v: "r = v - st_min st" "st_min st \<le> v" "v \<le> st_max st"
      using assms by (auto simp: covers_def)
    then show "r \<le> st_max st - st_min st"
      by (simp add: word_le_minus_mono_left)
  qed
  from unpack_append_packed [OF min_width_le this b(3)]
  have "unpack_into (length vals) (drop (Suc (length (put_uvarint (st_min st)))) ?data) ?w = Inr ?res"
    by simp
  moreover have "unat (of_nat ?w :: byte) = ?w"
    using min_width_le [of "st_max st - st_min st"] by (simp add: unsigned_of_nat take_bit_eq_mod)
  moreover have "map ((\<lambda>r. r + st_min st) \<circ> (\<lambda>v. v - st_min st)) vals = vals"
    by (simp add: comp_def)
  ultimately show ?thesis
    using read_uvarint_put [OF a] b(1,2) at_pos_le [OF b(3)] min_width_le [of "st_max st - st_min st"]
    by (simp add: decode_bitpack_def)
qed

lemma decode_bitpack_graceful: "graceful (decode_bitpack data n)"
  by (auto simp: decode_bitpack_def Let_def intro!: graceful_intros split: prod.split)

lemma decode_bitpack_length: "decode_bitpack data n = Inr vs \<Longrightarrow> length vs = n"
  by (auto simp: decode_bitpack_def Let_def res_iff dest!: unpack_into_length split: if_splits)

section \<open>Integer dictionary\<close>

fun gap_loop :: "nat \<Rightarrow> u64 \<Rightarrow> u64 list \<Rightarrow> bytes" where
  "gap_loop i prev [] = []"
| "gap_loop i prev (v # vs) =
     put_uvarint (if i = 0 then v else v - prev) @ gap_loop (Suc i) v vs"

definition encode_dict_int :: "u64 list \<Rightarrow> bytes" where
  "encode_dict_int vals =
     (let dict = sort (dict_collect vals);
          out = put_uvarint (of_nat (length dict)) @ gap_loop 0 0 dict
      in append_ordinals out dict vals)"

fun read_gaps :: "bytes \<Rightarrow> nat \<Rightarrow> nat \<Rightarrow> u64 \<Rightarrow> nat \<Rightarrow> (u64 list \<times> nat) res" where
  "read_gaps data pos i prev 0 = Inr ([], pos)"
| "read_gaps data pos i prev (Suc k) =
     bindE (read_uvarint data pos) (\<lambda>(g, pos1).
       let v = (if i = 0 then g else prev + g) in
       bindE (read_gaps data pos1 (Suc i) v k) (\<lambda>(vs, pos2). Inr (v # vs, pos2)))"

definition decode_dict_int :: "bytes \<Rightarrow> nat \<Rightarrow> u64 list res" where
  "decode_dict_int data n =
     bindE (read_uvarint data 0) (\<lambda>(dictLen, pos).
     bindE (check_count dictLen MaxDictEntries) (\<lambda>_.
     bindE (read_gaps data pos 0 0 (unat dictLen)) (\<lambda>(dict, pos1).
     read_ordinals data n pos1 dictLen dict)))"

lemma read_gaps_ok:
  "at_pos data pos (gap_loop i prev vs @ rest)
     \<Longrightarrow> read_gaps data pos i prev (length vs) = Inr (vs, pos + length (gap_loop i prev vs))"
proof (induction vs arbitrary: pos i prev)
  case Nil
  then show ?case by simp
next
  case (Cons v vs)
  then have a: "at_pos data pos
      (put_uvarint (if i = 0 then v else v - prev) @ gap_loop (Suc i) v vs @ rest)"
    by simp
  show ?case
    using Cons.IH [OF at_pos_append [OF a]] read_uvarint_put [OF a] by (auto simp: Let_def)
qed

lemma read_gaps_bound:
  "read_gaps data pos i prev k = Inr (vs, p) \<Longrightarrow> length vs = k"
  by (induction k arbitrary: pos i prev vs p) (auto simp: res_iff Let_def)

lemma read_gaps_graceful:
  "pos \<le> length data \<Longrightarrow> graceful (read_gaps data pos i prev k)"
  by (induction k arbitrary: pos i prev)
     (auto intro!: graceful_intros simp: Let_def dest: read_uvarint_bound(2) split: prod.split)

interpretation dict_int: safe_codec DictInt encode_dict_int decode_dict_int
  "\<lambda>vals. length vals \<le> 2 ^ 24"
proof
  show "decode_dict_int (encode_dict_int vals @ rest) (length vals) = Inr vals"
    if len: "length vals \<le> 2 ^ 24" for vals rest
  proof -
    let ?dict = "sort (dict_collect vals)"
    let ?n = "of_nat (length ?dict) :: u64"
    let ?data = "encode_dict_int vals @ rest"
    have d: "distinct ?dict" "set vals \<subseteq> set ?dict" by simp_all
    have l: "length ?dict \<le> 2 ^ 24" using length_dict_collect [of vals] len by simp
    then have l32: "length ?dict < 2 ^ 32" by simp
    have u: "unat ?n = length ?dict" using l by (intro unat_of_nat_u64) simp
    have a: "at_pos ?data 0 (put_uvarint ?n @ gap_loop 0 0 ?dict @ of_nat (dict_width ?dict)
        # append_packed [] (map (dict_index ?dict) vals) (dict_width ?dict) @ rest)"
      by (simp add: encode_dict_int_def Let_def append_ordinals_eq)
    note b = at_pos_append [OF a]
    have "?n \<le> MaxDictEntries"
      using l u by (simp add: limit_defs word_le_nat_alt)
    then show ?thesis
      using read_uvarint_put [OF a] read_gaps_ok [OF b]
        read_ordinals_ok [OF d l32 at_pos_append [OF b]] u
      by (simp add: decode_dict_int_def)
  qed
  show "length vals = n" if "decode_dict_int data n = Inr vals" for data n vals
    using that by (auto simp: decode_dict_int_def res_iff dest: read_ordinals_length)
  show "graceful (decode_dict_int data n)" for data n
    by (auto simp: decode_dict_int_def intro!: graceful_intros read_gaps_graceful
          dest: read_uvarint_bound(2) read_gaps_bound split: prod.split)
qed

end
