(* ===== verification/IntSelect.thy ===== *)
theory IntSelect
  imports IntCodecs
begin

text \<open>
  The selector of the integer domain, \<open>EncodeIntsAuto\<close> and \<open>analyzeInts\<close> of
  \<open>internal/encoding/ints.go\<close>, and its counterpart \<open>DecodeInts\<close> of \<open>encoding.go\<close>. The
  statistics are proved to be what their comments say, every codec is shown to be served
  by the dispatcher (interpretations of \<open>dispatched\<close>), and the selector's choice decodes
  to the values it was given and is never longer than the plain or varint form.
\<close>

section \<open>Statistics\<close>

text \<open>The loop body of \<open>analyzeInts\<close>: the extrema, the order, the distinct count.\<close>

definition note_extrema :: "u64 \<Rightarrow> int_stats \<Rightarrow> int_stats" where
  "note_extrema v st =
     (let st1 = (if v < st_min st then st\<lparr>st_min := v\<rparr> else st)
      in if st_max st1 < v then st1\<lparr>st_max := v\<rparr> else st1)"

definition note_order :: "u64 option \<Rightarrow> u64 \<Rightarrow> int_stats \<Rightarrow> int_stats" where
  "note_order prev v st =
     (case prev of None \<Rightarrow> st | Some p \<Rightarrow>
        let st1 = (if v \<noteq> p then st\<lparr>st_runs := Suc (st_runs st)\<rparr> else st)
        in if v < p then st1\<lparr>st_sortedNonDesc := False\<rparr> else st1)"

definition note_distinct :: "u64 list \<Rightarrow> u64 \<Rightarrow> int_stats \<Rightarrow> int_stats \<times> u64 list" where
  "note_distinct seen v st =
     (if st_distinctExact st \<and> v \<notin> set seen then
        (if dictProbeLimit \<le> length seen then (st\<lparr>st_distinctExact := False\<rparr>, seen)
         else (st, seen @ [v]))
      else (st, seen))"

definition stats_step ::
  "int_stats \<times> u64 list \<times> u64 option \<Rightarrow> u64 \<Rightarrow> int_stats \<times> u64 list \<times> u64 option" where
  "stats_step s v =
     (case s of (st, seen, prev) \<Rightarrow>
      case note_distinct seen v (note_order prev v (note_extrema v st)) of
        (st', seen') \<Rightarrow> (st', seen', Some v))"

definition stats_start :: "u64 \<Rightarrow> u64 list \<Rightarrow> int_stats" where
  "stats_start v0 vals = \<lparr>st_n = length vals, st_min = v0, st_max = v0, st_distinct = 0,
     st_distinctExact = True, st_runs = 1, st_sortedNonDesc = True\<rparr>"

text \<open>\<open>vals[0]\<close> panics on no values; the selector never asks.\<close>

definition analyze_ints :: "u64 list \<Rightarrow> int_stats res" where
  "analyze_ints vals =
     bindE (index_at vals 0) (\<lambda>v0.
       case foldl stats_step (stats_start v0 vals, [], None) vals of
         (st, seen, _) \<Rightarrow>
           Inr (st\<lparr>st_distinct := if st_distinctExact st then length seen else dictProbeLimit\<rparr>))"

section \<open>The selector and the dispatcher\<close>

definition select_ints :: "u64 list \<Rightarrow> int_stats \<Rightarrow> enc_id \<times> bytes" where
  "select_ints vals st =
     (let b0 = (Plain, encode_plain vals);
          b1 = choose_codec b0 Varint (encode_varint vals);
          b2 = (if st_runs st * 3 < st_n st
                then choose_codec b1 RLEInt (encode_rle_int vals) else b1);
          b3 = choose_codec b2 Bitpack (encode_bitpack vals st);
          b4 = (if st_sortedNonDesc st
                then choose_codec (choose_codec b3 Delta (encode_delta vals))
                       DeltaOfDelta (encode_dod vals)
                else choose_codec b3 Delta (encode_delta vals))
      in if of_nat (st_distinct st) \<le> MaxDictEntries \<and> st_distinct st * 4 < st_n st * 3
         then choose_codec b4 DictInt (encode_dict_int vals) else b4)"

definition encode_ints_auto :: "u64 list \<Rightarrow> (enc_id \<times> bytes) res" where
  "encode_ints_auto vals =
     (if vals = [] then Inr (Plain, [])
      else bindE (analyze_ints vals) (\<lambda>st. Inr (select_ints vals st)))"

definition decode_ints :: "enc_id \<Rightarrow> bytes \<Rightarrow> int \<Rightarrow> u64 list res" where
  "decode_ints cid data n =
     (if n < 0 then Inl (Err Corrupt)
      else bindE (check_count (word_of_int n) MaxSegmentRows) (\<lambda>_.
        if cid = Plain then decode_plain data (nat n)
        else if cid = Varint then decode_varint data (nat n)
        else if cid = Delta then decode_delta data (nat n)
        else if cid = DeltaOfDelta then decode_dod data (nat n)
        else if cid = RLEInt then decode_rle_int data (nat n)
        else if cid = Bitpack then decode_bitpack data (nat n)
        else if cid = DictInt then decode_dict_int data (nat n)
        else Inl (Err UnknownEncoding)))"

section \<open>What the statistics are\<close>

definition extrema_inv :: "u64 \<Rightarrow> u64 list \<Rightarrow> int_stats \<Rightarrow> bool" where
  "extrema_inv v0 xs st \<longleftrightarrow> st_min st = foldl min v0 xs \<and> st_max st = foldl max v0 xs"

definition order_inv :: "u64 list \<Rightarrow> u64 option \<Rightarrow> int_stats \<Rightarrow> bool" where
  "order_inv xs prev st \<longleftrightarrow> prev = (if xs = [] then None else Some (last xs))
     \<and> st_runs st = (if xs = [] then 1 else length (remdups_adj xs))
     \<and> (st_sortedNonDesc st \<longleftrightarrow> sorted xs)"

definition distinct_inv :: "u64 list \<Rightarrow> u64 list \<Rightarrow> int_stats \<Rightarrow> bool" where
  "distinct_inv xs seen st \<longleftrightarrow> distinct seen \<and> length seen \<le> dictProbeLimit
     \<and> (if st_distinctExact st then set seen = set xs else dictProbeLimit < card (set xs))"

definition stats_inv :: "u64 \<Rightarrow> nat \<Rightarrow> u64 list \<Rightarrow> int_stats \<times> u64 list \<times> u64 option \<Rightarrow> bool" where
  "stats_inv v0 n xs s \<longleftrightarrow> (case s of (st, seen, prev) \<Rightarrow>
     st_n st = n \<and> extrema_inv v0 xs st \<and> order_inv xs prev st \<and> distinct_inv xs seen st)"

lemma runs_snoc:
  "length (remdups_adj ((ys @ [y]) @ [v]))
     = (if v \<noteq> y then Suc (length (remdups_adj (ys @ [y]))) else length (remdups_adj (ys @ [y])))"
  using remdups_adj_append_two [of ys y v] by auto

lemma sorted_snoc: "sorted ((ys @ [y]) @ [v :: u64]) \<longleftrightarrow> sorted (ys @ [y]) \<and> \<not> v < y"
  by (fastforce simp: sorted_append not_less)

lemma note_extrema_inv: "extrema_inv v0 xs st \<Longrightarrow> extrema_inv v0 (xs @ [v]) (note_extrema v st)"
  by (auto simp: extrema_inv_def note_extrema_def min_def max_def)

lemma note_order_inv:
  "order_inv xs prev st \<Longrightarrow> order_inv (xs @ [v]) (Some v) (note_order prev v st)"
proof (cases xs rule: rev_exhaust)
  case (snoc ys y)
  assume "order_inv xs prev st"
  then show ?thesis
    unfolding snoc order_inv_def note_order_def runs_snoc sorted_snoc by (simp add: Let_def)
qed (simp add: order_inv_def note_order_def)

lemma note_distinct_inv:
  assumes "distinct_inv xs seen st" and "note_distinct seen v st = (st', seen')"
  shows "distinct_inv (xs @ [v]) seen' st'"
proof (cases "st_distinctExact st \<and> v \<notin> set xs")
  case True
  then have new: "set seen = set xs" "distinct seen" "length seen \<le> dictProbeLimit"
    using assms(1) by (simp_all add: distinct_inv_def)
  then have len: "length seen = card (set xs)" using distinct_card [of seen] by simp
  show ?thesis
  proof (cases "dictProbeLimit \<le> length seen")
    case full: True
    then have "st' = st\<lparr>st_distinctExact := False\<rparr>" "seen' = seen"
      using assms(2) True new(1) by (simp_all add: note_distinct_def)
    moreover have "dictProbeLimit < card (insert v (set xs))"
      using full len True by simp
    ultimately show ?thesis
      using new(2,3) by (simp add: distinct_inv_def)
  next
    case False
    then have "st' = st" "seen' = seen @ [v]"
      using assms(2) True new(1) by (simp_all add: note_distinct_def)
    with False True new show ?thesis by (simp add: distinct_inv_def)
  qed
next
  case False
  then have "st' = st" "seen' = seen"
    using assms by (auto simp: distinct_inv_def note_distinct_def split: if_splits)
  moreover have "card (set xs) \<le> card (insert v (set xs))" by (rule card_mono) auto
  ultimately show ?thesis
    using assms(1) False by (cases "st_distinctExact st") (simp_all add: distinct_inv_def insert_absorb)
qed

lemma note_frames [simp]:
  "st_n (note_extrema v st) = st_n st" "st_n (note_order prev v st) = st_n st"
  "order_inv xs prev (note_extrema v st) = order_inv xs prev st"
  "distinct_inv xs seen (note_extrema v st) = distinct_inv xs seen st"
  "extrema_inv v0 xs (note_order prev v st) = extrema_inv v0 xs st"
  "distinct_inv xs seen (note_order prev v st) = distinct_inv xs seen st"
  by (auto simp: note_extrema_def note_order_def order_inv_def distinct_inv_def extrema_inv_def
        Let_def split: option.split)

lemma note_distinct_frame:
  "note_distinct seen v st = (st', seen') \<Longrightarrow>
     st_n st' = st_n st \<and> extrema_inv v0 xs st' = extrema_inv v0 xs st
     \<and> order_inv xs prev st' = order_inv xs prev st"
  by (auto simp: note_distinct_def order_inv_def extrema_inv_def split: if_splits)

lemma stats_step_inv:
  "stats_inv v0 n xs s \<Longrightarrow> stats_inv v0 n (xs @ [v]) (stats_step s v)"
  by (auto simp: stats_inv_def stats_step_def note_distinct_frame note_extrema_inv note_order_inv
        dest: note_distinct_inv [rotated] split: prod.splits)

lemma stats_fold_inv:
  "stats_inv v0 (length vals') vals (foldl stats_step (stats_start v0 vals', [], None) vals)"
  by (induction vals rule: rev_induct)
     (simp_all add: stats_step_inv,
      simp add: stats_inv_def extrema_inv_def order_inv_def distinct_inv_def stats_start_def)

lemma foldl_min_Min: "foldl min v0 xs = Min (insert v0 (set xs))" for v0 :: u64
proof (induction xs rule: rev_induct)
  case (snoc x xs)
  then show ?case by (simp add: insert_commute [of v0 x] Min_insert [of "insert v0 (set xs)" x] min.commute del: Min_insert)
qed simp

lemma foldl_max_Max: "foldl max v0 xs = Max (insert v0 (set xs))" for v0 :: u64
proof (induction xs rule: rev_induct)
  case (snoc x xs)
  then show ?case by (simp add: insert_commute [of v0 x] Max_insert [of "insert v0 (set xs)" x] max.commute del: Max_insert)
qed simp

lemma analyze_ints_total: "vals \<noteq> [] \<Longrightarrow> \<exists>st. analyze_ints vals = Inr st"
  by (simp add: analyze_ints_def split: prod.split)

lemma analyze_ints_state:
  assumes "analyze_ints vals = Inr st"
  obtains st0 seen prev where
    "stats_inv (hd vals) (length vals) vals (st0, seen, prev)" and "vals \<noteq> []"
    and "st_min st0 = Min (set vals)" and "st_max st0 = Max (set vals)"
    and "st = st0\<lparr>st_distinct := if st_distinctExact st0 then length seen else dictProbeLimit\<rparr>"
proof -
  obtain v0 vs where vals: "vals = v0 # vs"
    using assms by (cases vals) (auto simp: analyze_ints_def index_at_def)
  obtain st0 seen prev
    where f: "foldl stats_step (stats_start v0 vals, [], None) vals = (st0, seen, prev)"
    by (metis prod_cases3)
  have inv: "stats_inv v0 (length vals) vals (st0, seen, prev)"
    using stats_fold_inv [of v0 vals vals] by (simp only: f)
  have st: "st = st0\<lparr>st_distinct := if st_distinctExact st0 then length seen else dictProbeLimit\<rparr>"
    using assms f by (simp add: analyze_ints_def vals)
  have "insert v0 (set vals) = set vals" by (auto simp: vals)
  then have "st_min st0 = Min (set vals)" "st_max st0 = Max (set vals)"
    using inv by (simp_all add: stats_inv_def extrema_inv_def foldl_min_Min foldl_max_Max)
  with that inv st vals show ?thesis by simp
qed

lemma analyze_ints_covers: "analyze_ints vals = Inr st \<Longrightarrow> covers st vals"
  by (elim analyze_ints_state) (simp add: covers_def)

text \<open>
  The statistics are what their comments say: the exact range, the number of maximal
  runs of equal values, whether the values are non-decreasing, and the number of
  distinct values up to the probe limit, with the flag that says whether it is exact.
\<close>

theorem analyze_ints_exact:
  assumes "analyze_ints vals = Inr st"
  shows "st_n st = length vals \<and> st_min st = Min (set vals) \<and> st_max st = Max (set vals)
    \<and> st_runs st = length (remdups_adj vals) \<and> st_sortedNonDesc st = sorted vals
    \<and> st_distinct st = min (card (set vals)) dictProbeLimit
    \<and> (st_distinctExact st \<longleftrightarrow> card (set vals) \<le> dictProbeLimit)"
proof (rule analyze_ints_state [OF assms])
  fix st0 seen prev
  assume inv: "stats_inv (hd vals) (length vals) vals (st0, seen, prev)" and "vals \<noteq> []"
    and "st_min st0 = Min (set vals)" and "st_max st0 = Max (set vals)"
    and st: "st = st0\<lparr>st_distinct := if st_distinctExact st0 then length seen else dictProbeLimit\<rparr>"
  moreover have "min (card (set vals)) dictProbeLimit
      = (if st_distinctExact st0 then length seen else dictProbeLimit)
    \<and> (st_distinctExact st0 \<longleftrightarrow> card (set vals) \<le> dictProbeLimit)"
    using inv distinct_card [of seen] by (auto simp: stats_inv_def distinct_inv_def split: if_splits)
  ultimately show ?thesis
    by (simp add: stats_inv_def order_inv_def)
qed

lemma small_stats:
  "analyze_ints [7, 7, 9] = Inr \<lparr>st_n = 3, st_min = 7, st_max = 9, st_distinct = 2,
     st_distinctExact = True, st_runs = 2, st_sortedNonDesc = True\<rparr>"
  by (simp add: analyze_ints_def stats_start_def stats_step_def note_extrema_def note_order_def
        note_distinct_def dictProbeLimit_def)

theorem analyze_ints_exact_witness:
  "st_runs \<lparr>st_n = 3, st_min = 7, st_max = 9, st_distinct = 2, st_distinctExact = True,
     st_runs = 2, st_sortedNonDesc = True\<rparr> = length (remdups_adj [7, 7, 9 :: u64])"
  using analyze_ints_exact [OF small_stats] by simp

section \<open>Every codec is served by the dispatcher\<close>

lemma decode_ints_nat:
  assumes "n \<le> 2 ^ 24"
  shows "decode_ints cid data (int n) =
    (if cid = Plain then decode_plain data n
     else if cid = Varint then decode_varint data n
     else if cid = Delta then decode_delta data n
     else if cid = DeltaOfDelta then decode_dod data n
     else if cid = RLEInt then decode_rle_int data n
     else if cid = Bitpack then decode_bitpack data n
     else if cid = DictInt then decode_dict_int data n
     else Inl (Err UnknownEncoding))"
proof -
  have "(word_of_int (int n) :: u64) \<le> MaxSegmentRows"
    using assms by (simp add: limit_defs word_le_nat_alt unat_of_nat_u64)
  then show ?thesis by (simp add: decode_ints_def)
qed

abbreviation serve_ints :: "enc_id \<Rightarrow> bytes \<Rightarrow> nat \<Rightarrow> u64 list res" where
  "serve_ints cid data n \<equiv> decode_ints cid data (int n)"

interpretation bitpack: safe_codec Bitpack "\<lambda>vals. encode_bitpack vals st" decode_bitpack "covers st"
  for st
  by standard (simp_all add: decode_bitpack_ok decode_bitpack_length decode_bitpack_graceful)

interpretation plain: dispatched Plain encode_plain decode_plain "\<lambda>_. True" serve_ints "2 ^ 24"
  by standard (simp add: decode_ints_nat)
interpretation varint: dispatched Varint encode_varint decode_varint "\<lambda>_. True" serve_ints "2 ^ 24"
  by standard (simp add: decode_ints_nat)
interpretation delta: dispatched Delta encode_delta decode_delta "\<lambda>_. True" serve_ints "2 ^ 24"
  by standard (simp add: decode_ints_nat)
interpretation dod: dispatched DeltaOfDelta encode_dod decode_dod "\<lambda>_. True" serve_ints "2 ^ 24"
  by standard (simp add: decode_ints_nat)
interpretation rle_int: dispatched RLEInt encode_rle_int decode_rle_int
  "\<lambda>vals. length vals \<le> max_slice" serve_ints "2 ^ 24"
  by standard (simp add: decode_ints_nat)
interpretation bitpack: dispatched Bitpack "\<lambda>vals. encode_bitpack vals st" decode_bitpack
  "covers st" serve_ints "2 ^ 24" for st
  by standard (simp add: decode_ints_nat)
interpretation dict_int: dispatched DictInt encode_dict_int decode_dict_int
  "\<lambda>vals. length vals \<le> 2 ^ 24" serve_ints "2 ^ 24"
  by standard (simp add: decode_ints_nat)

lemmas ints_choice = plain.choose_decodes varint.choose_decodes delta.choose_decodes
  dod.choose_decodes rle_int.choose_decodes bitpack.choose_decodes dict_int.choose_decodes

lemma select_ints_decodes:
  assumes "covers st vals" and len: "length vals \<le> 2 ^ 24"
  shows "serve_ints (fst (select_ints vals st)) (snd (select_ints vals st) @ rest) (length vals)
     = Inr vals"
proof -
  have slice: "length vals \<le> max_slice" using len by (simp add: max_slice_def)
  show ?thesis
    unfolding select_ints_def Let_def
    by (intro ints_choice plain.candidate_decodes TrueI len slice assms(1)
          | split if_split | intro conjI impI | simp only: fst_conv snd_conv)+
qed

lemma choose_le: "length (snd best) \<le> m \<Longrightarrow> length (snd (choose_codec best cid b)) \<le> m"
  by (rule order_trans [OF choose_length])

lemma if_le: "length (snd x) \<le> m \<Longrightarrow> length (snd y) \<le> m
    \<Longrightarrow> length (snd (if c then x else y)) \<le> m"
  by simp

lemma select_ints_length:
  "length (snd (select_ints vals st)) \<le> length (encode_plain vals)"
  "length (snd (select_ints vals st)) \<le> length (encode_varint vals)"
  unfolding select_ints_def Let_def
  by (intro if_le choose_le; simp) (intro if_le choose_le choose_length_candidate; simp)

lemma encode_ints_auto_total [simp]: "encode_ints_auto vals \<noteq> Inl e"
  using analyze_ints_total [of vals] by (auto simp: encode_ints_auto_def bindE_Inl_iff)

lemma encode_ints_auto_ok:
  assumes "encode_ints_auto vals = Inr (cid, b)" and "length vals \<le> 2 ^ 24"
  shows "decode_ints cid (b @ rest) (int (length vals)) = Inr vals"
proof (cases "vals = []")
  case True
  then show ?thesis
    using assms plain.candidate_decodes [of "[]" rest]
    by (simp add: encode_ints_auto_def encode_plain_def)
next
  case False
  then obtain st where "analyze_ints vals = Inr st" "select_ints vals st = (cid, b)"
    using assms(1) by (auto simp: encode_ints_auto_def res_iff)
  then show ?thesis
    using select_ints_decodes [OF analyze_ints_covers assms(2), of st rest] by simp
qed

lemma decode_ints_length: "decode_ints cid data n = Inr vs \<Longrightarrow> int (length vs) = n"
  by (auto simp: decode_ints_def res_iff not_less dest: plain.dec_length varint.dec_length
        delta.dec_length dod.dec_length rle_int.dec_length bitpack.dec_length dict_int.dec_length
        split: if_splits)

lemma decode_ints_cases:
  obtains "decode_ints cid data n = decode_rle_int data (nat n)" and "cid = RLEInt"
  | "graceful (decode_ints cid data n)"
proof (cases "cid = RLEInt \<and> 0 \<le> n \<and> (word_of_int n :: u64) \<le> MaxSegmentRows")
  case True
  then show ?thesis using that(1) by (simp add: decode_ints_def)
next
  case False
  have "graceful (decode_ints cid data n)"
    unfolding decode_ints_def
    by (intro graceful_intros graceful_if plain.dec_graceful varint.dec_graceful
          delta.dec_graceful dod.dec_graceful bitpack.dec_graceful dict_int.dec_graceful)
       (use False in \<open>simp_all add: res_iff\<close>)
  then show ?thesis by (rule that(2))
qed

lemma decode_ints_no_panic: "decode_ints cid data n \<noteq> Inl Panic"
  and decode_ints_memory: "decode_ints cid data n = Inl OutOfMemory \<Longrightarrow> cid = RLEInt"
  using decode_rle_int_no_panic [of data "nat n"]
  by (cases rule: decode_ints_cases [of cid data n]; auto simp: graceful_def)+

text \<open>
  C17: the integer selector always produces a payload; \<open>DecodeInts\<close>, given the identifier it
  chose, the payload with anything after it and the number of rows, returns the very
  values; and the payload is never longer than the plain or the varint form.
\<close>

theorem encode_ints_auto_roundtrip:
  assumes "length vals \<le> 2 ^ 24"
  shows "\<exists>cid b. encode_ints_auto vals = Inr (cid, b)
    \<and> decode_ints cid (b @ rest) (int (length vals)) = Inr vals
    \<and> length b \<le> 8 * length vals \<and> length b \<le> length (encode_varint vals)"
proof -
  obtain cid b where e: "encode_ints_auto vals = Inr (cid, b)"
    by (metis encode_ints_auto_total obj_sumE prod.exhaust)
  moreover have "length b \<le> 8 * length vals \<and> length b \<le> length (encode_varint vals)"
  proof (cases "vals = []")
    case False
    then obtain st where "select_ints vals st = (cid, b)"
      using e by (auto simp: encode_ints_auto_def res_iff)
    then show ?thesis
      using select_ints_length [of vals st] by (simp add: length_encode_plain)
  qed (use e in \<open>simp add: encode_ints_auto_def\<close>)
  ultimately show ?thesis using encode_ints_auto_ok [OF e assms] by blast
qed

theorem encode_ints_auto_roundtrip_witness:
  "\<exists>cid b. encode_ints_auto [5, 6, 7] = Inr (cid, b) \<and> decode_ints cid (b @ [1]) 3 = Inr [5, 6, 7]"
  using encode_ints_auto_roundtrip [of "[5, 6, 7]" "[1]"] by auto


end
