(* ===== verification/ByteCodecs.thy ===== *)
theory ByteCodecs
  imports Shared
begin

text \<open>
  The byte-string codecs of \<open>internal/encoding/bytes.go\<close>. A value is written as its length
  and its bytes; the decoders refuse a value longer than \<open>MaxBytesValue\<close> and, in the
  dictionary, a table larger than \<open>MaxStringTableBytes\<close>, which the encoders do not check:
  the contracts name those bounds as what is encodable. Positions are naturals, so the
  sum \<open>pos+int(l)\<close> is the code's as long as the input is a Go slice (\<open>l\<close> is at most
  \<open>2^24\<close> when the sum is formed).
\<close>

section \<open>One value\<close>

definition put_value :: "bytes \<Rightarrow> bytes" where
  "put_value v = put_uvarint (of_nat (length v)) @ v"

text \<open>The body the three decoders share: length, ceiling, bounds, copy.\<close>

definition read_value :: "bytes \<Rightarrow> nat \<Rightarrow> (bytes \<times> nat) res" where
  "read_value data pos =
     bindE (read_uvarint data pos) (\<lambda>(l, pos1).
       if MaxBytesValue < l then Inl (Err LimitExceeded)
       else if length data < pos1 + unat l then Inl (Err Truncated)
       else bindE (slice_range data pos1 (pos1 + unat l)) (\<lambda>v. Inr (v, pos1 + unat l)))"

definition value_ok :: "bytes \<Rightarrow> bool" where
  "value_ok v \<longleftrightarrow> length v \<le> unat MaxBytesValue"

lemma unat_length_value:
  "length v \<le> 2 ^ 48 \<Longrightarrow> unat (of_nat (length v) :: u64) = length v"
  by (intro unat_of_nat_u64) simp

lemma value_length:
  assumes "value_ok v"
  shows "unat (of_nat (length v) :: u64) = length v" and "of_nat (length v) \<le> MaxBytesValue"
proof -
  show "unat (of_nat (length v) :: u64) = length v"
    using assms by (intro unat_length_value) (simp add: value_ok_def limit_defs)
  then show "of_nat (length v) \<le> MaxBytesValue"
    using assms by (simp add: word_le_nat_alt value_ok_def)
qed

lemma read_value_put:
  assumes "value_ok v" and a: "at_pos data pos (put_value v @ rest)"
  shows "read_value data pos = Inr (v, pos + length (put_value v))"
proof -
  have b: "at_pos data pos (put_uvarint (of_nat (length v)) @ v @ rest)"
    using a by (simp add: put_value_def)
  note c = at_pos_append [OF b]
  show ?thesis
    using read_uvarint_put [OF b] value_length [OF assms(1)] at_pos_drop [OF c] at_pos_length [OF c]
    by (simp add: read_value_def put_value_def not_less)
qed

lemma read_value_graceful [graceful_intros]:
  "pos \<le> length data \<Longrightarrow> graceful (read_value data pos)"
  by (auto simp: read_value_def intro!: graceful_intros split: prod.split)

lemma read_value_bound:
  assumes "read_value data pos = Inr (v, pos')"
  shows "pos' \<le> length data" and "value_ok v"
  using assms
  by (auto simp: read_value_def res_iff slice_range_def value_ok_def word_le_nat_alt not_less
        split: if_splits)

section \<open>Raw\<close>

definition encode_raw :: "bytes list \<Rightarrow> bytes" where
  "encode_raw vals = concat (map put_value vals)"

fun decode_raw_loop :: "bytes \<Rightarrow> nat \<Rightarrow> nat \<Rightarrow> bytes list res" where
  "decode_raw_loop data pos 0 = Inr []"
| "decode_raw_loop data pos (Suc k) =
     bindE (read_value data pos) (\<lambda>(v, pos1).
     bindE (decode_raw_loop data pos1 k) (\<lambda>vs. Inr (v # vs)))"

definition decode_raw :: "bytes \<Rightarrow> nat \<Rightarrow> bytes list res" where
  "decode_raw data n = decode_raw_loop data 0 n"

lemma decode_raw_loop_ok:
  "list_all value_ok vs \<Longrightarrow> at_pos data pos (encode_raw vs @ rest)
     \<Longrightarrow> decode_raw_loop data pos (length vs) = Inr vs"
proof (induction vs arbitrary: pos)
  case Nil
  then show ?case by simp
next
  case (Cons v vs)
  then have a: "at_pos data pos (put_value v @ encode_raw vs @ rest)"
    by (simp add: encode_raw_def)
  with Cons.IH [OF _ at_pos_append [OF a]] Cons.prems(1) show ?case
    using read_value_put [OF _ a] by simp
qed

lemma decode_raw_loop_graceful:
  "pos \<le> length data \<Longrightarrow> graceful (decode_raw_loop data pos k)"
  by (induction k arbitrary: pos)
     (auto intro!: graceful_intros dest: read_value_bound(1) split: prod.split)

lemma decode_raw_loop_length: "decode_raw_loop data pos k = Inr vs \<Longrightarrow> length vs = k"
  by (induction k arbitrary: pos vs) (auto simp: res_iff)

interpretation raw: safe_codec Raw encode_raw decode_raw "list_all value_ok"
proof
  show "decode_raw (encode_raw vals @ rest) (length vals) = Inr vals"
    if "list_all value_ok vals" for vals rest
    unfolding decode_raw_def by (rule decode_raw_loop_ok [OF that, where rest = rest]) simp
  show "length vals = n" if "decode_raw data n = Inr vals" for data n vals
    using that by (auto simp: decode_raw_def dest: decode_raw_loop_length)
  show "graceful (decode_raw data n)" for data n
    by (simp add: decode_raw_def decode_raw_loop_graceful)
qed

section \<open>Dictionary\<close>

definition encode_dict_bytes :: "bytes list \<Rightarrow> bytes" where
  "encode_dict_bytes vals =
     (let keys = sort (dict_collect vals);
          out = put_uvarint (of_nat (length keys)) @ concat (map put_value keys)
      in append_ordinals out keys vals)"

text \<open>The table loop, with the running total \<open>total += l\<close> between the two ceilings.\<close>

fun read_table :: "bytes \<Rightarrow> nat \<Rightarrow> u64 \<Rightarrow> nat \<Rightarrow> (bytes list \<times> nat) res" where
  "read_table data pos tot 0 = Inr ([], pos)"
| "read_table data pos tot (Suc k) =
     bindE (read_uvarint data pos) (\<lambda>(l, pos1).
       if MaxBytesValue < l then Inl (Err LimitExceeded)
       else if MaxStringTableBytes < tot + l then Inl (Err LimitExceeded)
       else if length data < pos1 + unat l then Inl (Err Truncated)
       else bindE (slice_range data pos1 (pos1 + unat l)) (\<lambda>v.
            bindE (read_table data (pos1 + unat l) (tot + l) k) (\<lambda>(vs, pos2).
            Inr (v # vs, pos2))))"

definition decode_dict_bytes :: "bytes \<Rightarrow> nat \<Rightarrow> bytes list res" where
  "decode_dict_bytes data n =
     bindE (read_uvarint data 0) (\<lambda>(dictLen, pos).
     bindE (check_count dictLen MaxDictEntries) (\<lambda>_.
     bindE (read_table data pos 0 (unat dictLen)) (\<lambda>(dict, pos1).
     read_ordinals data n pos1 dictLen dict)))"

definition table_size :: "bytes list \<Rightarrow> nat" where
  "table_size keys = sum_list (map length keys)"

lemma read_table_ok:
  assumes "list_all value_ok keys" and "unat tot + table_size keys \<le> unat MaxStringTableBytes"
    and "at_pos data pos (concat (map put_value keys) @ rest)"
  shows "read_table data pos tot (length keys)
     = Inr (keys, pos + length (concat (map put_value keys)))"
  using assms
proof (induction keys arbitrary: pos tot)
  case Nil
  then show ?case by simp
next
  case (Cons v vs)
  let ?l = "of_nat (length v) :: u64"
  have v: "value_ok v" using Cons.prems(1) by simp
  have a: "at_pos data pos (put_uvarint ?l @ v @ concat (map put_value vs) @ rest)"
    using Cons.prems(3) by (simp add: put_value_def [of v])
  note b = at_pos_append [OF a]
  note c = at_pos_append [OF b]
  have lt: "unat tot + length v < 2 ^ 64"
    using Cons.prems(2) by (simp add: limit_defs table_size_def)
  then have t: "unat (tot + ?l) = unat tot + length v"
    using value_length(1) [OF v] by (subst unat_add_lem [THEN iffD1]) simp_all
  have IH: "read_table data (pos + length (put_uvarint ?l) + length v) (tot + ?l) (length vs)
      = Inr (vs, pos + length (put_uvarint ?l) + length v + length (concat (map put_value vs)))"
    using Cons.prems(1,2) t by (intro Cons.IH c) (simp_all add: table_size_def)
  have "\<not> MaxStringTableBytes < tot + ?l"
    using Cons.prems(2) t by (simp add: word_less_nat_alt table_size_def not_less)
  then show ?case
    using read_uvarint_put [OF a] value_length [OF v] at_pos_drop [OF b] at_pos_length [OF b] IH
    by (simp add: put_value_def [of v] not_less)
qed

lemma read_table_length: "read_table data pos tot k = Inr (vs, p) \<Longrightarrow> length vs = k"
  by (induction k arbitrary: pos tot vs p) (auto simp: res_iff split: if_splits)

lemma read_table_graceful:
  "pos \<le> length data \<Longrightarrow> graceful (read_table data pos tot k)"
  by (induction k arbitrary: pos tot) (auto intro!: graceful_intros split: prod.split)

definition dict_bytes_ok :: "bytes list \<Rightarrow> bool" where
  "dict_bytes_ok vals \<longleftrightarrow> length vals \<le> 2 ^ 24 \<and> list_all value_ok vals
     \<and> table_size (sort (dict_collect vals)) \<le> unat MaxStringTableBytes"

interpretation dict_bytes: safe_codec DictBytes encode_dict_bytes decode_dict_bytes dict_bytes_ok
proof
  show "decode_dict_bytes (encode_dict_bytes vals @ rest) (length vals) = Inr vals"
    if ok: "dict_bytes_ok vals" for vals rest
  proof -
    let ?dict = "sort (dict_collect vals)"
    let ?n = "of_nat (length ?dict) :: u64"
    let ?data = "encode_dict_bytes vals @ rest"
    have d: "distinct ?dict" "set vals \<subseteq> set ?dict" by simp_all
    have l: "length ?dict \<le> 2 ^ 24"
      using length_dict_collect [of vals] ok by (simp add: dict_bytes_ok_def)
    then have l32: "length ?dict < 2 ^ 32" by simp
    have u: "unat ?n = length ?dict" using l by (intro unat_of_nat_u64) simp
    have a: "at_pos ?data 0 (put_uvarint ?n @ concat (map put_value ?dict) @ of_nat (dict_width ?dict)
        # append_packed [] (map (dict_index ?dict) vals) (dict_width ?dict) @ rest)"
      by (simp add: encode_dict_bytes_def Let_def append_ordinals_eq)
    note b = at_pos_append [OF a]
    have t: "list_all value_ok ?dict" "unat (0 :: u64) + table_size ?dict \<le> unat MaxStringTableBytes"
      using ok by (simp_all add: dict_bytes_ok_def list_all_iff)
    have "?n \<le> MaxDictEntries"
      using l u by (simp add: limit_defs word_le_nat_alt)
    then show ?thesis
      using read_uvarint_put [OF a] read_table_ok [OF t b]
        read_ordinals_ok [OF d l32 at_pos_append [OF b]] u
      by (simp add: decode_dict_bytes_def)
  qed
  show "length vals = n" if "decode_dict_bytes data n = Inr vals" for data n vals
    using that by (auto simp: decode_dict_bytes_def res_iff dest: read_ordinals_length)
  show "graceful (decode_dict_bytes data n)" for data n
    by (auto simp: decode_dict_bytes_def intro!: graceful_intros read_table_graceful
          dest: read_uvarint_bound(2) read_table_length split: prod.split)
qed

section \<open>Run-length\<close>

definition encode_rle_bytes :: "bytes list \<Rightarrow> bytes" where
  "encode_rle_bytes vals = rle_encode put_value vals"

definition decode_rle_bytes :: "bytes \<Rightarrow> nat \<Rightarrow> bytes list res" where
  "decode_rle_bytes data n = rle_decode read_value data n [] 0"

interpretation rle_bytes: codec RLEBytes encode_rle_bytes decode_rle_bytes
  "\<lambda>vals. length vals \<le> max_slice \<and> list_all value_ok vals"
proof
  show "decode_rle_bytes (encode_rle_bytes vals @ rest) (length vals) = Inr vals"
    if ok: "length vals \<le> max_slice \<and> list_all value_ok vals" for vals rest
  proof -
    have "rle_decode read_value (encode_rle_bytes vals @ rest) (length vals) [] 0 = Inr ([] @ vals)"
    proof (rule rle_decode_ok [where wr = put_value and rest = rest])
      show "read_value (encode_rle_bytes vals @ rest) pos = Inr (v, pos + length (put_value v))"
        if "v \<in> set vals" and "at_pos (encode_rle_bytes vals @ rest) pos (put_value v @ r)"
        for v pos r
        using that ok by (intro read_value_put) (auto simp: list_all_iff)
    qed (use ok in \<open>simp_all add: encode_rle_bytes_def\<close>)
    then show ?thesis by (simp add: decode_rle_bytes_def)
  qed
  show "length vals = n" if "decode_rle_bytes data n = Inr vals" for data n vals
    using that by (auto simp: decode_rle_bytes_def dest: rle_decode_length)
qed

lemma decode_rle_bytes_no_panic: "decode_rle_bytes data n \<noteq> Inl Panic"
  unfolding decode_rle_bytes_def
  by (rule rle_decode_no_panic) (auto intro: read_value_graceful dest: read_value_bound(1))

end
