(* ===== verification/ByteSelect.thy ===== *)
theory ByteSelect
  imports ByteCodecs
begin

text \<open>
  The selector of the byte domain, \<open>EncodeBytesAuto\<close> and \<open>analyzeBytes\<close> of
  \<open>internal/encoding/bytes.go\<close>, and \<open>DecodeBytes\<close> of \<open>encoding.go\<close>: the counterpart of
  the integer selector, with the two ceilings the decoders impose and the encoders do
  not.
\<close>

section \<open>Statistics, selector and dispatcher\<close>

record bytes_stats =
  bs_n :: nat
  bs_distinct :: nat
  bs_runs :: nat

text \<open>The loop body: the runs, and the distinct values until the probe is \<open>capped\<close>.\<close>

definition bytes_step ::
  "nat \<times> bytes list \<times> bool \<times> bytes option \<Rightarrow> bytes \<Rightarrow> nat \<times> bytes list \<times> bool \<times> bytes option" where
  "bytes_step s v =
     (case s of (runs, seen, capped, prev) \<Rightarrow>
      let runs' = (case prev of None \<Rightarrow> runs | Some p \<Rightarrow> if v \<noteq> p then Suc runs else runs)
      in if \<not> capped \<and> v \<notin> set seen then
           (if dictProbeLimit \<le> length seen then (runs', seen, True, Some v)
            else (runs', seen @ [v], capped, Some v))
         else (runs', seen, capped, Some v))"

definition analyze_bytes :: "bytes list \<Rightarrow> bytes_stats" where
  "analyze_bytes vals =
     (case foldl bytes_step (1, [], False, None) vals of (runs, seen, capped, _) \<Rightarrow>
      \<lparr>bs_n = length vals,
       bs_distinct = (if capped then dictProbeLimit + 1 else length seen),
       bs_runs = runs\<rparr>)"

definition select_bytes :: "bytes list \<Rightarrow> bytes_stats \<Rightarrow> enc_id \<times> bytes" where
  "select_bytes vals st =
     (let b0 = (Raw, encode_raw vals);
          b1 = (if bs_runs st * 3 < bs_n st
                then choose_codec b0 RLEBytes (encode_rle_bytes vals) else b0)
      in if 0 < bs_distinct st \<and> of_nat (bs_distinct st) \<le> MaxDictEntries
            \<and> bs_distinct st * 4 < bs_n st * 3
         then choose_codec b1 DictBytes (encode_dict_bytes vals) else b1)"

definition encode_bytes_auto :: "bytes list \<Rightarrow> enc_id \<times> bytes" where
  "encode_bytes_auto vals =
     (if vals = [] then (Raw, encode_raw vals) else select_bytes vals (analyze_bytes vals))"

definition decode_bytes :: "enc_id \<Rightarrow> bytes \<Rightarrow> int \<Rightarrow> bytes list res" where
  "decode_bytes cid data n =
     (if n < 0 then Inl (Err Corrupt)
      else bindE (check_count (word_of_int n) MaxSegmentRows) (\<lambda>_.
        if cid = Raw then decode_raw data (nat n)
        else if cid = DictBytes then decode_dict_bytes data (nat n)
        else if cid = RLEBytes then decode_rle_bytes data (nat n)
        else Inl (Err UnknownEncoding)))"

section \<open>Every codec is served by the dispatcher\<close>

lemma decode_bytes_nat:
  assumes "n \<le> 2 ^ 24"
  shows "decode_bytes cid data (int n) =
    (if cid = Raw then decode_raw data n
     else if cid = DictBytes then decode_dict_bytes data n
     else if cid = RLEBytes then decode_rle_bytes data n
     else Inl (Err UnknownEncoding))"
proof -
  have "(word_of_int (int n) :: u64) \<le> MaxSegmentRows"
    using assms by (simp add: limit_defs word_le_nat_alt unat_of_nat_u64)
  then show ?thesis by (simp add: decode_bytes_def)
qed

abbreviation serve_bytes :: "enc_id \<Rightarrow> bytes \<Rightarrow> nat \<Rightarrow> bytes list res" where
  "serve_bytes cid data n \<equiv> decode_bytes cid data (int n)"

interpretation raw: dispatched Raw encode_raw decode_raw "list_all value_ok" serve_bytes "2 ^ 24"
  by standard (simp add: decode_bytes_nat)
interpretation dict_bytes: dispatched DictBytes encode_dict_bytes decode_dict_bytes dict_bytes_ok
  serve_bytes "2 ^ 24"
  by standard (simp add: decode_bytes_nat)
interpretation rle_bytes: dispatched RLEBytes encode_rle_bytes decode_rle_bytes
  "\<lambda>vals. length vals \<le> max_slice \<and> list_all value_ok vals" serve_bytes "2 ^ 24"
  by standard (simp add: decode_bytes_nat)

lemmas bytes_choice = raw.choose_decodes dict_bytes.choose_decodes rle_bytes.choose_decodes

lemma select_bytes_decodes:
  assumes ok: "dict_bytes_ok vals"
  shows "serve_bytes (fst (select_bytes vals st)) (snd (select_bytes vals st) @ rest) (length vals)
     = Inr vals"
proof -
  have len: "length vals \<le> 2 ^ 24" and vok: "list_all value_ok vals"
    using ok by (simp_all add: dict_bytes_ok_def)
  then have slice: "length vals \<le> max_slice \<and> list_all value_ok vals"
    by (simp add: max_slice_def)
  show ?thesis
    unfolding select_bytes_def Let_def
    by (intro bytes_choice raw.candidate_decodes len vok slice ok
          | split if_split | intro conjI impI | simp only: fst_conv snd_conv)+
qed

lemma encode_bytes_auto_ok:
  assumes "dict_bytes_ok vals" and "encode_bytes_auto vals = (cid, b)"
  shows "decode_bytes cid (b @ rest) (int (length vals)) = Inr vals"
proof (cases "vals = []")
  case True
  then show ?thesis
    using assms raw.candidate_decodes [of "[]" rest] by (auto simp: encode_bytes_auto_def)
next
  case False
  then show ?thesis
    using assms(2) select_bytes_decodes [OF assms(1), of "analyze_bytes vals" rest]
    by (simp add: encode_bytes_auto_def)
qed

lemma encode_bytes_auto_length: "length (snd (encode_bytes_auto vals)) \<le> length (encode_raw vals)"
  by (auto simp: encode_bytes_auto_def select_bytes_def Let_def choose_codec_def)

lemma decode_bytes_length: "decode_bytes cid data n = Inr vs \<Longrightarrow> int (length vs) = n"
  by (auto simp: decode_bytes_def res_iff not_less
        dest: raw.dec_length dict_bytes.dec_length rle_bytes.dec_length split: if_splits)

lemma decode_bytes_cases:
  obtains "decode_bytes cid data n = decode_rle_bytes data (nat n)" and "cid = RLEBytes"
  | "graceful (decode_bytes cid data n)"
proof (cases "cid = RLEBytes \<and> 0 \<le> n \<and> (word_of_int n :: u64) \<le> MaxSegmentRows")
  case True
  then show ?thesis using that(1) by (simp add: decode_bytes_def)
next
  case False
  have "graceful (decode_bytes cid data n)"
    unfolding decode_bytes_def
    by (intro graceful_intros graceful_if raw.dec_graceful dict_bytes.dec_graceful)
       (use False in \<open>simp_all add: res_iff\<close>)
  then show ?thesis by (rule that(2))
qed

lemma decode_bytes_no_panic: "decode_bytes cid data n \<noteq> Inl Panic"
  and decode_bytes_memory: "decode_bytes cid data n = Inl OutOfMemory \<Longrightarrow> cid = RLEBytes"
  using decode_rle_bytes_no_panic [of data "nat n"]
  by (cases rule: decode_bytes_cases [of cid data n]; auto simp: graceful_def)+

section \<open>Properties\<close>

text \<open>
  C19: for values within the ceilings the decoder imposes, \<open>DecodeBytes\<close> recovers what
  \<open>EncodeBytesAuto\<close> wrote, whatever follows it, and the payload is never longer than the
  raw form.
\<close>

theorem encode_bytes_auto_roundtrip:
  assumes "length vals \<le> 2 ^ 24" and "\<forall>v \<in> set vals. length v \<le> unat MaxBytesValue"
    and "table_size (sort (dict_collect vals)) \<le> unat MaxStringTableBytes"
  shows "decode_bytes (fst (encode_bytes_auto vals)) (snd (encode_bytes_auto vals) @ rest)
           (int (length vals)) = Inr vals
    \<and> length (snd (encode_bytes_auto vals)) \<le> length (encode_raw vals)"
  using assms encode_bytes_auto_ok [of vals _ _ rest] encode_bytes_auto_length [of vals]
  by (cases "encode_bytes_auto vals") (simp add: dict_bytes_ok_def list_all_iff value_ok_def)

theorem encode_bytes_auto_roundtrip_witness:
  "decode_bytes (fst (encode_bytes_auto [[1, 2], [3]])) (snd (encode_bytes_auto [[1, 2], [3]]) @ [9])
     2 = Inr [[1, 2], [3]]"
  using encode_bytes_auto_roundtrip [of "[[1, 2], [3]]" "[9]"]
  by (simp add: limit_defs table_size_def dict_collect_def)

text \<open>
  \<open>DecodeBytes\<close> never panics, whatever the identifier, the bytes and the row count; what
  it returns has exactly that many rows; only the run-length codec can exhaust memory.
\<close>

theorem decode_bytes_safe:
  "decode_bytes cid data n \<in> {Inr vs | vs. int (length vs) = n}
     \<union> {Inl e | e. e \<noteq> Panic \<and> e \<noteq> OutOfMemory}
     \<union> (if cid = RLEBytes then {Inl OutOfMemory} else {})"
  using decode_bytes_no_panic [of cid data n] decode_bytes_memory [of cid data n]
    decode_bytes_length [of cid data n]
  by (cases "decode_bytes cid data n") auto

text \<open>
  The encoder has no ceiling on the length of a value, the decoder has: a column of one
  value longer than \<open>MaxBytesValue\<close> is written and can never be read back.
\<close>

theorem long_value_unreadable:
  assumes "unat MaxBytesValue < length v" and "length v \<le> 2 ^ 48"
  shows "decode_bytes (fst (encode_bytes_auto [v])) (snd (encode_bytes_auto [v])) 1
     = Inl (Err LimitExceeded)"
proof -
  have enc: "encode_bytes_auto [v] = (Raw, put_value v)"
    by (simp add: encode_bytes_auto_def select_bytes_def analyze_bytes_def bytes_step_def
          dictProbeLimit_def encode_raw_def)
  have "unat (of_nat (length v) :: u64) = length v"
    using assms(2) by (rule unat_length_value)
  then have "MaxBytesValue < of_nat (length v)"
    using assms(1) by (simp add: word_less_nat_alt)
  then have "read_value (put_value v) 0 = Inl (Err LimitExceeded)"
    using read_uvarint_put [of "put_value v" 0 "of_nat (length v)" v]
    by (simp add: read_value_def put_value_def)
  then show ?thesis
    using decode_bytes_nat [of 1 Raw] by (simp add: enc decode_raw_def)
qed

theorem long_value_unreadable_witness:
  "decode_bytes (fst (encode_bytes_auto [replicate 16777217 0]))
     (snd (encode_bytes_auto [replicate 16777217 0])) 1 = Inl (Err LimitExceeded)"
  by (rule long_value_unreadable) (simp_all add: limit_defs del: replicate.simps)

end
