(* ===== verification/Chunk.thy ===== *)
theory Chunk
  imports Column Compress Cursor IntSelect ByteSelect
begin

text \<open>
  The framing of a column chunk, \<open>internal/column/chunk.go\<close>, and \<open>Builder.Encode\<close> of
  \<open>builder.go\<close>: semantic codec, entropy codec when it shrinks the payload, header,
  presence bitmap, checksum. \<open>DecodeChunk\<close> undoes it through the bounds-checked cursor
  and the resource guards, in the order of the code.
\<close>

unbundle bit_operations_syntax

definition flagHasNulls :: u8 where "flagHasNulls = 1"

section \<open>Encoding\<close>

definition encode_chunk_bytes ::
  "externals \<Rightarrow> kind \<Rightarrow> enc_id \<Rightarrow> comp_id \<Rightarrow> builder \<Rightarrow> nat \<Rightarrow> bytes \<Rightarrow> bytes res" where
  "encode_chunk_bytes X kind encID compID b uncompressedLen stored =
     (let flags = (if has_nulls b then flagHasNulls else 0);
          head = [kind, encID, compID, flags] @ put_uvarint (of_nat (b_rows b))
                   @ put_uvarint (of_nat uncompressedLen) @ put_uvarint (of_nat (length stored));
          tail = le64 (xxh64 X stored) @ stored
      in case b_present b of
           None \<Rightarrow> Inr (head @ tail)
         | Some present \<Rightarrow> bindE (fill_bitmap present (b_rows b)) (\<lambda>bm.
             Inr (head @ put_uvarint (of_nat (length (bm_bits bm))) @ bm_bits bm @ tail)))"

definition entropy_stage :: "externals \<Rightarrow> comp_id option \<Rightarrow> bytes \<Rightarrow> comp_id \<times> bytes" where
  "entropy_stage X entropy encoded =
     (case entropy of
        None \<Rightarrow> (CompNone, encoded)
      | Some cid \<Rightarrow>
          if cid \<noteq> CompNone then
            (let cand = compress X cid encoded
             in if length cand < length encoded then (cid, cand) else (CompNone, encoded))
          else (CompNone, encoded))"

definition encode_semantic :: "builder \<Rightarrow> (enc_id \<times> bytes) res" where
  "encode_semantic b =
     (if b_kind b = KindInt then encode_ints_auto (b_ints b)
      else Inr (encode_bytes_auto (b_bytes b)))"

definition builder_encode ::
  "externals \<Rightarrow> comp_id option \<Rightarrow> builder \<Rightarrow> (bytes \<times> col_stats) res" where
  "builder_encode X entropy b =
     bindE (builder_stats b) (\<lambda>st.
     bindE (encode_semantic b) (\<lambda>(encID, encoded).
       case entropy_stage X entropy encoded of (compID, stored) \<Rightarrow>
       bindE (encode_chunk_bytes X (b_kind b) encID compID b (length encoded) stored) (\<lambda>chunk.
       Inr (chunk, st))))"

section \<open>Decoding\<close>

definition decode_presence :: "u8 \<Rightarrow> nat \<Rightarrow> cursor \<Rightarrow> (bitmap option \<times> cursor) res" where
  "decode_presence flags rows c =
     (if flags AND flagHasNulls \<noteq> 0 then
        (case cursor_uvarint c of (bmLen, c1) \<Rightarrow>
         if bmLen \<noteq> of_nat ((rows + 7) div 8) then Inl (Err Corrupt)
         else bindE (cursor_bytes (sint bmLen) c1) (\<lambda>(bmBytes, c2).
              bindE (cursor_check c2) (\<lambda>_.
              case bitmap_from_bytes bmBytes rows of
                None \<Rightarrow> Inl (Err Corrupt)
              | Some bm \<Rightarrow> Inr (Some bm, c2))))
      else Inr (None, c))"

definition decode_values ::
  "kind \<Rightarrow> enc_id \<Rightarrow> bytes \<Rightarrow> nat \<Rightarrow> bitmap option \<Rightarrow> data res" where
  "decode_values kind encID encoded rows present =
     (let d = \<lparr>d_Kind = kind, d_Ints = [], d_Bytes = [], d_Present = present, d_Rows = rows\<rparr>
      in if kind = KindInt then
           bindE (decode_ints encID encoded (int rows)) (\<lambda>vals. Inr (d\<lparr>d_Ints := vals\<rparr>))
         else if kind = KindBytes then
           bindE (decode_bytes encID encoded (int rows)) (\<lambda>vals. Inr (d\<lparr>d_Bytes := vals\<rparr>))
         else Inl (Err Corrupt))"

definition decode_chunk :: "externals \<Rightarrow> bytes \<Rightarrow> data res" where
  "decode_chunk X raw =
     (case cursor_u8 (new_cursor raw) of (kind, c1) \<Rightarrow>
      case cursor_u8 c1 of (encID, c2) \<Rightarrow>
      case cursor_u8 c2 of (compID, c3) \<Rightarrow>
      case cursor_u8 c3 of (flags, c4) \<Rightarrow>
      case cursor_uvarint c4 of (rows64, c5) \<Rightarrow>
      case cursor_uvarint c5 of (uncompressedLen, c6) \<Rightarrow>
      case cursor_uvarint c6 of (storedLen, c7) \<Rightarrow>
      bindE (cursor_check c7) (\<lambda>_.
      bindE (check_count rows64 MaxSegmentRows) (\<lambda>_.
      let rows = unat rows64 in
      bindE (decode_presence flags rows c7) (\<lambda>(present, c8).
      case cursor_u64 c8 of (checksum, c9) \<Rightarrow>
      bindE (check_count storedLen MaxChunkStored) (\<lambda>_.
      bindE (cursor_bytes (sint storedLen) c9) (\<lambda>(stored, c10).
      bindE (cursor_check c10) (\<lambda>_.
      if xxh64 X stored \<noteq> checksum then Inl (Err BadChecksum)
      else bindE (check_decompress storedLen uncompressedLen) (\<lambda>_.
           bindE (get_codec compID) (\<lambda>_.
           bindE (decompress X compID stored (unat uncompressedLen)) (\<lambda>encoded.
           decode_values kind encID encoded rows present))))))))))"

section \<open>The layout read back\<close>

definition chunk_bytes ::
  "kind \<Rightarrow> enc_id \<Rightarrow> comp_id \<Rightarrow> u8 \<Rightarrow> u64 \<Rightarrow> u64 \<Rightarrow> u64 \<Rightarrow> bytes \<Rightarrow> u64 \<Rightarrow> bytes \<Rightarrow> bytes" where
  "chunk_bytes kind encID compID flags r u s nulls ck stored =
     kind # encID # compID # flags # put_uvarint r @ put_uvarint u @ put_uvarint s
       @ nulls @ le64 ck @ stored"

lemma decode_chunk_layout:
  assumes raw: "raw = chunk_bytes kind encID compID flags r u s nulls ck stored" and "short raw"
    and r: "r \<le> MaxSegmentRows" and s: "s \<le> MaxChunkStored" and len: "length stored = unat s"
    and presence: "\<And>pre rest. short (pre @ nulls @ rest) \<Longrightarrow>
      decode_presence flags (unat r) (at_cursor pre (nulls @ rest))
        = Inr (present, at_cursor (pre @ nulls) rest)"
  shows "decode_chunk X raw =
    (if xxh64 X stored \<noteq> ck then Inl (Err BadChecksum)
     else bindE (check_decompress s u) (\<lambda>_.
          bindE (get_codec compID) (\<lambda>_.
          bindE (decompress X compID stored (unat u)) (\<lambda>encoded.
          decode_values kind encID encoded (unat r) present))))"
proof -
  let ?h = "[kind, encID, compID, flags] @ put_uvarint r @ put_uvarint u @ put_uvarint s"
  have sh: "short (kind # encID # compID # flags # put_uvarint r @ put_uvarint u @ put_uvarint s
      @ nulls @ le64 ck @ stored)"
    using assms(2) by (simp add: raw chunk_bytes_def)
  have p: "decode_presence flags (unat r) (at_cursor ?h (nulls @ le64 ck @ stored))
      = Inr (present, at_cursor (?h @ nulls) (le64 ck @ stored))"
    using sh by (intro presence) simp
  have b: "cursor_bytes (sint s) (at_cursor (?h @ nulls @ le64 ck) stored)
      = Inr (stored, at_cursor (?h @ nulls @ le64 ck @ stored) [])"
    using bytes_at_cursor [of "?h @ nulls @ le64 ck" stored "[]" "sint s"] sh s len
    by (simp add: sint_small limit_defs)
  show ?thesis
    unfolding decode_chunk_def raw chunk_bytes_def
    using sh p b r s by (simp add: cursor_run)
qed

text \<open>The bitmap section, as the encoder writes it.\<close>

definition null_section :: "bitmap option \<Rightarrow> bytes" where
  "null_section bm = (case bm of None \<Rightarrow> []
     | Some b \<Rightarrow> put_uvarint (of_nat (length (bm_bits b))) @ bm_bits b)"

lemma decode_presence_ok:
  assumes "rows \<le> 2 ^ 24" and "short (pre @ null_section bm @ rest)"
    and "case bm of None \<Rightarrow> True | Some b \<Rightarrow> length (bm_bits b) = (rows + 7) div 8 \<and> bm_n b = rows"
  shows "decode_presence (if bm \<noteq> None then flagHasNulls else 0) rows
      (at_cursor pre (null_section bm @ rest)) = Inr (bm, at_cursor (pre @ null_section bm) rest)"
proof (cases bm)
  case None
  then show ?thesis by (simp add: decode_presence_def null_section_def)
next
  case (Some b)
  let ?n = "of_nat (length (bm_bits b)) :: u64"
  have l: "length (bm_bits b) = (rows + 7) div 8" "bm_n b = rows"
    using assms(3) Some by simp_all
  then have "length (bm_bits b) \<le> 2 ^ 24" using assms(1) by simp
  then have sn: "sint ?n = int (length (bm_bits b))"
    by (intro sint_of_nat) simp
  have sh: "short (pre @ put_uvarint ?n @ bm_bits b @ rest)"
    using assms(2) Some by (simp add: null_section_def)
  then have c: "cursor_bytes (sint ?n) (at_cursor (pre @ put_uvarint ?n) (bm_bits b @ rest))
      = Inr (bm_bits b, at_cursor (pre @ put_uvarint ?n @ bm_bits b) rest)"
    using bytes_at_cursor [of "pre @ put_uvarint ?n" "bm_bits b" rest "sint ?n"] sn by simp
  have "(1 :: u8) AND 1 \<noteq> 0" by simp
  moreover have "bitmap_from_bytes (bm_bits b) rows = Some b"
    using l by (simp add: bitmap_from_bytes_def)
  ultimately show ?thesis
    using Some c l(1)
    by (simp add: decode_presence_def null_section_def cursor_run flagHasNulls_def)
qed

lemma encode_chunk_bytes_eq:
  assumes "builder_ok b"
  shows "\<exists>bm. encode_chunk_bytes X kind encID compID b ul stored =
      Inr (chunk_bytes kind encID compID (if bm \<noteq> None then flagHasNulls else 0)
        (of_nat (b_rows b)) (of_nat ul) (of_nat (length stored)) (null_section bm)
        (xxh64 X stored) stored)
    \<and> (case bm of None \<Rightarrow> b_present b = None
       | Some bm \<Rightarrow> length (bm_bits bm) = (b_rows b + 7) div 8 \<and> bm_n bm = b_rows b
          \<and> (\<forall>j < b_rows b. sbit (bm_bits bm) j = present_at b j))"
proof (cases "b_present b")
  case None
  then show ?thesis
    by (intro exI [of _ None])
       (simp add: encode_chunk_bytes_def chunk_bytes_def null_section_def has_nulls_def)
next
  case (Some p)
  then have "length p = b_rows b" using assms by (simp add: builder_ok_def)
  from fill_bitmap_ok [OF this] obtain bm where "fill_bitmap p (b_rows b) = Inr bm"
    "length (bm_bits bm) = (b_rows b + 7) div 8" "bm_n bm = b_rows b"
    "\<forall>j < b_rows b. sbit (bm_bits bm) j = p ! j"
    by blast
  with Some show ?thesis
    by (intro exI [of _ "Some bm"])
       (simp add: encode_chunk_bytes_def chunk_bytes_def null_section_def has_nulls_def present_at_def)
qed

section \<open>Round trip\<close>

lemma entropy_stage_decompress:
  assumes "entropy_stage X entropy encoded = (cid, stored)"
    and "\<And>c. entropy = Some c \<Longrightarrow> inverts X c encoded"
  shows "decompress X cid stored (length encoded) = Inr encoded"
proof (cases "cid = CompNone")
  case True
  then have "stored = encoded"
    using assms(1) by (auto simp: entropy_stage_def Let_def split: option.splits if_splits)
  with True show ?thesis
    using none.inverse [of encoded] by (simp add: decompress_def none_compress_def)
next
  case False
  then have "entropy = Some cid \<and> stored = compress X cid encoded"
    using assms(1) by (auto simp: entropy_stage_def Let_def split: option.splits if_splits)
  then show ?thesis
    using dispatch.inverse assms(2) by simp
qed

lemma entropy_stage_length:
  "entropy_stage X entropy encoded = (cid, stored) \<Longrightarrow> length stored \<le> length encoded"
  by (auto simp: entropy_stage_def Let_def split: option.splits if_splits)

text \<open>
  What \<open>DecodeChunk\<close> demands of a chunk and \<open>Encode\<close> does not check: the size ceilings,
  the expansion ratio of \<open>CheckDecompress\<close>, and the ceilings of the byte codecs.
\<close>

definition within_limits :: "bytes \<Rightarrow> bytes \<Rightarrow> bool" where
  "within_limits stored encoded \<longleftrightarrow>
     length stored \<le> 2 ^ 30 \<and> length encoded \<le> 2 ^ 32
     \<and> (stored = [] \<or> length encoded div length stored \<le> 256)"

definition values_ok :: "builder \<Rightarrow> bool" where
  "values_ok b \<longleftrightarrow> b_rows b \<le> 2 ^ 24 \<and> (b_kind b = KindBytes \<longrightarrow> dict_bytes_ok (b_bytes b))"

lemma unat_2p32: "n \<le> 2 ^ 32 \<Longrightarrow> unat (of_nat n :: u64) = n"
  by (intro unat_of_nat_u64) simp

lemma check_decompress_exact:
  assumes "ns \<le> 2 ^ 32" and "nu \<le> 2 ^ 32"
  shows "check_decompress (of_nat ns) (of_nat nu)
    = (if ns = 0 \<or> nu div ns \<le> 256 then Inr () else Inl (Err LimitExceeded))"
proof -
  have "unat (of_nat nu div of_nat ns :: u64) = nu div ns"
    using assms by (simp add: unat_div unat_2p32)
  then have "MaxDecompressRatio < (of_nat nu div of_nat ns) \<longleftrightarrow> 256 < nu div ns"
    by (simp add: word_less_nat_alt limit_defs)
  moreover have "0 < (of_nat ns :: u64) \<longleftrightarrow> ns \<noteq> 0"
    using unat_2p32 [OF assms(1)] by (simp add: word_less_nat_alt)
  moreover have "\<not> MaxChunkUncompressed < of_nat nu"
    using assms(2) by (simp add: word_less_nat_alt limit_defs unat_2p32)
  ultimately show ?thesis by (auto simp: check_decompress_def)
qed

lemma decode_values_ok:
  assumes "builder_ok b" and "values_ok b" and "encode_semantic b = Inr (e, encoded)"
  shows "decode_values (b_kind b) e encoded (b_rows b) bm
    = Inr \<lparr>d_Kind = b_kind b, d_Ints = b_ints b, d_Bytes = b_bytes b, d_Present = bm,
           d_Rows = b_rows b\<rparr>"
proof (cases "b_kind b = KindInt")
  case True
  then have "decode_ints e (encoded @ []) (int (length (b_ints b))) = Inr (b_ints b)"
    using assms by (intro encode_ints_auto_ok) (auto simp: encode_semantic_def values_ok_def builder_ok_def)
  then show ?thesis
    using True assms(1) by (simp add: decode_values_def builder_ok_def)
next
  case False
  then have k: "b_kind b = KindBytes" using assms(1) by (auto simp: builder_ok_def)
  then have "decode_bytes e (encoded @ []) (int (length (b_bytes b))) = Inr (b_bytes b)"
    using assms False by (intro encode_bytes_auto_ok) (auto simp: encode_semantic_def values_ok_def)
  then show ?thesis
    using k assms(1) by (simp add: decode_values_def builder_ok_def)
qed

text \<open>The chunk a builder writes, and what is left of its decoding after the framing.\<close>

lemma builder_encode_decode:
  assumes ok: "builder_ok b" and rows: "b_rows b \<le> 2 ^ 24"
    and sem: "encode_semantic b = Inr (e, encoded)"
    and stage: "entropy_stage X entropy encoded = (cid, stored)"
    and ls: "length stored \<le> 2 ^ 30" and lu: "length encoded \<le> 2 ^ 32"
  obtains chunk st bm where "builder_encode X entropy b = Inr (chunk, st)"
    and "decode_chunk X chunk =
      bindE (check_decompress (of_nat (length stored)) (of_nat (length encoded))) (\<lambda>_.
      bindE (get_codec cid) (\<lambda>_.
      bindE (decompress X cid stored (length encoded)) (\<lambda>enc.
      decode_values (b_kind b) e enc (b_rows b) bm)))"
    and "case bm of None \<Rightarrow> b_present b = None
       | Some bm \<Rightarrow> length (bm_bits bm) = (b_rows b + 7) div 8 \<and> bm_n bm = b_rows b
          \<and> (\<forall>j < b_rows b. sbit (bm_bits bm) j = present_at b j)"
proof -
  obtain st where st: "builder_stats b = Inr st"
    using builder_stats_ok [OF ok] by blast
  let ?flags = "\<lambda>bm. if bm \<noteq> None then flagHasNulls else 0"
  let ?chunk = "\<lambda>bm. chunk_bytes (b_kind b) e cid (?flags bm) (of_nat (b_rows b))
    (of_nat (length encoded)) (of_nat (length stored)) (null_section bm) (xxh64 X stored) stored"
  obtain bm where enc: "encode_chunk_bytes X (b_kind b) e cid b (length encoded) stored = Inr (?chunk bm)"
    and bm: "case bm of None \<Rightarrow> b_present b = None
       | Some bm \<Rightarrow> length (bm_bits bm) = (b_rows b + 7) div 8 \<and> bm_n bm = b_rows b
          \<and> (\<forall>j < b_rows b. sbit (bm_bits bm) j = present_at b j)"
    using encode_chunk_bytes_eq [OF ok, of X "b_kind b" e cid "length encoded" stored]
    by (elim exE conjE) (rule that)
  have bml: "case bm of None \<Rightarrow> True
      | Some b' \<Rightarrow> length (bm_bits b') = (b_rows b + 7) div 8 \<and> bm_n b' = b_rows b"
    using bm by (auto split: option.splits)
  have "length (null_section bm) \<le> 10 + 2 ^ 24"
  proof (cases bm)
    case (Some b')
    then show ?thesis
      using bml rows length_put_uvarint_le10 [of "of_nat (length (bm_bits b'))"]
      by (simp add: null_section_def)
  qed (simp add: null_section_def)
  then have sh: "short (?chunk bm)"
    using ls length_put_uvarint_le10 [of "of_nat (b_rows b)"]
      length_put_uvarint_le10 [of "of_nat (length encoded)"]
      length_put_uvarint_le10 [of "of_nat (length stored)"]
    by (simp add: short_def chunk_bytes_def)
  have u: "unat (of_nat (b_rows b) :: u64) = b_rows b" "unat (of_nat (length stored) :: u64) = length stored"
    "unat (of_nat (length encoded) :: u64) = length encoded"
    using rows ls lu by (simp_all add: unat_2p32)
  have r: "(of_nat (b_rows b) :: u64) \<le> MaxSegmentRows"
    and l: "(of_nat (length stored) :: u64) \<le> MaxChunkStored"
    using rows ls u by (simp_all add: word_le_nat_alt limit_defs)
  have "decode_chunk X (?chunk bm) =
    (if xxh64 X stored \<noteq> xxh64 X stored then Inl (Err BadChecksum)
     else bindE (check_decompress (of_nat (length stored)) (of_nat (length encoded))) (\<lambda>_.
          bindE (get_codec cid) (\<lambda>_.
          bindE (decompress X cid stored (unat (of_nat (length encoded) :: u64))) (\<lambda>enc.
          decode_values (b_kind b) e enc (unat (of_nat (b_rows b) :: u64)) bm))))"
  proof (rule decode_chunk_layout [OF refl sh r l u(2) [symmetric]])
    show "decode_presence (?flags bm) (unat (of_nat (b_rows b) :: u64)) (at_cursor pre (null_section bm @ rest))
        = Inr (bm, at_cursor (pre @ null_section bm) rest)"
      if "short (pre @ null_section bm @ rest)" for pre rest
      unfolding u(1) by (rule decode_presence_ok [OF rows that bml])
  qed
  then have "decode_chunk X (?chunk bm) =
      bindE (check_decompress (of_nat (length stored)) (of_nat (length encoded))) (\<lambda>_.
      bindE (get_codec cid) (\<lambda>_.
      bindE (decompress X cid stored (length encoded)) (\<lambda>enc.
      decode_values (b_kind b) e enc (b_rows b) bm)))"
    unfolding u by (simp only: simp_thms if_False)
  moreover have "builder_encode X entropy b = Inr (?chunk bm, st)"
    using st sem stage enc by (simp add: builder_encode_def)
  ultimately show ?thesis using that bm by blast
qed

lemma data_cells_eq:
  assumes "builder_ok b" and "case bm of None \<Rightarrow> b_present b = None
       | Some bm \<Rightarrow> length (bm_bits bm) = (b_rows b + 7) div 8 \<and> bm_n bm = b_rows b
          \<and> (\<forall>j < b_rows b. sbit (bm_bits bm) j = present_at b j)"
  defines "d \<equiv> \<lparr>d_Kind = b_kind b, d_Ints = b_ints b, d_Bytes = b_bytes b, d_Present = bm,
                 d_Rows = b_rows b\<rparr>"
  shows "data_ok d" and "data_cells d = builder_cells b"
proof -
  show ok: "data_ok d"
    using assms(1,2) by (auto simp: d_def data_ok_def builder_ok_def split: option.splits)
  have "data_cell d i = builder_cell b i" if "i < b_rows b" for i
  proof -
    have "is_null d i = Inr (\<not> present_at b i)"
      using data_ok_is_null [OF ok, of i] that assms(2)
      by (cases bm) (simp_all add: d_def present_at_def)
    then show ?thesis by (simp add: data_cell_def builder_cell_def d_def)
  qed
  then show "data_cells d = builder_cells b"
    by (simp add: data_cells_def builder_cells_def d_def)
qed

lemma builder_readback:
  assumes "builder_ok b" and "values_ok b"
    and "encode_semantic b = Inr (e, encoded)"
    and "entropy_stage X entropy encoded = (cid, stored)" and "within_limits stored encoded"
    and "\<And>c. entropy = Some c \<Longrightarrow> inverts X c encoded"
  shows "\<exists>chunk st d. builder_encode X entropy b = Inr (chunk, st) \<and> decode_chunk X chunk = Inr d
    \<and> data_ok d \<and> data_cells d = builder_cells b \<and> d_Kind d = b_kind b"
proof -
  have rows: "b_rows b \<le> 2 ^ 24" using assms(2) by (simp add: values_ok_def)
  have ls: "length stored \<le> 2 ^ 30" and lu: "length encoded \<le> 2 ^ 32"
    and ratio: "length stored = 0 \<or> length encoded div length stored \<le> 256"
    using assms(5) by (auto simp: within_limits_def)
  note dec = entropy_stage_decompress [OF assms(4,6)]
  have "check_decompress (of_nat (length stored)) (of_nat (length encoded)) = Inr ()"
    using ls lu ratio by (simp add: check_decompress_exact)
  moreover obtain chunk st bm where "builder_encode X entropy b = Inr (chunk, st)"
    and "decode_chunk X chunk =
      bindE (check_decompress (of_nat (length stored)) (of_nat (length encoded))) (\<lambda>_.
      bindE (get_codec cid) (\<lambda>_.
      bindE (decompress X cid stored (length encoded)) (\<lambda>enc.
      decode_values (b_kind b) e enc (b_rows b) bm)))"
    and "case bm of None \<Rightarrow> b_present b = None
       | Some bm \<Rightarrow> length (bm_bits bm) = (b_rows b + 7) div 8 \<and> bm_n bm = b_rows b
          \<and> (\<forall>j < b_rows b. sbit (bm_bits bm) j = present_at b j)"
    by (rule builder_encode_decode [OF assms(1) rows assms(3,4) ls lu])
  ultimately show ?thesis
    using dec decompress_known [OF dec] decode_values_ok [OF assms(1-3)]
      data_cells_eq [OF assms(1), of bm] by simp
qed

text \<open>
  C15: what a builder encodes, with any of the entropy codecs, \<open>DecodeChunk\<close> decodes to a
  vector with exactly the same cells, nulls included, provided the values and the sizes
  are within the ceilings of the decoder and the third-party compressor inverts itself.
\<close>

theorem builder_roundtrip:
  assumes "builder_ok b" and "values_ok b"
    and "encode_semantic b = Inr (e, encoded)"
    and "entropy_stage X entropy encoded = (cid, stored)" and "within_limits stored encoded"
    and "\<And>c. entropy = Some c \<Longrightarrow> inverts X c encoded"
  shows "\<exists>chunk st d. builder_encode X entropy b = Inr (chunk, st) \<and> decode_chunk X chunk = Inr d
    \<and> data_ok d \<and> data_cells d = builder_cells b"
  using builder_readback [OF assms] by blast

text \<open>A column of two rows, the second null.\<close>

definition sample_builder :: builder where
  "sample_builder = \<lparr>b_kind = KindBytes, b_ints = [], b_bytes = [[1, 2], []],
     b_present = Some [True, False], b_rows = 2\<rparr>"

lemma sample_semantic: "encode_semantic sample_builder = Inr (Raw, [2, 1, 2, 0])"
  by (simp add: encode_semantic_def sample_builder_def encode_bytes_auto_def select_bytes_def
        analyze_bytes_def bytes_step_def dictProbeLimit_def encode_raw_def put_value_def
        put_uvarint_small)

theorem builder_roundtrip_witness:
  "\<exists>chunk st d. builder_encode identity_externals (Some Zstd) sample_builder = Inr (chunk, st)
     \<and> decode_chunk identity_externals chunk = Inr d \<and> data_cells d = [BytesCell [1, 2], Null]"
proof -
  have "builder_cells sample_builder = [BytesCell [1, 2], Null]"
    by (simp add: builder_cells_def builder_cell_def present_at_def sample_builder_def upt_rec)
  moreover have "builder_ok sample_builder" "values_ok sample_builder"
    by (simp_all add: builder_ok_def values_ok_def sample_builder_def dict_bytes_ok_def value_ok_def
        limit_defs dict_collect_def table_size_def)
  moreover have "entropy_stage identity_externals (Some Zstd) [2, 1, 2, 0] = (CompNone, [2, 1, 2, 0])"
    by (simp add: entropy_stage_def compress_def zstd_compress_def identity_externals_def)
  moreover have "within_limits [2, 1, 2, 0] [2, 1, 2, 0]" by (simp add: within_limits_def)
  moreover have "inverts identity_externals Zstd [2, 1, 2, 0]"
    by (simp add: inverts_def zstd_inverts_def identity_externals_def)
  ultimately show ?thesis
    using builder_roundtrip [OF _ _ sample_semantic, of identity_externals "Some Zstd"] by fastforce
qed

text \<open>
  C38: the ratio ceiling of the decoder applies to chunks the builder itself writes: when the
  entropy codec shrinks the payload more than 256 times, the chunk is written without an
  error and \<open>DecodeChunk\<close> refuses it.
\<close>

theorem high_ratio_unreadable:
  assumes "builder_ok b" and "b_rows b \<le> 2 ^ 24"
    and "encode_semantic b = Inr (e, encoded)"
    and "entropy_stage X entropy encoded = (cid, stored)"
    and "length encoded \<le> 2 ^ 32" and "length stored \<le> 2 ^ 30"
    and "stored \<noteq> []" and "256 < length encoded div length stored"
  shows "\<exists>chunk st. builder_encode X entropy b = Inr (chunk, st)
    \<and> decode_chunk X chunk = Inl (Err LimitExceeded)"
proof -
  have "check_decompress (of_nat (length stored)) (of_nat (length encoded)) = Inl (Err LimitExceeded)"
    using assms(5-8) by (simp add: check_decompress_exact)
  moreover obtain chunk st bm where "builder_encode X entropy b = Inr (chunk, st)"
    and "decode_chunk X chunk =
      bindE (check_decompress (of_nat (length stored)) (of_nat (length encoded))) (\<lambda>_.
      bindE (get_codec cid) (\<lambda>_.
      bindE (decompress X cid stored (length encoded)) (\<lambda>enc.
      decode_values (b_kind b) e enc (b_rows b) bm)))"
    by (rule builder_encode_decode [OF assms(1-4,6,5)])
  ultimately show ?thesis by simp
qed

text \<open>A compressor that knows one input: a single value of a thousand zero bytes.\<close>

definition zeros :: bytes where "zeros = replicate 1000 0"

definition narrow_externals :: externals where
  "narrow_externals = identity_externals
     \<lparr>zstd_encode := \<lambda>b. if b = put_value zeros then [1] else 0 # b,
      zstd_decode := \<lambda>b. case b of [] \<Rightarrow> None
        | x # r \<Rightarrow> Some (if x = 1 then put_value zeros else r)\<rparr>"

definition zeros_builder :: builder where
  "zeros_builder = \<lparr>b_kind = KindBytes, b_ints = [], b_bytes = [zeros], b_present = None, b_rows = 1\<rparr>"

lemma length_zeros [simp]: "length zeros = 1000"
  by (simp add: zeros_def del: replicate.simps)

lemma zeros_semantic: "encode_semantic zeros_builder = Inr (Raw, put_value zeros)"
  by (simp add: encode_semantic_def zeros_builder_def encode_bytes_auto_def select_bytes_def
        analyze_bytes_def bytes_step_def dictProbeLimit_def encode_raw_def)

theorem high_ratio_unreadable_witness:
  "(\<forall>b. zstd_inverts narrow_externals b) \<and>
   (\<exists>chunk st. builder_encode narrow_externals (Some Zstd) zeros_builder = Inr (chunk, st)
     \<and> decode_chunk narrow_externals chunk = Inl (Err LimitExceeded))"
proof
  show "\<forall>b. zstd_inverts narrow_externals b"
    by (simp add: zstd_inverts_def narrow_externals_def)
  have l: "1000 \<le> length (put_value zeros)" "length (put_value zeros) \<le> 1010"
    using length_put_uvarint_le10 [of 1000] by (simp_all add: put_value_def)
  have "entropy_stage narrow_externals (Some Zstd) (put_value zeros) = (Zstd, [1])"
    using l by (simp add: entropy_stage_def compress_def zstd_compress_def narrow_externals_def)
  then show "\<exists>chunk st. builder_encode narrow_externals (Some Zstd) zeros_builder = Inr (chunk, st)
     \<and> decode_chunk narrow_externals chunk = Inl (Err LimitExceeded)"
    using high_ratio_unreadable [OF _ _ zeros_semantic, of narrow_externals "Some Zstd" Zstd "[1]"] l
    by (simp add: builder_ok_def zeros_builder_def)
qed

section \<open>Hostile bytes\<close>

lemma cursor_ok_new: "short raw \<Longrightarrow> cursor_ok (new_cursor raw)"
  by (simp add: cursor_ok_def new_cursor_def)

lemma cursor_ok_reads:
  assumes "cursor_ok c"
  shows "cursor_u8 c = (a, c') \<Longrightarrow> cursor_ok c'" "cursor_u64 c = (w, c') \<Longrightarrow> cursor_ok c'"
    "cursor_uvarint c = (v, c') \<Longrightarrow> cursor_ok c'" "cursor_bytes n c = Inr (bs, c') \<Longrightarrow> cursor_ok c'"
  using cursor_fwd_ok [OF _ assms] ext_u8 [OF assms] ext_u64 [OF assms] ext_uvarint [OF assms]
    ext_bytes [OF assms]
  by force+

lemma decode_presence_graceful:
  assumes "cursor_ok c" and "rows \<le> 2 ^ 24"
  shows "graceful (decode_presence flags rows c)"
proof -
  have "graceful (cursor_bytes (sint (of_nat ((rows + 7) div 8) :: u64)) c1)" if "cursor_ok c1" for c1
    using that assms(2) by (intro cursor_bytes_graceful) (simp_all add: sint_of_nat)
  then show ?thesis
    using cursor_ok_reads(3) [OF assms(1)]
    by (auto simp: decode_presence_def intro!: graceful_intros split: prod.split option.split)
qed

lemma decode_presence_post:
  assumes "cursor_ok c" and "decode_presence flags rows c = Inr (bm, c')"
  shows "cursor_ok c'"
    and "case bm of None \<Rightarrow> True | Some b \<Rightarrow> length (bm_bits b) = (rows + 7) div 8 \<and> bm_n b = rows"
  using assms cursor_ok_reads(3) [OF assms(1)] cursor_ok_reads(4)
  by (auto simp: decode_presence_def res_iff bitmap_from_bytes_def split: if_splits option.splits prod.splits)

lemma decode_values_safe:
  assumes "case bm of None \<Rightarrow> True | Some b \<Rightarrow> length (bm_bits b) = (rows + 7) div 8 \<and> bm_n b = rows"
  shows "decode_values kind encID encoded rows bm \<noteq> Inl Panic"
    and "decode_values kind encID encoded rows bm = Inl OutOfMemory \<Longrightarrow> encID = RLEInt \<or> encID = RLEBytes"
    and "decode_values kind encID encoded rows bm = Inr d \<Longrightarrow> data_ok d \<and> d_Rows d = rows"
  using assms decode_ints_no_panic [of encID encoded "int rows"] decode_bytes_no_panic [of encID encoded "int rows"]
    decode_ints_memory [of encID encoded "int rows"] decode_bytes_memory [of encID encoded "int rows"]
    decode_ints_length [of encID encoded "int rows"] decode_bytes_length [of encID encoded "int rows"]
  by (cases bm; auto simp: decode_values_def Let_def bindE_Inl_iff res_iff data_ok_def split: if_splits)+

text \<open>The outcomes \<open>DecodeChunk\<close> may have on a chunk with the given codec identifier.\<close>

definition chunk_outcome :: "enc_id \<Rightarrow> data res \<Rightarrow> bool" where
  "chunk_outcome e r \<longleftrightarrow> r \<noteq> Inl Panic \<and> (r = Inl OutOfMemory \<longrightarrow> e = RLEInt \<or> e = RLEBytes)
     \<and> (\<forall>d. r = Inr d \<longrightarrow> data_ok d \<and> d_Rows d \<le> 2 ^ 24)"

lemma outcome_bind:
  "graceful m \<Longrightarrow> (\<And>x. m = Inr x \<Longrightarrow> chunk_outcome e (f x)) \<Longrightarrow> chunk_outcome e (bindE m f)"
  by (cases m) (auto simp: chunk_outcome_def graceful_def)

lemma outcome_Err: "chunk_outcome e (Inl (Err s))"
  by (simp add: chunk_outcome_def)

lemma decode_chunk_tail:
  assumes "cursor_ok c4"
  shows "chunk_outcome encID
     (case cursor_uvarint c4 of (rows64, c5) \<Rightarrow>
      case cursor_uvarint c5 of (uncompressedLen, c6) \<Rightarrow>
      case cursor_uvarint c6 of (storedLen, c7) \<Rightarrow>
      bindE (cursor_check c7) (\<lambda>_.
      bindE (check_count rows64 MaxSegmentRows) (\<lambda>_.
      let rows = unat rows64 in
      bindE (decode_presence flags rows c7) (\<lambda>(present, c8).
      case cursor_u64 c8 of (checksum, c9) \<Rightarrow>
      bindE (check_count storedLen MaxChunkStored) (\<lambda>_.
      bindE (cursor_bytes (sint storedLen) c9) (\<lambda>(stored, c10).
      bindE (cursor_check c10) (\<lambda>_.
      if xxh64 X stored \<noteq> checksum then Inl (Err BadChecksum)
      else bindE (check_decompress storedLen uncompressedLen) (\<lambda>_.
           bindE (get_codec compID) (\<lambda>_.
           bindE (decompress X compID stored (unat uncompressedLen)) (\<lambda>encoded.
           decode_values kind encID encoded rows present))))))))))"
proof -
  obtain rows64 c5 where c5: "cursor_uvarint c4 = (rows64, c5)" by (cases "cursor_uvarint c4")
  obtain u c6 where c6: "cursor_uvarint c5 = (u, c6)" by (cases "cursor_uvarint c5")
  obtain s c7 where c7: "cursor_uvarint c6 = (s, c7)" by (cases "cursor_uvarint c6")
  have ok7: "cursor_ok c7"
    using assms cursor_ok_reads(3) c5 c6 c7 by blast
  have outcome: "chunk_outcome encID (decode_values kind encID enc (unat rows64) bm)"
    if "rows64 \<le> MaxSegmentRows" and "decode_presence flags (unat rows64) c7 = Inr (bm, c8)" for enc bm c8
    using decode_values_safe [OF decode_presence_post(2) [OF ok7 that(2)], of kind encID enc] that(1)
    by (auto simp: chunk_outcome_def word_le_nat_alt limit_defs)
  have codec: "graceful (get_codec compID)" by (simp add: get_codec_def)
  have bytes: "graceful (cursor_bytes (sint s) c9)" if "cursor_ok c9" "s \<le> MaxChunkStored" for c9
  proof (rule cursor_bytes_graceful [OF that(1)])
    have "uint s \<le> 2 ^ 30" using that(2) by (simp add: word_le_def limit_defs)
    moreover have "sint s = uint s"
      using sint_small [of s] that(2) by (simp add: limit_defs)
    ultimately show "sint s < 2 ^ 62" by simp
  qed
  have tail: "chunk_outcome encID
     (case cursor_u64 c8 of (checksum, c9) \<Rightarrow>
      bindE (check_count s MaxChunkStored) (\<lambda>_.
      bindE (cursor_bytes (sint s) c9) (\<lambda>(stored, c10).
      bindE (cursor_check c10) (\<lambda>_.
      if xxh64 X stored \<noteq> checksum then Inl (Err BadChecksum)
      else bindE (check_decompress s u) (\<lambda>_.
           bindE (get_codec compID) (\<lambda>_.
           bindE (decompress X compID stored (unat u)) (\<lambda>encoded.
           decode_values kind encID encoded (unat rows64) bm)))))))"
    if r: "rows64 \<le> MaxSegmentRows" and p: "decode_presence flags (unat rows64) c7 = Inr (bm, c8)"
    for bm c8
  proof -
    obtain ck c9 where c9: "cursor_u64 c8 = (ck, c9)" by (cases "cursor_u64 c8")
    have "cursor_ok c9"
      using cursor_ok_reads(2) [OF decode_presence_post(1) [OF ok7 p] c9] .
    then show ?thesis
      using outcome [OF r p] codec bytes
      by (auto simp: c9 res_iff intro!: outcome_bind outcome_Err dispatch.crash_free split: prod.split)
  qed
  have pres: "graceful (decode_presence flags (unat rows64) c7)" if "rows64 \<le> MaxSegmentRows"
    using that by (intro decode_presence_graceful [OF ok7]) (simp add: word_le_nat_alt limit_defs)
  show ?thesis
    unfolding c5 c6 c7 prod.case Let_def
    by (rule outcome_bind, simp, rule outcome_bind, simp, rule outcome_bind)
       (auto simp: res_iff pres tail split: prod.split)
qed

lemma latched_reads:
  assumes "c_err c \<noteq> None"
  shows "cursor_u8 c = (0, c)" "cursor_uvarint c = (0, c)"
  using assms by (simp_all add: cursor_u8_def cursor_uvarint_def)

lemma decode_chunk_tiny:
  assumes "length raw < 2"
  shows "decode_chunk X raw = Inl (Err Truncated)"
proof -
  obtain b c where b: "cursor_u8 (new_cursor raw) = (b, c)" by (cases "cursor_u8 (new_cursor raw)")
  obtain b' c' where b': "cursor_u8 c = (b', c')" by (cases "cursor_u8 c")
  have "c_err c' = Some Truncated"
    using assms b b' wrap_int_id [of 1] wrap_int_id [of 2]
    by (cases raw; cases "tl raw")
       (auto simp: cursor_u8_def cursor_have_def new_cursor_def cursor_fail_def split: if_splits)
  then show ?thesis
    by (simp add: decode_chunk_def b b' latched_reads cursor_check_def)
qed

lemma decode_chunk_outcome:
  assumes "short raw"
  shows "chunk_outcome (if length raw < 2 then Raw else raw ! 1) (decode_chunk X raw)"
proof (cases "length raw < 2")
  case True
  then show ?thesis by (simp add: decode_chunk_tiny outcome_Err)
next
  case False
  then obtain k e rest where raw: "raw = k # e # rest"
    by (metis One_nat_def Suc_1 length_Cons less_Suc0 list.exhaust list.size(3) not_less_eq zero_less_Suc)
  obtain comp c3 where c3: "cursor_u8 (at_cursor [k, e] rest) = (comp, c3)"
    by (cases "cursor_u8 (at_cursor [k, e] rest)")
  obtain fl c4 where c4: "cursor_u8 c3 = (fl, c4)" by (cases "cursor_u8 c3")
  have "cursor_ok (at_cursor [k, e] rest)"
    using assms by (simp add: cursor_ok_def raw)
  then have "cursor_ok c4" using cursor_ok_reads(1) c3 c4 by blast
  from decode_chunk_tail [OF this] show ?thesis
    using assms by (simp add: decode_chunk_def raw cursor_run c3 c4)
qed



text \<open>
  A chunk whose stored payload does not have the checksum of its header is refused
  before anything is decompressed.
\<close>

theorem decode_chunk_checksum:
  assumes "raw = chunk_bytes kind encID compID 0 r u s [] ck stored" and "length raw < 2 ^ 62"
    and "r \<le> MaxSegmentRows" and "s \<le> MaxChunkStored" and "length stored = unat s"
    and "xxh64 X stored \<noteq> ck"
  shows "decode_chunk X raw = Inl (Err BadChecksum)"
  using decode_chunk_layout [OF assms(1) _ assms(3-5), of None X] assms(2,6)
  by (simp add: short_def decode_presence_def)

theorem decode_chunk_checksum_witness:
  "decode_chunk identity_externals (chunk_bytes KindInt Plain CompNone 0 1 8 8 [] 9 (le64 5))
     = Inl (Err BadChecksum)"
proof (rule decode_chunk_checksum [OF refl])
  show "length (chunk_bytes KindInt Plain CompNone 0 1 8 8 [] 9 (le64 5)) < 2 ^ 62"
    using length_put_uvarint_le10 [of 1] length_put_uvarint_le10 [of 8]
    by (simp add: chunk_bytes_def)
qed (simp_all add: limit_defs identity_externals_def)

end
