(* ===== verification/Crc.thy ===== *)
theory Crc
  imports Prelude
begin

text \<open>
  The Castagnoli CRC of \<open>internal/util/hash.go\<close> (Go's \<open>hash/crc32\<close> with the
  polynomial \<open>0x82F63B78\<close>), computed bit by bit; the table-driven code of the standard
  library computes the same function. The round on the register is injective, so two
  strings of equal length that differ in exactly one byte have different checksums.
\<close>

unbundle bit_operations_syntax

definition castagnoli :: u32 where "castagnoli = 0x82F63B78"

definition crc_round :: "u32 \<Rightarrow> u32" where
  "crc_round s = (if s AND 1 = 1 then drop_bit 1 s XOR castagnoli else drop_bit 1 s)"

definition crc_byte :: "u32 \<Rightarrow> byte \<Rightarrow> u32" where
  "crc_byte s b = (crc_round ^^ 8) (s XOR ucast b)"

definition crc32c :: "bytes \<Rightarrow> u32" where
  "crc32c b = NOT (foldl crc_byte 0xFFFFFFFF b)"

lemma xor_right_cancel: "(a :: 'a::len word) XOR c = b XOR c \<Longrightarrow> a = b"
  by (metis xor.assoc xor.right_neutral xor_self_eq)

lemma ucast_byte_inj: "(ucast (b :: byte) :: u32) = ucast c \<Longrightarrow> b = c"
proof -
  assume eq: "(ucast b :: u32) = ucast c"
  have "bit b j \<longleftrightarrow> bit c j" if "j < 8" for j
    using arg_cong [OF eq, of "\<lambda>w. bit w j"] that by (simp add: bit_ucast_iff)
  then show "b = c"
    by (auto intro: word_eq_by_bits)
qed

lemma and_1_odd: "(s :: u32) AND 1 = 1 \<longleftrightarrow> odd s"
  by (simp add: and_one_eq mod_2_eq_odd)

lemma bit31_castagnoli: "bit castagnoli 31"
  by (simp add: castagnoli_def)

lemma crc_round_inj: "inj crc_round"
proof (rule injI)
  fix s t :: u32
  assume eq: "crc_round s = crc_round t"
  have top: "bit (crc_round u) 31 \<longleftrightarrow> odd u" for u
    using bit_imp_le_length [of u 32] bit31_castagnoli
    by (auto simp: crc_round_def and_1_odd bit_xor_iff bit_drop_bit_eq)
  have low: "odd s = odd t"
    using top [of s] top [of t] eq by simp
  then have high: "drop_bit 1 s = drop_bit 1 t"
    using eq by (auto simp: crc_round_def and_1_odd split: if_splits dest: xor_right_cancel)
  show "s = t"
  proof (rule word_eq_by_bits)
    fix j
    have "bit s j \<longleftrightarrow> bit t j" if "j = Suc k" for k
      using arg_cong [OF high, of "\<lambda>w. bit w k"] that by (simp only: bit_drop_bit_eq comp_def) simp
    then show "bit s j \<longleftrightarrow> bit t j"
      using low by (cases j) (auto simp: bit_0)
  qed
qed

lemma crc_byte_inj_state: "crc_byte s b = crc_byte t b \<Longrightarrow> s = t"
proof -
  assume "crc_byte s b = crc_byte t b"
  then have "s XOR ucast b = t XOR ucast b"
    using inj_fn [OF crc_round_inj, of 8] by (auto simp: crc_byte_def dest: injD)
  then show "s = t" by (rule xor_right_cancel)
qed

lemma crc_byte_inj_byte: "crc_byte s b = crc_byte s c \<Longrightarrow> b = c"
proof -
  assume "crc_byte s b = crc_byte s c"
  then have "s XOR ucast b = s XOR ucast c"
    using inj_fn [OF crc_round_inj, of 8] by (auto simp: crc_byte_def dest: injD)
  then have "(ucast b :: u32) XOR s = ucast c XOR s"
    by (simp add: xor.commute)
  then show "b = c"
    by (rule ucast_byte_inj [OF xor_right_cancel])
qed

lemma crc_fold_inj: "foldl crc_byte s bs = foldl crc_byte t bs \<Longrightarrow> s = t"
  by (induction bs arbitrary: s t) (auto dest: crc_byte_inj_state)

text \<open>
  Changing any single byte of a string changes its CRC32C.
\<close>

lemma crc32c_detects_byte:
  assumes "b \<noteq> c"
  shows "crc32c (pre @ b # post) \<noteq> crc32c (pre @ c # post)"
proof
  assume "crc32c (pre @ b # post) = crc32c (pre @ c # post)"
  then have "NOT (crc32c (pre @ b # post)) = NOT (crc32c (pre @ c # post))"
    by simp
  then have "crc_byte (foldl crc_byte 0xFFFFFFFF pre) b = crc_byte (foldl crc_byte 0xFFFFFFFF pre) c"
    by (auto simp: crc32c_def dest: crc_fold_inj)
  then show False
    using assms by (auto dest: crc_byte_inj_byte)
qed

lemma crc_byte_unfold:
  "crc_byte s b = crc_round (crc_round (crc_round (crc_round
     (crc_round (crc_round (crc_round (crc_round (s XOR ucast b))))))))"
  by (simp add: crc_byte_def eval_nat_numeral)

lemma crc32c_check_value:
  "crc32c [0x31, 0x32, 0x33, 0x34, 0x35, 0x36, 0x37, 0x38, 0x39] = 0xE3069283"
  by (simp add: crc32c_def crc_byte_unfold crc_round_def castagnoli_def)

end
