(* ===== verification/Format.thy ===== *)
theory Format
  imports Schema Crc
begin

text \<open>
  The container framing of \<open>internal/format\<close>: the fixed header (\<open>header.go\<close>), the footer
  with its directory of segments and columns (\<open>footer.go\<close>), and the backward scan that
  recovers the latest footer of a truncated file (\<open>recover.go\<close>). The 16-byte array of the
  writer's identity is a byte list; timestamps are 64-bit words read as \<open>int64\<close>.
  \<open>Append\<close> indexes the schema by the position of a column in its segment, which panics
  when a segment has more columns than the schema.
\<close>

definition Magic :: bytes where "Magic = [0x4E, 0x54, 0x43, 0x46]"

definition HeaderSize :: nat where "HeaderSize = 36"

definition footerTrailer :: nat where "footerTrailer = 12"

definition supports_format :: "u16 \<Rightarrow> bool" where
  "supports_format v \<longleftrightarrow> 1 \<le> v \<and> v \<le> 1"

section \<open>Header\<close>

record header =
  h_Version :: u16
  h_Flags :: u16
  h_Created :: u64
  h_WriterID :: bytes

definition append_header :: "bytes \<Rightarrow> header \<Rightarrow> bytes" where
  "append_header dst h =
     (let out = dst @ Magic @ le16 (h_Version h) @ le16 (h_Flags h) @ le64 (h_Created h)
                  @ h_WriterID h
      in out @ le32 (crc32c (drop (length dst) out)))"

definition read_header :: "bytes \<Rightarrow> header res" where
  "read_header buf =
     (if length buf < HeaderSize then Inl (Err Truncated)
      else bindE (slice_range buf 0 (HeaderSize - 4)) (\<lambda>body.
           bindE (slice_range buf (HeaderSize - 4) HeaderSize) (\<lambda>crc.
           if crc32c body \<noteq> le_word crc then Inl (Err BadChecksum)
           else bindE (cursor_magic Magic (new_cursor body)) (\<lambda>c1.
             case cursor_u16 c1 of (ver, c2) \<Rightarrow>
             case cursor_u16 c2 of (flags, c3) \<Rightarrow>
             case cursor_u64 c3 of (created, c4) \<Rightarrow>
             bindE (cursor_bytes 16 c4) (\<lambda>(wid, c5).
             bindE (cursor_check c5) (\<lambda>_.
             if \<not> supports_format ver then Inl (Err UnsupportedVersion)
             else Inr \<lparr>h_Version = ver, h_Flags = flags, h_Created = created,
                        h_WriterID = wid\<rparr>))))))"

section \<open>Footer\<close>

record column_dir =
  cd_ChunkOffset :: u64
  cd_ChunkLength :: u64
  cd_IndexOffset :: u64
  cd_IndexLength :: u64
  cd_HasNulls :: bool
  cd_NonNull :: u64
  cd_MinInt :: u64
  cd_MaxInt :: u64
  cd_MinBytes :: bytes
  cd_MaxBytes :: bytes

record segment_dir =
  sd_Offset :: u64
  sd_Length :: u64
  sd_Rows :: u64
  sd_MinTS :: u64
  sd_MaxTS :: u64
  sd_Columns :: "column_dir list"

record footer =
  f_Schema :: schema
  f_SourceType :: bytes
  f_TotalRows :: u64
  f_MinTS :: u64
  f_MaxTS :: u64
  f_Segments :: "segment_dir list"

definition append_column_dir :: "kind \<Rightarrow> column_dir \<Rightarrow> bytes" where
  "append_column_dir k cd =
     le64 (cd_ChunkOffset cd) @ le64 (cd_ChunkLength cd) @ le64 (cd_IndexOffset cd)
       @ le64 (cd_IndexLength cd) @ [if cd_HasNulls cd then 1 else 0] @ put_uvarint (cd_NonNull cd)
       @ (if k = KindInt then le64 (cd_MinInt cd) @ le64 (cd_MaxInt cd)
          else put_string (cd_MinBytes cd) @ put_string (cd_MaxBytes cd))"

definition append_segment :: "schema \<Rightarrow> segment_dir \<Rightarrow> bytes res" where
  "append_segment sch sd =
     bindE (mapE (\<lambda>j. bindE (index_at (sch_Columns sch) j) (\<lambda>c.
              Inr (append_column_dir (type_kind (col_Type c)) (sd_Columns sd ! j))))
            [0..<length (sd_Columns sd)]) (\<lambda>cols.
     Inr (le64 (sd_Offset sd) @ le64 (sd_Length sd) @ put_uvarint (sd_Rows sd)
       @ le64 (sd_MinTS sd) @ le64 (sd_MaxTS sd)
       @ put_uvarint (of_nat (length (sd_Columns sd))) @ concat cols))"

definition append_footer :: "bytes \<Rightarrow> footer \<Rightarrow> bytes res" where
  "append_footer dst f =
     bindE (mapE (append_segment (f_Schema f)) (f_Segments f)) (\<lambda>segs.
       let body = append_descriptor (f_Schema f) @ put_string (f_SourceType f)
                    @ le64 (f_TotalRows f) @ le64 (f_MinTS f) @ le64 (f_MaxTS f)
                    @ put_uvarint (of_nat (length (f_Segments f))) @ concat segs
       in Inr (dst @ body @ le32 (of_nat (length body)) @ le32 (crc32c body) @ Magic))"

definition read_column_dir :: "kind \<Rightarrow> cursor \<Rightarrow> (column_dir \<times> cursor) res" where
  "read_column_dir k c =
     (case cursor_u64 c of (co, c1) \<Rightarrow>
      case cursor_u64 c1 of (cl, c2) \<Rightarrow>
      case cursor_u64 c2 of (io, c3) \<Rightarrow>
      case cursor_u64 c3 of (il, c4) \<Rightarrow>
      case cursor_u8 c4 of (flags, c5) \<Rightarrow>
      case cursor_uvarint c5 of (nn, c6) \<Rightarrow>
      let cd = \<lparr>cd_ChunkOffset = co, cd_ChunkLength = cl, cd_IndexOffset = io, cd_IndexLength = il,
                cd_HasNulls = flags AND 1 \<noteq> 0, cd_NonNull = nn, cd_MinInt = 0, cd_MaxInt = 0,
                cd_MinBytes = [], cd_MaxBytes = []\<rparr> in
      if k = KindInt then
        (case cursor_u64 c6 of (mn, c7) \<Rightarrow>
         case cursor_u64 c7 of (mx, c8) \<Rightarrow>
         Inr (cd\<lparr>cd_MinInt := mn, cd_MaxInt := mx\<rparr>, c8))
      else
        bindE (read_string MaxBytesValue c6) (\<lambda>(mn, c7).
        bindE (read_string MaxBytesValue c7) (\<lambda>(mx, c8).
        Inr (cd\<lparr>cd_MinBytes := mn, cd_MaxBytes := mx\<rparr>, c8))))"

text \<open>The column loop runs over as many columns as the schema has, so it is indexed by them.\<close>

fun read_column_dirs :: "column_def list \<Rightarrow> cursor \<Rightarrow> (column_dir list \<times> cursor) res" where
  "read_column_dirs [] c = Inr ([], c)"
| "read_column_dirs (d # ds) c =
     bindE (read_column_dir (type_kind (col_Type d)) c) (\<lambda>(cd, c1).
     bindE (read_column_dirs ds c1) (\<lambda>(cds, c2). Inr (cd # cds, c2)))"

definition read_segment :: "schema \<Rightarrow> cursor \<Rightarrow> (segment_dir \<times> cursor) res" where
  "read_segment sch c =
     (case cursor_u64 c of (off, c1) \<Rightarrow>
      case cursor_u64 c1 of (len, c2) \<Rightarrow>
      case cursor_uvarint c2 of (rows, c3) \<Rightarrow>
      case cursor_u64 c3 of (mn, c4) \<Rightarrow>
      case cursor_u64 c4 of (mx, c5) \<Rightarrow>
      case cursor_uvarint c5 of (colCount, c6) \<Rightarrow>
      if colCount \<noteq> of_nat (length (sch_Columns sch)) then Inl (Err Corrupt)
      else bindE (read_column_dirs (sch_Columns sch) c6) (\<lambda>(cols, c7).
        Inr (\<lparr>sd_Offset = off, sd_Length = len, sd_Rows = rows, sd_MinTS = mn, sd_MaxTS = mx,
               sd_Columns = cols\<rparr>, c7)))"

fun read_segments :: "schema \<Rightarrow> nat \<Rightarrow> cursor \<Rightarrow> (segment_dir list \<times> cursor) res" where
  "read_segments sch 0 c = Inr ([], c)"
| "read_segments sch (Suc k) c =
     bindE (read_segment sch c) (\<lambda>(sd, c1).
     bindE (read_segments sch k c1) (\<lambda>(sds, c2). Inr (sd # sds, c2)))"

definition read_footer_body :: "cursor \<Rightarrow> (footer \<times> cursor) res" where
  "read_footer_body c =
     bindE (read_descriptor c) (\<lambda>(sch, c1).
     bindE (read_string 4096 c1) (\<lambda>(st, c2).
     case cursor_u64 c2 of (rows, c3) \<Rightarrow>
     case cursor_u64 c3 of (mn, c4) \<Rightarrow>
     case cursor_u64 c4 of (mx, c5) \<Rightarrow>
     case cursor_uvarint c5 of (segCount, c6) \<Rightarrow>
     bindE (check_count segCount MaxSegments) (\<lambda>_.
     bindE (cursor_check c6) (\<lambda>_.
     bindE (read_segments sch (unat segCount) c6) (\<lambda>(segs, c7).
     bindE (cursor_check c7) (\<lambda>_.
       Inr (\<lparr>f_Schema = sch, f_SourceType = st, f_TotalRows = rows, f_MinTS = mn, f_MaxTS = mx,
              f_Segments = segs\<rparr>, c7)))))))"

definition read_footer :: "bytes \<Rightarrow> footer res" where
  "read_footer file =
     (let n = length file in
      if n < HeaderSize + footerTrailer then Inl (Err Truncated)
      else bindE (slice_range file (n - 4) n) (\<lambda>magic.
      if magic \<noteq> Magic then Inl (Err BadMagic)
      else bindE (slice_range file (n - 12) (n - 8)) (\<lambda>lenb.
           bindE (slice_range file (n - 8) (n - 4)) (\<lambda>crcb.
           let bodyLen = (le_word lenb :: u32); bodyEnd = n - footerTrailer in
           bindE (check_count (ucast bodyLen) MaxFooterSize) (\<lambda>_.
           if bodyEnd - HeaderSize < unat bodyLen then Inl (Err Corrupt)
           else bindE (slice_range file (bodyEnd - unat bodyLen) bodyEnd) (\<lambda>body.
             if crc32c body \<noteq> le_word crcb then Inl (Err BadChecksum)
             else bindE (read_footer_body (new_cursor body)) (\<lambda>(f, _). Inr f)))))))"

section \<open>Recovery\<close>

definition try_footer_at :: "bytes \<Rightarrow> nat \<Rightarrow> footer res" where
  "try_footer_at file end =
     (if end < HeaderSize + footerTrailer then Inl (Err Truncated)
      else bindE (slice_range file (end - 12) (end - 8)) (\<lambda>lenb.
        let bodyLen = (le_word lenb :: u32); bodyEnd = end - footerTrailer in
        if MaxFooterSize < ucast bodyLen then Inl (Err LimitExceeded)
        else if bodyEnd - HeaderSize < unat bodyLen then Inl (Err Corrupt)
        else bindE (slice_range file 0 end) read_footer))"

text \<open>\<open>for end := n; end >= minEnd; end--\<close>; the four bytes are compared one by one.\<close>

fun recover_loop :: "bytes \<Rightarrow> nat \<Rightarrow> footer res" where
  "recover_loop file 0 = Inl (Err Corrupt)"
| "recover_loop file (Suc e) =
     (if Suc e < HeaderSize + footerTrailer then Inl (Err Corrupt)
      else bindE (slice_range file (Suc e - 4) (Suc e)) (\<lambda>m.
        if m \<noteq> Magic then recover_loop file e
        else case try_footer_at file (Suc e) of
               Inr f \<Rightarrow> Inr f
             | Inl err \<Rightarrow> if graceful (Inl err :: footer res) then recover_loop file e else Inl err))"

definition recover_footer :: "bytes \<Rightarrow> footer res" where
  "recover_footer file = recover_loop file (length file)"

section \<open>Header: round trip and corruption\<close>

lemma length_Magic [simp]: "length Magic = 4"
  by (simp add: Magic_def)

definition header_body :: "header \<Rightarrow> bytes" where
  "header_body h = Magic @ le16 (h_Version h) @ le16 (h_Flags h) @ le64 (h_Created h) @ h_WriterID h"

lemma append_header_eq: "append_header dst h = dst @ header_body h @ le32 (crc32c (header_body h))"
  by (simp add: append_header_def header_body_def)

lemma magic_at_cursor [cursor_run]:
  assumes "short (pre @ want @ rest)"
  shows "cursor_magic want (at_cursor pre (want @ rest)) = Inr (at_cursor (pre @ want) rest)"
  using bytes_at_cursor [OF assms refl] by (simp add: cursor_magic_def)

lemma read_header_layout:
  assumes "length body = 32"
  shows "read_header (body @ le32 crc @ rest) =
    (if crc32c body \<noteq> crc then Inl (Err BadChecksum)
     else bindE (cursor_magic Magic (new_cursor body)) (\<lambda>c1.
             case cursor_u16 c1 of (ver, c2) \<Rightarrow>
             case cursor_u16 c2 of (flags, c3) \<Rightarrow>
             case cursor_u64 c3 of (created, c4) \<Rightarrow>
             bindE (cursor_bytes 16 c4) (\<lambda>(wid, c5).
             bindE (cursor_check c5) (\<lambda>_.
             if \<not> supports_format ver then Inl (Err UnsupportedVersion)
             else Inr \<lparr>h_Version = ver, h_Flags = flags, h_Created = created,
                        h_WriterID = wid\<rparr>))))"
  using assms by (simp add: read_header_def HeaderSize_def)

lemma header_readback:
  assumes "supports_format (h_Version h)" and "length (h_WriterID h) = 16"
  shows "read_header (append_header [] h @ rest) = Inr h"
proof -
  have len: "length (header_body h) = 32" using assms(2) by (simp add: header_body_def)
  then have sh: "short (Magic @ le16 (h_Version h) @ le16 (h_Flags h) @ le64 (h_Created h) @ h_WriterID h)"
    by (simp add: short_def header_body_def)
  have m: "cursor_magic Magic (at_cursor [] (Magic @ le16 (h_Version h) @ le16 (h_Flags h)
        @ le64 (h_Created h) @ h_WriterID h))
      = Inr (at_cursor Magic (le16 (h_Version h) @ le16 (h_Flags h) @ le64 (h_Created h) @ h_WriterID h))"
    using magic_at_cursor [of "[]" Magic] sh by simp
  have w: "cursor_bytes 16 (at_cursor (Magic @ le16 (h_Version h) @ le16 (h_Flags h) @ le64 (h_Created h))
        (h_WriterID h))
      = Inr (h_WriterID h, at_cursor (Magic @ le16 (h_Version h) @ le16 (h_Flags h)
          @ le64 (h_Created h) @ h_WriterID h) [])"
    using bytes_at_cursor [of "Magic @ le16 (h_Version h) @ le16 (h_Flags h) @ le64 (h_Created h)"
        "h_WriterID h" "[]" 16] sh assms(2) by simp
  have "read_header (header_body h @ le32 (crc32c (header_body h)) @ rest) = Inr h"
    using sh m w assms(1)
    by (subst read_header_layout [OF len])
       (simp add: header_body_def new_cursor_at u16_at_cursor u64_at_cursor)
  then show ?thesis by (simp add: append_header_eq)
qed

text \<open>
  A header of a supported version is read back exactly from the start of a file,
  whatever follows it.
\<close>

theorem header_roundtrip:
  assumes "supports_format (h_Version h)" and "length (h_WriterID h) = 16"
  shows "read_header (append_header [] h @ rest) = Inr h"
  using assms by (rule header_readback)

definition sample_header :: header where
  "sample_header = \<lparr>h_Version = 1, h_Flags = 0, h_Created = 5, h_WriterID = replicate 16 7\<rparr>"

theorem header_roundtrip_witness:
  "read_header (append_header [] sample_header @ [1, 2]) = Inr sample_header"
  by (rule header_roundtrip) (simp_all add: sample_header_def supports_format_def)

text \<open>
  A change of any one byte of a header, its checksum aside, is detected: the file is
  refused with a checksum error.
\<close>

theorem header_corruption_detected:
  assumes "header_body h = pre @ b # post" and "b' \<noteq> b" and "length (h_WriterID h) = 16"
  shows "read_header (pre @ b' # post @ le32 (crc32c (header_body h)) @ rest)
     = Inl (Err BadChecksum)"
proof -
  have "length (pre @ b' # post) = 32"
  proof -
    have "length (header_body h) = 32" by (simp add: header_body_def assms(3))
    moreover have "length (header_body h) = length (pre @ b # post)" by (simp only: assms(1))
    ultimately show ?thesis by simp
  qed
  from read_header_layout [OF this, of "crc32c (header_body h)" rest]
  show ?thesis
    using crc32c_detects_byte [OF assms(2), of pre post] assms(1) by simp
qed

theorem header_corruption_detected_witness:
  "read_header ([0x4E, 0x54, 0x43, 0x47] @ le16 1 @ le16 0 @ le64 5 @ replicate 16 7
     @ le32 (crc32c (header_body sample_header))) = Inl (Err BadChecksum)"
  using header_corruption_detected [where h = sample_header and pre = "[0x4E, 0x54, 0x43]"
      and b = "0x46" and post = "le16 1 @ le16 0 @ le64 5 @ replicate 16 7" and b' = "0x47" and rest = "[]"]
  by (simp add: header_body_def sample_header_def Magic_def)

section \<open>Footer: round trip\<close>

text \<open>What the reader demands of a footer and the writer does not check.\<close>

definition column_dir_ok :: "kind \<Rightarrow> column_dir \<Rightarrow> bool" where
  "column_dir_ok k cd \<longleftrightarrow>
     (if k = KindInt then cd_MinBytes cd = [] \<and> cd_MaxBytes cd = []
      else cd_MinInt cd = 0 \<and> cd_MaxInt cd = 0
        \<and> length (cd_MinBytes cd) \<le> unat MaxBytesValue \<and> length (cd_MaxBytes cd) \<le> unat MaxBytesValue)"

definition segment_ok :: "schema \<Rightarrow> segment_dir \<Rightarrow> bool" where
  "segment_ok sch sd \<longleftrightarrow>
     list_all2 (\<lambda>d cd. column_dir_ok (type_kind (col_Type d)) cd) (sch_Columns sch) (sd_Columns sd)"

definition footer_ok :: "footer \<Rightarrow> bool" where
  "footer_ok f \<longleftrightarrow> validate (f_Schema f) = Inr () \<and> names_fit (f_Schema f)
     \<and> length (f_SourceType f) \<le> 4096 \<and> length (f_Segments f) \<le> unat MaxSegments
     \<and> list_all (segment_ok (f_Schema f)) (f_Segments f)"

lemma limit_small [simp]: "MaxBytesValue \<le> 1073741824"
  by (simp add: limit_defs)

lemma read_column_dir_at:
  assumes sh: "short (pre @ append_column_dir k cd @ rest)" and ok: "column_dir_ok k cd"
  shows "read_column_dir k (at_cursor pre (append_column_dir k cd @ rest))
     = Inr (cd, at_cursor (pre @ append_column_dir k cd) rest)"
proof (cases "k = KindInt")
  case True
  then show ?thesis
    using sh ok by (simp add: read_column_dir_def append_column_dir_def column_dir_ok_def Let_def
        u64_at_cursor u8_at_cursor uvarint_at_cursor)
next
  case False
  let ?fix = "le64 (cd_ChunkOffset cd) @ le64 (cd_ChunkLength cd) @ le64 (cd_IndexOffset cd)
       @ le64 (cd_IndexLength cd) @ [if cd_HasNulls cd then 1 else 0] @ put_uvarint (cd_NonNull cd)"
  have sh': "short ((pre @ ?fix) @ put_string (cd_MinBytes cd) @ put_string (cd_MaxBytes cd) @ rest)"
    using sh False by (simp add: append_column_dir_def split del: if_split)
  have "read_string MaxBytesValue (at_cursor (pre @ ?fix)
        (put_string (cd_MinBytes cd) @ put_string (cd_MaxBytes cd) @ rest))
      = Inr (cd_MinBytes cd, at_cursor ((pre @ ?fix) @ put_string (cd_MinBytes cd))
          (put_string (cd_MaxBytes cd) @ rest))"
    using ok False by (intro read_string_at sh') (simp_all add: column_dir_ok_def)
  moreover have "read_string MaxBytesValue (at_cursor ((pre @ ?fix) @ put_string (cd_MinBytes cd))
        (put_string (cd_MaxBytes cd) @ rest))
      = Inr (cd_MaxBytes cd, at_cursor (((pre @ ?fix) @ put_string (cd_MinBytes cd))
          @ put_string (cd_MaxBytes cd)) rest)"
    using ok False sh' by (intro read_string_at) (simp_all add: column_dir_ok_def)
  ultimately show ?thesis
    using sh' ok False
    by (cases "cd_HasNulls cd") (simp_all add: read_column_dir_def append_column_dir_def
        column_dir_ok_def Let_def u64_at_cursor u8_at_cursor uvarint_at_cursor)
qed

fun column_dirs_bytes :: "column_def list \<Rightarrow> column_dir list \<Rightarrow> bytes" where
  "column_dirs_bytes (d # ds) (cd # cds) =
     append_column_dir (type_kind (col_Type d)) cd @ column_dirs_bytes ds cds"
| "column_dirs_bytes _ _ = []"

lemma read_column_dirs_at:
  assumes "short (pre @ column_dirs_bytes ds cds @ rest)"
    and "list_all2 (\<lambda>d cd. column_dir_ok (type_kind (col_Type d)) cd) ds cds"
  shows "read_column_dirs ds (at_cursor pre (column_dirs_bytes ds cds @ rest))
     = Inr (cds, at_cursor (pre @ column_dirs_bytes ds cds) rest)"
  using assms(2,1)
proof (induction ds cds arbitrary: pre rule: list_all2_induct)
  case Nil
  then show ?case by simp
next
  case (Cons d ds cd cds)
  let ?b = "append_column_dir (type_kind (col_Type d)) cd"
  have sh: "short (pre @ ?b @ column_dirs_bytes ds cds @ rest)"
    using Cons.prems by simp
  have "read_column_dirs ds (at_cursor (pre @ ?b) (column_dirs_bytes ds cds @ rest))
      = Inr (cds, at_cursor ((pre @ ?b) @ column_dirs_bytes ds cds) rest)"
    using sh by (intro Cons.IH) simp
  with read_column_dir_at [OF sh Cons.hyps(1)] show ?case by simp
qed

lemma column_dirs_bytes_eq:
  "length ds = length cds \<Longrightarrow> column_dirs_bytes ds cds =
     concat (map (\<lambda>j. append_column_dir (type_kind (col_Type (ds ! j))) (cds ! j)) [0..<length cds])"
  by (induction ds cds rule: list_induct2)
     (simp_all add: upt_conv_Cons map_Suc_upt [symmetric] comp_def del: upt_Suc)

definition segment_bytes :: "schema \<Rightarrow> segment_dir \<Rightarrow> bytes" where
  "segment_bytes sch sd =
     le64 (sd_Offset sd) @ le64 (sd_Length sd) @ put_uvarint (sd_Rows sd)
       @ le64 (sd_MinTS sd) @ le64 (sd_MaxTS sd)
       @ put_uvarint (of_nat (length (sd_Columns sd))) @ column_dirs_bytes (sch_Columns sch) (sd_Columns sd)"

lemma append_segment_ok:
  assumes "segment_ok sch sd"
  shows "append_segment sch sd = Inr (segment_bytes sch sd)"
proof -
  have len: "length (sch_Columns sch) = length (sd_Columns sd)"
    using assms by (auto simp: segment_ok_def dest: list_all2_lengthD)
  have "mapE (\<lambda>j. bindE (index_at (sch_Columns sch) j) (\<lambda>c.
              Inr (append_column_dir (type_kind (col_Type c)) (sd_Columns sd ! j))))
            [0..<length (sd_Columns sd)]
      = Inr (map (\<lambda>j. append_column_dir (type_kind (col_Type (sch_Columns sch ! j))) (sd_Columns sd ! j))
          [0..<length (sd_Columns sd)])"
    using len by (intro mapE_ok) simp
  then show ?thesis
    by (simp add: append_segment_def segment_bytes_def column_dirs_bytes_eq [OF len])
qed

lemma read_segment_at:
  assumes sh: "short (pre @ segment_bytes sch sd @ rest)" and ok: "segment_ok sch sd"
  shows "read_segment sch (at_cursor pre (segment_bytes sch sd @ rest))
     = Inr (sd, at_cursor (pre @ segment_bytes sch sd) rest)"
proof -
  let ?n = "of_nat (length (sd_Columns sd)) :: u64"
  let ?h = "le64 (sd_Offset sd) @ le64 (sd_Length sd) @ put_uvarint (sd_Rows sd)
       @ le64 (sd_MinTS sd) @ le64 (sd_MaxTS sd) @ put_uvarint ?n"
  let ?b = "column_dirs_bytes (sch_Columns sch) (sd_Columns sd)"
  have len: "length (sch_Columns sch) = length (sd_Columns sd)"
    using ok by (auto simp: segment_ok_def dest: list_all2_lengthD)
  have sh': "short ((pre @ ?h) @ ?b @ rest)"
    using sh by (simp add: segment_bytes_def)
  from read_column_dirs_at [OF sh' ok [unfolded segment_ok_def]] show ?thesis
    using sh' len by (simp add: read_segment_def segment_bytes_def u64_at_cursor uvarint_at_cursor)
qed

lemma read_segments_at:
  assumes "short (pre @ concat (map (segment_bytes sch) sds) @ rest)" and "list_all (segment_ok sch) sds"
  shows "read_segments sch (length sds) (at_cursor pre (concat (map (segment_bytes sch) sds) @ rest))
     = Inr (sds, at_cursor (pre @ concat (map (segment_bytes sch) sds)) rest)"
  using assms
proof (induction sds arbitrary: pre)
  case Nil
  then show ?case by simp
next
  case (Cons sd sds)
  let ?b = "segment_bytes sch sd" and ?t = "concat (map (segment_bytes sch) sds)"
  have sh: "short (pre @ ?b @ ?t @ rest)" using Cons.prems(1) by simp
  have "read_segments sch (length sds) (at_cursor (pre @ ?b) (?t @ rest))
      = Inr (sds, at_cursor ((pre @ ?b) @ ?t) rest)"
    using sh Cons.prems(2) by (intro Cons.IH) simp_all
  with read_segment_at [OF sh, of] Cons.prems(2) show ?case by simp
qed

definition footer_body :: "footer \<Rightarrow> bytes" where
  "footer_body f =
     append_descriptor (f_Schema f) @ put_string (f_SourceType f)
       @ le64 (f_TotalRows f) @ le64 (f_MinTS f) @ le64 (f_MaxTS f)
       @ put_uvarint (of_nat (length (f_Segments f)))
       @ concat (map (segment_bytes (f_Schema f)) (f_Segments f))"

lemma append_footer_eq:
  assumes "footer_ok f"
  shows "append_footer dst f = Inr (dst @ footer_body f @ le32 (of_nat (length (footer_body f)))
     @ le32 (crc32c (footer_body f)) @ Magic)"
proof -
  have "mapE (append_segment (f_Schema f)) (f_Segments f)
      = Inr (map (segment_bytes (f_Schema f)) (f_Segments f))"
    using assms by (intro mapE_ok append_segment_ok) (auto simp: footer_ok_def list_all_iff)
  then show ?thesis
    by (simp add: append_footer_def footer_body_def Let_def)
qed

lemma read_footer_body_at:
  assumes sh: "short (footer_body f)" and ok: "footer_ok f"
  shows "read_footer_body (new_cursor (footer_body f)) = Inr (f, at_cursor (footer_body f) [])"
proof -
  let ?d = "append_descriptor (f_Schema f)" and ?st = "put_string (f_SourceType f)"
  let ?n = "of_nat (length (f_Segments f)) :: u64"
  let ?h = "le64 (f_TotalRows f) @ le64 (f_MinTS f) @ le64 (f_MaxTS f) @ put_uvarint ?n"
  let ?s = "concat (map (segment_bytes (f_Schema f)) (f_Segments f))"
  have sh': "short (?d @ ?st @ ?h @ ?s)" using sh by (simp add: footer_body_def)
  have d: "read_descriptor (at_cursor [] (?d @ ?st @ ?h @ ?s))
      = Inr (f_Schema f, at_cursor ([] @ ?d) (?st @ ?h @ ?s))"
    using ok sh' by (intro read_descriptor_at) (simp_all add: footer_ok_def)
  have st: "read_string 4096 (at_cursor ?d (?st @ ?h @ ?s))
      = Inr (f_SourceType f, at_cursor (?d @ ?st) (?h @ ?s))"
    using ok sh' by (intro read_string_at) (simp_all add: footer_ok_def)
  have "length (f_Segments f) \<le> 2 ^ 20" using ok by (simp add: footer_ok_def limit_defs)
  then have u: "unat ?n = length (f_Segments f)" by (intro unat_of_nat_u64) simp
  then have le: "?n \<le> MaxSegments" using ok by (simp add: word_le_nat_alt footer_ok_def)
  have segs: "read_segments (f_Schema f) (length (f_Segments f)) (at_cursor (?d @ ?st @ ?h) (?s @ []))
      = Inr (f_Segments f, at_cursor ((?d @ ?st @ ?h) @ ?s) [])"
    using ok sh' by (intro read_segments_at) (simp_all add: footer_ok_def)
  have f: "\<lparr>f_Schema = f_Schema f, f_SourceType = f_SourceType f, f_TotalRows = f_TotalRows f,
      f_MinTS = f_MinTS f, f_MaxTS = f_MaxTS f, f_Segments = f_Segments f\<rparr> = f"
    by simp
  show ?thesis
    using d st segs u le sh'
    by (simp add: read_footer_body_def footer_body_def new_cursor_at u64_at_cursor uvarint_at_cursor f)
qed

text \<open>The trailer read back, for any body.\<close>

lemma read_footer_layout:
  assumes "HeaderSize \<le> length pre" and "length body \<le> 2 ^ 28"
  shows "read_footer (pre @ body @ le32 (of_nat (length body)) @ le32 crc @ Magic) =
    (if crc32c body \<noteq> crc then Inl (Err BadChecksum)
     else bindE (read_footer_body (new_cursor body)) (\<lambda>(f, _). Inr f))"
proof -
  let ?file = "pre @ body @ le32 (of_nat (length body)) @ le32 crc @ Magic"
  have n: "length ?file = length pre + length body + 12" by simp
  have u: "unat (of_nat (length body) :: u32) = length body"
    using assms(2) by (simp add: unsigned_of_nat take_bit_eq_mod)
  then have "unat (ucast (of_nat (length body) :: u32) :: u64) = length body"
    using assms(2) by (simp add: unsigned_ucast_eq take_bit_eq_mod)
  then have l: "(ucast (of_nat (length body) :: u32) :: u64) \<le> MaxFooterSize"
    using assms(2) by (simp add: word_le_nat_alt limit_defs)
  have "\<not> length pre + length body - 36 < length body"
    using assms(1) by (simp add: HeaderSize_def)
  then show ?thesis
    unfolding read_footer_def n Let_def
    using assms(1) u l by (simp add: HeaderSize_def footerTrailer_def)
qed

lemma footer_readback:
  assumes "footer_ok f" and "HeaderSize \<le> length file" and "length (footer_body f) \<le> 2 ^ 28"
    and "append_footer file f = Inr out"
  shows "read_footer out = Inr f"
proof -
  have "short (footer_body f)" using assms(3) by (simp add: short_def)
  then show ?thesis
    using assms(4) by (auto simp: append_footer_eq [OF assms(1)] read_footer_layout [OF assms(2,3)]
        read_footer_body_at [OF _ assms(1)])
qed

text \<open>
  C22: a footer within the reader's ceilings, appended to a file, is read back from the end of
  that file exactly: schema, statistics and the whole directory of segments and columns.
\<close>

theorem footer_roundtrip:
  assumes "footer_ok f" and "HeaderSize \<le> length file" and "length (footer_body f) \<le> 2 ^ 28"
  shows "\<exists>out. append_footer file f = Inr out \<and> read_footer out = Inr f"
  using append_footer_eq [OF assms(1)] footer_readback [OF assms] by blast

definition sample_footer :: footer where
  "sample_footer = \<lparr>f_Schema = sample_schema, f_SourceType = [1], f_TotalRows = 2, f_MinTS = 3,
     f_MaxTS = 4, f_Segments = [\<lparr>sd_Offset = 36, sd_Length = 9, sd_Rows = 2, sd_MinTS = 3, sd_MaxTS = 4,
       sd_Columns =
        [\<lparr>cd_ChunkOffset = 36, cd_ChunkLength = 5, cd_IndexOffset = 0, cd_IndexLength = 0,
          cd_HasNulls = False, cd_NonNull = 2, cd_MinInt = 3, cd_MaxInt = 4, cd_MinBytes = [],
          cd_MaxBytes = []\<rparr>,
         \<lparr>cd_ChunkOffset = 41, cd_ChunkLength = 4, cd_IndexOffset = 0, cd_IndexLength = 0,
          cd_HasNulls = True, cd_NonNull = 1, cd_MinInt = 0, cd_MaxInt = 0, cd_MinBytes = [7],
          cd_MaxBytes = [7]\<rparr>]\<rparr>]\<rparr>"

lemma sample_footer_ok: "footer_ok sample_footer"
  using sample_schema_ok
  by (simp add: footer_ok_def sample_footer_def segment_ok_def column_dir_ok_def sample_schema_def
      type_kind_def limit_defs)

lemma length_sample_footer: "length (footer_body sample_footer) \<le> 500"
  using length_put_uvarint_le10 [of 1] length_put_uvarint_le10 [of 2]
  by (simp add: footer_body_def sample_footer_def segment_bytes_def sample_schema_def
      append_descriptor_def append_column_def put_string_def append_column_dir_def type_kind_def)

theorem footer_roundtrip_witness:
  "\<exists>out. append_footer (replicate 40 0) sample_footer = Inr out \<and> read_footer out = Inr sample_footer"
  using footer_roundtrip [OF sample_footer_ok, of "replicate 40 0"] length_sample_footer
  by (simp add: HeaderSize_def)

text \<open>
  C26: a change of any one byte of a footer's body is detected: the file is refused with a
  checksum error, before anything of the body is interpreted.
\<close>

theorem footer_corruption_detected:
  assumes "footer_ok f" and "HeaderSize \<le> length file" and "length (footer_body f) \<le> 2 ^ 28"
    and "footer_body f = pre @ b # post" and "b' \<noteq> b"
    and "append_footer file f = Inr (file @ pre @ b # post @ trailer)"
  shows "read_footer (file @ pre @ b' # post @ trailer) = Inl (Err BadChecksum)"
proof -
  have "trailer = le32 (of_nat (length (pre @ b' # post))) @ le32 (crc32c (footer_body f)) @ Magic"
    using assms(6) append_footer_eq [OF assms(1), of "file"] assms(4) by simp
  then show ?thesis
    using read_footer_layout [OF assms(2), of "pre @ b' # post" "crc32c (footer_body f)"] assms(3,4)
      crc32c_detects_byte [OF assms(5), of pre post] by simp
qed

theorem footer_corruption_detected_witness:
  "\<exists>post trailer. append_footer (replicate 40 0) sample_footer
       = Inr (replicate 40 0 @ [] @ 3 # post @ trailer)
     \<and> read_footer (replicate 40 0 @ [] @ 4 # post @ trailer) = Inl (Err BadChecksum)"
proof -
  have "le32 (3 :: u32) = [3, 0, 0, 0]" by code_simp
  then obtain post where p: "footer_body sample_footer = [] @ 3 # post"
    by (simp add: footer_body_def append_descriptor_def sample_footer_def sample_schema_def)
  obtain trailer where t: "append_footer (replicate 40 0) sample_footer
      = Inr (replicate 40 0 @ [] @ 3 # post @ trailer)"
    using append_footer_eq [OF sample_footer_ok] p by simp
  have "read_footer (replicate 40 0 @ [] @ 4 # post @ trailer) = Inl (Err BadChecksum)"
    using footer_corruption_detected [OF sample_footer_ok _ _ p _ t, of 4] length_sample_footer
    by (simp add: HeaderSize_def)
  with t show ?thesis by blast
qed

section \<open>Hostile footers\<close>

lemma read_column_dir_safe [safe_read]: "cursor_ok c \<Longrightarrow> safe_read c (read_column_dir k c)"
  unfolding read_column_dir_def Let_def by (intro safe_read) (simp_all add: limit_defs)

lemma read_column_dirs_safe [safe_read]: "cursor_ok c \<Longrightarrow> safe_read c (read_column_dirs ds c)"
proof (induction ds arbitrary: c)
  case (Cons d ds)
  show ?case
    unfolding read_column_dirs.simps by (intro safe_read Cons)
qed (simp add: safe_read)

lemma read_segment_safe [safe_read]: "cursor_ok c \<Longrightarrow> safe_read c (read_segment sch c)"
  unfolding read_segment_def by (intro safe_read)

lemma read_segments_safe [safe_read]: "cursor_ok c \<Longrightarrow> safe_read c (read_segments sch k c)"
proof (induction k arbitrary: c)
  case (Suc k)
  show ?case
    unfolding read_segments.simps by (intro safe_read Suc)
qed (simp add: safe_read)

lemma read_footer_body_safe: "cursor_ok c \<Longrightarrow> safe_read c (read_footer_body c)"
  unfolding read_footer_body_def by (intro safe_read) (simp_all add: limit_defs)

lemma read_column_dirs_length: "read_column_dirs ds c = Inr (cds, c') \<Longrightarrow> length cds = length ds"
  by (induction ds arbitrary: c cds c') (auto simp: res_iff)

lemma read_segments_columns:
  "read_segments sch k c = Inr (sds, c') \<Longrightarrow>
     length sds = k \<and> (\<forall>sd \<in> set sds. length (sd_Columns sd) = length (sch_Columns sch))"
proof (induction k arbitrary: c sds c')
  case (Suc k)
  from Suc.prems obtain sd c1 sds' where "sds = sd # sds'" "read_segment sch c = Inr (sd, c1)"
    "read_segments sch k c1 = Inr (sds', c')"
    by (auto simp: res_iff)
  moreover from this(2) have "length (sd_Columns sd) = length (sch_Columns sch)"
    by (auto simp: read_segment_def res_iff split_beta dest: read_column_dirs_length split: if_splits)
  ultimately show ?case using Suc.IH by auto
qed simp

lemma read_footer_graceful:
  assumes "short file"
  shows "graceful (read_footer file)"
proof -
  have "graceful (read_footer_body (new_cursor (take k (drop m file))))" for k m
  proof -
    have "short (take k (drop m file))" using assms by (simp add: short_def)
    then have "cursor_ok (new_cursor (take k (drop m file)))"
      by (simp add: cursor_ok_def new_cursor_def)
    from read_footer_body_safe [OF this] show ?thesis by (simp add: safe_read_def)
  qed
  then show ?thesis
    by (auto simp: read_footer_def Let_def HeaderSize_def footerTrailer_def
        intro!: graceful_intros split: prod.split)
qed

lemma read_footer_valid:
  assumes "read_footer file = Inr f"
  shows "validate (f_Schema f) = Inr ()"
    and "\<forall>sd \<in> set (f_Segments f). length (sd_Columns sd) = length (sch_Columns (f_Schema f))"
    and "length (f_Segments f) \<le> 2 ^ 20"
proof -
  obtain body c where b: "read_footer_body (new_cursor body) = Inr (f, c)"
    using assms by (auto simp: read_footer_def Let_def res_iff split: if_splits)
  then obtain sch c1 where "read_descriptor (new_cursor body) = Inr (sch, c1)" "f_Schema f = sch"
    by (auto simp: read_footer_body_def res_iff split_beta)
  then show "validate (f_Schema f) = Inr ()"
    by (auto simp: read_descriptor_def res_iff Let_def split_beta)
  show "\<forall>sd \<in> set (f_Segments f). length (sd_Columns sd) = length (sch_Columns (f_Schema f))"
    and "length (f_Segments f) \<le> 2 ^ 20"
    using b by (auto simp: read_footer_body_def res_iff split_beta word_le_nat_alt limit_defs
        dest!: read_segments_columns)
qed

text \<open>
  C24: whatever bytes a file consists of, \<open>ReadFooter\<close> never crashes; a footer it returns has
  a valid schema, a bounded number of segments, and in every segment one directory entry
  per schema column.
\<close>

theorem read_footer_safe:
  assumes "length file < 2 ^ 62"
  shows "read_footer file \<in> {Inl e | e. e \<noteq> Panic \<and> e \<noteq> OutOfMemory}
    \<union> {Inr f | f. validate (f_Schema f) = Inr () \<and> length (f_Segments f) \<le> 2 ^ 20
        \<and> list_all (\<lambda>sd. length (sd_Columns sd) = length (sch_Columns (f_Schema f))) (f_Segments f)}"
  using read_footer_graceful [of "file"] read_footer_valid [of "file"] assms
  by (cases "read_footer file") (auto simp: short_def graceful_def list_all_iff)

theorem read_footer_safe_witness:
  "read_footer (replicate 60 0) \<notin> {Inl Panic, Inl OutOfMemory}"
  using read_footer_safe [of "replicate 60 0"] by auto

section \<open>Recovery finds the latest footer\<close>

lemma slice_range_take:
  "hi \<le> e \<Longrightarrow> e \<le> length xs \<Longrightarrow> slice_range (take e xs) lo hi = slice_range xs lo hi"
  by (simp add: slice_range_def drop_take min_def)

lemma read_footer_trailer:
  assumes "read_footer file = Inr f"
  shows "HeaderSize + footerTrailer \<le> length file"
    and "slice_range file (length file - 4) (length file) = Inr Magic"
    and "\<exists>lenb. slice_range file (length file - 12) (length file - 8) = Inr lenb
      \<and> ucast (le_word lenb :: u32) \<le> MaxFooterSize
      \<and> unat (le_word lenb :: u32) \<le> length file - footerTrailer - HeaderSize"
  using assms by (auto simp: read_footer_def res_iff Let_def simp del: slice_range_ok split: if_splits)

lemma try_footer_at_iff:
  assumes "e \<le> length file"
  shows "try_footer_at file e = Inr f \<longleftrightarrow> read_footer (take e file) = Inr f"
proof
  assume "try_footer_at file e = Inr f"
  then show "read_footer (take e file) = Inr f"
    using assms by (auto simp: try_footer_at_def res_iff Let_def split: if_splits)
next
  assume r: "read_footer (take e file) = Inr f"
  have len: "length (take e file) = e" using assms by simp
  obtain lenb where "slice_range file (e - 12) (e - 8) = Inr lenb"
    and "ucast (le_word lenb :: u32) \<le> MaxFooterSize"
    and "unat (le_word lenb :: u32) \<le> e - footerTrailer - HeaderSize"
    using read_footer_trailer(3) [OF r] slice_range_take [of "e - 8" e "file" "e - 12"] assms
    unfolding len by auto
  moreover have "HeaderSize + footerTrailer \<le> e"
    using read_footer_trailer(1) [OF r] by (simp only: len)
  ultimately show "try_footer_at file e = Inr f"
    using assms r by (simp add: try_footer_at_def Let_def not_less del: slice_range_ok)
      (simp add: slice_range_ok)
qed

lemma read_footer_magic:
  assumes "read_footer (take e file) = Inr f" and "e \<le> length file"
  shows "HeaderSize + footerTrailer \<le> e" and "slice_range file (e - 4) e = Inr Magic"
proof -
  have len: "length (take e file) = e" using assms(2) by simp
  show "HeaderSize + footerTrailer \<le> e"
    using read_footer_trailer(1) [OF assms(1)] by (simp only: len)
  show "slice_range file (e - 4) e = Inr Magic"
    using read_footer_trailer(2) [OF assms(1)] slice_range_take [of e e "file" "e - 4"] assms(2)
    by (simp only: len)
qed

definition latest_footer :: "bytes \<Rightarrow> nat \<Rightarrow> footer \<Rightarrow> bool" where
  "latest_footer file n f \<longleftrightarrow> (\<exists>e \<le> n. read_footer (take e file) = Inr f
     \<and> (\<forall>e'. e < e' \<and> e' \<le> n \<longrightarrow> (\<forall>g. read_footer (take e' file) \<noteq> Inr g)))"

lemma latest_footer_Suc:
  "latest_footer file (Suc n) f \<longleftrightarrow>
     (case read_footer (take (Suc n) file) of Inr g \<Rightarrow> g = f | Inl _ \<Rightarrow> latest_footer file n f)"
proof (cases "read_footer (take (Suc n) file)")
  case (Inl e)
  then have "latest_footer file (Suc n) f \<longleftrightarrow> latest_footer file n f"
    unfolding latest_footer_def
    by (metis Inl_Inr_False le_Suc_eq less_Suc_eq_le)
  then show ?thesis by (simp add: Inl)
next
  case (Inr g)
  then have "latest_footer file (Suc n) f \<longleftrightarrow> g = f"
    unfolding latest_footer_def
    by (metis le_Suc_eq lessI less_Suc_eq_le not_le order_refl sum.inject(2))
  then show ?thesis by (simp add: Inr)
qed

lemma try_footer_at_graceful:
  assumes "short file" and "e \<le> length file"
  shows "graceful (try_footer_at file e)"
proof -
  have "short (take e file)" using assms(1) by (simp add: short_def)
  then have "graceful (read_footer (take e file))" by (rule read_footer_graceful)
  then show ?thesis
    using assms(2) by (auto simp: try_footer_at_def Let_def footerTrailer_def HeaderSize_def
        intro!: graceful_intros)
qed

lemma recover_loop_iff:
  assumes "short file" and "n \<le> length file"
  shows "recover_loop file n = Inr f \<longleftrightarrow> latest_footer file n f"
    and "recover_loop file n \<in> {Inl (Err Corrupt)} \<union> range Inr"
proof -
  have "(recover_loop file n = Inr f \<longleftrightarrow> latest_footer file n f)
      \<and> recover_loop file n \<in> {Inl (Err Corrupt)} \<union> range Inr"
    using assms(2)
  proof (induction n)
    case 0
    then show ?case by (simp add: latest_footer_def read_footer_def HeaderSize_def)
  next
    case (Suc n)
    then have IH: "recover_loop file n = Inr f \<longleftrightarrow> latest_footer file n f"
      "recover_loop file n \<in> {Inl (Err Corrupt)} \<union> range Inr" and le: "Suc n \<le> length file"
      by simp_all
    show ?case
    proof (cases "read_footer (take (Suc n) file)")
      case (Inr g)
      then have "try_footer_at file (Suc n) = Inr g"
        using try_footer_at_iff [OF le] by simp
      with read_footer_magic [OF Inr le] show ?thesis
        by (simp add: latest_footer_Suc Inr)
    next
      case (Inl err)
      then obtain err' where t: "try_footer_at file (Suc n) = Inl err'"
        using try_footer_at_iff [OF le] by (metis Inl_Inr_False obj_sumE)
      have g: "graceful (Inl err' :: footer res)"
        using try_footer_at_graceful [OF assms(1) le] t by simp
      show ?thesis
      proof (cases "Suc n < HeaderSize + footerTrailer")
        case True
        have "\<not> latest_footer file n f"
          unfolding latest_footer_def using read_footer_magic(1) True le
          by (metis Suc_leD le_trans not_less_eq_eq less_le_not_le)
        then show ?thesis using True by (simp add: latest_footer_Suc Inl)
      next
        case False
        then show ?thesis
          using IH le t g by (simp add: latest_footer_Suc Inl footerTrailer_def)
      qed
    qed
  qed
  then show "recover_loop file n = Inr f \<longleftrightarrow> latest_footer file n f"
    and "recover_loop file n \<in> {Inl (Err Corrupt)} \<union> range Inr"
    by simp_all
qed

text \<open>
  C23: \<open>RecoverFooter\<close> returns a footer exactly when some prefix of the file ends in a valid
  one, and then it is that of the longest such prefix: the scan that looks for the magic
  bytes misses none and never stops at an earlier checkpoint. Otherwise it reports
  corruption; it never crashes.
\<close>

theorem recover_footer_latest:
  assumes "length file < 2 ^ 62"
  shows "(recover_footer file = Inr f \<longleftrightarrow> latest_footer file (length file) f)
    \<and> recover_footer file \<in> {Inl (Err Corrupt)} \<union> range Inr"
  using recover_loop_iff(1) [of "file" "length file" f] recover_loop_iff(2) [of "file" "length file"]
    assms by (simp add: recover_footer_def short_def)

theorem recover_footer_latest_witness:
  "recover_footer (replicate 10 0) \<in> {Inl (Err Corrupt)} \<union> range Inr"
  using recover_footer_latest [of "replicate 10 0"] by simp

text \<open>No four bytes that end after position \<open>n\<close> are the magic.\<close>

definition no_magic_after :: "nat \<Rightarrow> bytes \<Rightarrow> bool" where
  "no_magic_after n file \<longleftrightarrow> list_all (\<lambda>e. take 4 (drop (e - 4) file) \<noteq> Magic) [n + 1..<length file + 1]"

lemma no_magic_footer:
  assumes "no_magic_after n file" and "n < e" and "e \<le> length file"
  shows "read_footer (take e file) \<noteq> Inr g"
proof
  assume "read_footer (take e file) = Inr g"
  note m = read_footer_magic [OF this assms(3)]
  have "take 4 (drop (e - 4) file) = Magic"
    using m assms(3) by (auto simp: slice_range_def HeaderSize_def simp del: drop_append split: if_splits)
  then show False using assms by (auto simp: no_magic_after_def list_all_iff)
qed

lemma no_byte_no_magic:
  assumes "0x46 \<notin> set junk"
  shows "no_magic_after (length out) (out @ junk)"
  unfolding no_magic_after_def list_all_iff
proof (intro ballI notI)
  let ?file = "out @ junk"
  fix e assume e: "e \<in> set [length out + 1..<length ?file + 1]" and m: "take 4 (drop (e - 4) ?file) = Magic"
  have "length (take 4 (drop (e - 4) ?file)) = 4" using m by (simp only:) (simp add: Magic_def)
  then have i: "e - 4 + 3 < length ?file" by (simp del: drop_append)
  have "take 4 (drop (e - 4) ?file) ! 3 = Magic ! 3" using m by (simp only:)
  then have "?file ! (e - 4 + 3) = 0x46" using i by (simp add: Magic_def numeral_3_eq_3 del: drop_append)
  moreover have "length out \<le> e - 4 + 3" using e by auto
  ultimately have "junk ! (e - 4 + 3 - length out) = 0x46" "e - 4 + 3 - length out < length junk"
    using i by (simp_all add: nth_append)
  then show False using assms by (metis nth_mem)
qed

lemma checkpoint_survives_crash:
  assumes "footer_ok f" and "HeaderSize \<le> length file" and "length (footer_body f) \<le> 2 ^ 28"
    and "append_footer file f = Inr out" and "no_magic_after (length out) (out @ junk)" and "length (out @ junk) < 2 ^ 62"
  shows "recover_footer (out @ junk) = Inr f"
proof -
  have r: "read_footer out = Inr f" by (rule footer_readback [OF assms(1-4)])
  have "latest_footer (out @ junk) (length (out @ junk)) f"
    unfolding latest_footer_def using r no_magic_footer [OF assms(5)] by (intro exI [of _ "length out"]) auto
  then show ?thesis
    using recover_loop_iff(1) [of "out @ junk" "length (out @ junk)" f] assms(6)
    by (simp add: recover_footer_def short_def)
qed

theorem checkpoint_survives_crash_witness:
  "\<exists>out. append_footer (replicate 40 0) sample_footer = Inr out
     \<and> recover_footer (out @ [1, 2, 3]) = Inr sample_footer"
proof -
  obtain out where out: "append_footer (replicate 40 0) sample_footer = Inr out"
    using append_footer_eq [OF sample_footer_ok] by blast
  then have "length (out @ [1, 2, 3]) < 2 ^ 62"
    using append_footer_eq [OF sample_footer_ok, of "replicate 40 0"] length_sample_footer by auto
  then show ?thesis
    using checkpoint_survives_crash [OF sample_footer_ok _ _ out] no_byte_no_magic [of "[1, 2, 3]" out] out length_sample_footer
      append_footer_eq [OF sample_footer_ok, of "replicate 40 0"]
    by (auto simp: HeaderSize_def)
qed

end
