(* ===== verification/Store.thy ===== *)
theory Store
  imports ColumnIndex Chunk Format
begin

text \<open>
  The read engine of \<open>internal/store/reader.go\<close> over a file held in memory: it parses the
  header and the footer, then slices, checks and decodes one column chunk or one index at a
  time. Reading the file from disk is not modelled.
\<close>

unbundle bit_operations_syntax

record reader =
  r_data :: bytes
  r_header :: header
  r_footer :: footer

definition new_reader :: "bytes \<Rightarrow> reader res" where
  "new_reader data =
     bindE (read_header data) (\<lambda>h.
     bindE (read_footer data) (\<lambda>f.
       Inr \<lparr>r_data = data, r_header = h, r_footer = f\<rparr>))"

definition recover_reader :: "bytes \<Rightarrow> (reader \<times> bool) res" where
  "recover_reader data =
     bindE (read_header data) (\<lambda>h.
       case read_footer data of
         Inr f \<Rightarrow> Inr (\<lparr>r_data = data, r_header = h, r_footer = f\<rparr>, False)
       | Inl e \<Rightarrow>
           if e = Panic \<or> e = OutOfMemory then Inl e
           else bindE (recover_footer data) (\<lambda>f.
             Inr (\<lparr>r_data = data, r_header = h, r_footer = f\<rparr>, True)))"

definition reader_schema :: "reader \<Rightarrow> schema" where
  "reader_schema r = f_Schema (r_footer r)"

definition reader_slice :: "reader \<Rightarrow> u64 \<Rightarrow> u64 \<Rightarrow> bytes res" where
  "reader_slice r off len =
     (let hi = off + len in
      if hi < off \<or> of_nat (length (r_data r)) < hi then Inl (Err Corrupt)
      else slice_range (r_data r) (unat off) (unat hi))"

definition reader_column :: "externals \<Rightarrow> reader \<Rightarrow> nat \<Rightarrow> nat \<Rightarrow> data res" where
  "reader_column X r segIdx colIdx =
     (if length (f_Segments (r_footer r)) \<le> segIdx then Inl (Err Corrupt)
      else let seg = f_Segments (r_footer r) ! segIdx in
        if length (sd_Columns seg) \<le> colIdx then Inl (Err Corrupt)
        else let cd = sd_Columns seg ! colIdx in
          bindE (reader_slice r (cd_ChunkOffset cd) (cd_ChunkLength cd)) (decode_chunk X))"

definition reader_index :: "'bm roaring \<Rightarrow> reader \<Rightarrow> nat \<Rightarrow> nat \<Rightarrow> 'bm column_index res" where
  "reader_index R r segIdx colIdx =
     bindE (index_at (f_Segments (r_footer r)) segIdx) (\<lambda>seg.
     bindE (index_at (sd_Columns seg) colIdx) (\<lambda>cd.
       if cd_IndexLength cd = 0 then Inr \<lparr>ci_Bloom = None, ci_Inverted = None\<rparr>
       else bindE (reader_slice r (cd_IndexOffset cd) (cd_IndexLength cd)) (read_column_index R)))"

section \<open>Slices stay inside the file\<close>

lemma reader_slice_eq:
  assumes "short (r_data r)"
  shows "reader_slice r off len =
    (if unat off + unat len \<le> length (r_data r) then Inr (take (unat len) (drop (unat off) (r_data r)))
     else Inl (Err Corrupt))"
proof -
  let ?n = "length (r_data r)"
  have n: "unat (of_nat ?n :: u64) = ?n"
    using assms by (intro unat_of_nat_u64) (simp add: short_def)
  show ?thesis
  proof (cases "unat off + unat len < 2 ^ 64")
    case True
    then have u: "unat (off + len) = unat off + unat len"
      by (simp add: unat_word_ariths)
    then have "\<not> off + len < off" by (simp add: word_less_nat_alt)
    then show ?thesis
      using u n by (auto simp: reader_slice_def Let_def word_less_nat_alt slice_range_def)
  next
    case False
    have "off + len < off"
    proof -
      have "unat (off + len) = (unat off + unat len) mod 2 ^ 64" by (simp add: unat_word_ariths)
      also have "\<dots> = unat off + unat len - 2 ^ 64"
        using False unsigned_less [of off, where 'a = nat] unsigned_less [of len, where 'a = nat]
        by (subst le_mod_geq) simp_all
      also have "\<dots> < unat off"
        using False unsigned_less [of len, where 'a = nat] by simp
      finally show ?thesis by (simp add: word_less_nat_alt)
    qed
    then show ?thesis
      using False assms by (simp add: reader_slice_def Let_def short_def)
  qed
qed

lemma reader_slice_cases:
  assumes "short (r_data r)"
  shows "reader_slice r off len = Inl (Err Corrupt)
    \<or> (\<exists>b. reader_slice r off len = Inr b \<and> length b = unat len \<and> short b)"
  using assms by (auto simp: reader_slice_eq short_def)

lemma new_reader_footer: "new_reader data = Inr r \<Longrightarrow> r_data r = data \<and> read_footer data = Inr (r_footer r)"
  by (auto simp: new_reader_def res_iff)

text \<open>What may come of decoding a column of a file.\<close>

definition column_outcome :: "data res \<Rightarrow> bool" where
  "column_outcome r \<longleftrightarrow> r \<noteq> Inl Panic \<and> (\<forall>d. r = Inr d \<longrightarrow> data_ok d \<and> d_Rows d \<le> 2 ^ 24)"

lemma reader_column_outcome:
  assumes "short (r_data r)"
  shows "column_outcome (reader_column X r i j)"
proof (cases "i < length (f_Segments (r_footer r)) \<and> j < length (sd_Columns (f_Segments (r_footer r) ! i))")
  case True
  let ?cd = "sd_Columns (f_Segments (r_footer r) ! i) ! j"
  have eq: "reader_column X r i j
      = bindE (reader_slice r (cd_ChunkOffset ?cd) (cd_ChunkLength ?cd)) (decode_chunk X)"
    using True by (simp add: reader_column_def Let_def)
  show ?thesis
    using reader_slice_cases [OF assms, of "cd_ChunkOffset ?cd" "cd_ChunkLength ?cd"] decode_chunk_outcome
    unfolding eq by (auto simp: column_outcome_def chunk_outcome_def)
next
  case False
  then have "reader_column X r i j = Inl (Err Corrupt)" by (auto simp: reader_column_def Let_def)
  then show ?thesis by (simp add: column_outcome_def)
qed

lemma reader_index_graceful:
  assumes "short (r_data r)" and "i < length (f_Segments (r_footer r))"
    and "j < length (sd_Columns (f_Segments (r_footer r) ! i))"
  shows "graceful (reader_index R r i j)"
proof -
  let ?cd = "sd_Columns (f_Segments (r_footer r) ! i) ! j"
  show ?thesis
    using reader_slice_cases [OF assms(1), of "cd_IndexOffset ?cd" "cd_IndexLength ?cd"]
      read_column_index_graceful [of _ R] assms(2,3)
    by (auto simp: reader_index_def)
qed


lemma sample_file:
  "\<exists>out r. append_footer (append_header [] sample_header) sample_footer = Inr out
     \<and> new_reader out = Inr r \<and> length out < 2 ^ 62"
proof -
  let ?pre = "append_header [] sample_header"
  obtain out where out: "append_footer ?pre sample_footer = Inr out"
    and eq: "out = ?pre @ footer_body sample_footer
       @ le32 (of_nat (length (footer_body sample_footer))) @ le32 (crc32c (footer_body sample_footer)) @ Magic"
    using append_footer_eq [OF sample_footer_ok] by blast
  have len: "length ?pre = 36" by (simp add: append_header_eq header_body_def sample_header_def)
  have "read_header out = Inr sample_header"
    unfolding eq by (rule header_readback) (simp_all add: sample_header_def supports_format_def)
  moreover have "read_footer out = Inr sample_footer"
    using footer_readback [OF sample_footer_ok _ _ out] len length_sample_footer by (simp add: HeaderSize_def)
  moreover have "length out < 2 ^ 62" using length_sample_footer len by (simp add: eq)
  ultimately show ?thesis using out by (simp add: new_reader_def)
qed


end
