(* ===== verification/Lexer.thy ===== *)
theory Lexer
  imports Prelude "HOL-Library.Char_ord"
begin

text \<open>
  The tokeniser of \<open>internal/query/lex.go\<close>. A Go string is a list of bytes, here of
  characters; the index \<open>i\<close> into the query is the remaining suffix. Every error of the
  query language wraps \<open>ErrCorrupt\<close>.
\<close>

datatype tok_kind = TEOF | TIdent | TNum | TStr | TPunct

datatype token = Token (t_kind: tok_kind) (t_s: string)

definition is_digit :: "char \<Rightarrow> bool" where
  "is_digit c \<longleftrightarrow> CHR ''0'' \<le> c \<and> c \<le> CHR ''9''"

definition is_ident_start :: "char \<Rightarrow> bool" where
  "is_ident_start c \<longleftrightarrow> c = CHR ''_'' \<or> (CHR ''a'' \<le> c \<and> c \<le> CHR ''z'')
     \<or> (CHR ''A'' \<le> c \<and> c \<le> CHR ''Z'')"

definition is_ident_part :: "char \<Rightarrow> bool" where
  "is_ident_part c \<longleftrightarrow> is_ident_start c \<or> is_digit c \<or> c = CHR ''.''"

definition is_space :: "char \<Rightarrow> bool" where
  "is_space c \<longleftrightarrow> c = CHR '' '' \<or> c = CHR 0x09 \<or> c = CHR 0x0A \<or> c = CHR 0x0D"

definition quote :: char where "quote = CHR 0x27"

definition is_punct :: "char \<Rightarrow> bool" where
  "is_punct c \<longleftrightarrow> c \<in> {CHR ''='', CHR ''<'', CHR ''>'', CHR ''('', CHR '')'', CHR '','', CHR ''*''}"

text \<open>The inside of a string literal up to and including the closing quote.\<close>

fun lex_string :: "string \<Rightarrow> (string \<times> string) res" where
  "lex_string [] = Inl (Err Corrupt)"
| "lex_string [c] = (if c = quote then Inr ([], []) else Inl (Err Corrupt))"
| "lex_string (c # d # cs) =
     (if c = quote then
        (if d = quote then bindE (lex_string cs) (\<lambda>(s, rest). Inr (quote # s, rest))
         else Inr ([], d # cs))
      else bindE (lex_string (d # cs)) (\<lambda>(s, rest). Inr (c # s, rest)))"

lemma lex_string_shrinks: "lex_string cs = Inr (s, rest) \<Longrightarrow> length rest < length cs"
proof (induction cs arbitrary: s rest rule: lex_string.induct)
  case (3 c d cs)
  show ?case
  proof (cases "c = quote")
    case True
    then show ?thesis using "3.IH"(1) "3.prems" by (cases "d = quote") (fastforce simp: res_iff)+
  next
    case False
    then show ?thesis using "3.IH"(2) "3.prems" by (fastforce simp: res_iff)
  qed
qed (simp_all split: if_splits)

definition num_part :: "char \<Rightarrow> bool" where
  "num_part c \<longleftrightarrow> is_digit c \<or> c = CHR ''.''"

function lex_loop :: "string \<Rightarrow> token list res" where
  "lex_loop [] = Inr [Token TEOF '''']"
| "lex_loop (c # cs) =
     (if is_space c then lex_loop cs
      else if c = quote then
        bindE (lex_string cs) (\<lambda>(s, rest).
        bindE (lex_loop rest) (\<lambda>toks. Inr (Token TStr s # toks)))
      else if c = CHR ''!'' then
        (case cs of
           [] \<Rightarrow> Inl (Err Corrupt)
         | d # ds \<Rightarrow>
             if d = CHR ''='' then
               bindE (lex_loop ds) (\<lambda>toks. Inr (Token TPunct ''!='' # toks))
             else Inl (Err Corrupt))
      else if is_punct c then
        bindE (lex_loop cs) (\<lambda>toks. Inr (Token TPunct [c] # toks))
      else if is_digit c then
        bindE (lex_loop (dropWhile num_part (c # cs))) (\<lambda>toks.
          Inr (Token TNum (takeWhile num_part (c # cs)) # toks))
      else if is_ident_start c then
        bindE (lex_loop (dropWhile is_ident_part (c # cs))) (\<lambda>toks.
          Inr (Token TIdent (takeWhile is_ident_part (c # cs)) # toks))
      else Inl (Err Corrupt))"
  by pat_completeness auto
termination
  by (relation "measure length")
     (auto dest: lex_string_shrinks simp: num_part_def is_ident_part_def less_Suc_eq_le
        length_dropWhile_le)

definition lex :: "string \<Rightarrow> token list res" where
  "lex q = lex_loop q"

section \<open>Printing tokens\<close>

text \<open>A string literal with its quotes doubled, and a token list as text.\<close>

fun escape :: "string \<Rightarrow> string" where
  "escape [] = []"
| "escape (c # cs) = (if c = quote then quote # quote # escape cs else c # escape cs)"

fun token_text :: "token \<Rightarrow> string" where
  "token_text (Token TStr s) = quote # escape s @ [quote]"
| "token_text (Token k s) = s"

definition token_ok :: "token \<Rightarrow> bool" where
  "token_ok t \<longleftrightarrow> (case t_kind t of
       TEOF \<Rightarrow> False
     | TStr \<Rightarrow> True
     | TNum \<Rightarrow> t_s t \<noteq> [] \<and> is_digit (hd (t_s t)) \<and> list_all num_part (t_s t)
     | TIdent \<Rightarrow> t_s t \<noteq> [] \<and> is_ident_start (hd (t_s t)) \<and> list_all is_ident_part (t_s t)
     | TPunct \<Rightarrow> t_s t = ''!='' \<or> (\<exists>c. t_s t = [c] \<and> is_punct c))"

definition tokens_text :: "token list \<Rightarrow> string" where
  "tokens_text toks = concat (map (\<lambda>t. token_text t @ '' '') toks)"

lemma lex_string_escape:
  "lex_string (escape s @ quote # c # rest) = Inr (s, c # rest)" if "c \<noteq> quote"
proof (induction s)
  case Nil
  then show ?case using that by simp
next
  case (Cons x s)
  show ?case
  proof (cases "x = quote")
    case True
    then show ?thesis using Cons by simp
  next
    case False
    obtain d ds where d: "escape s @ quote # c # rest = d # ds"
      by (cases "escape s @ quote # c # rest") auto
    show ?thesis using Cons False by (simp add: d)
  qed
qed

lemma char_classes:
  "is_digit c \<Longrightarrow> \<not> is_space c \<and> c \<noteq> quote \<and> c \<noteq> CHR ''!'' \<and> \<not> is_punct c"
  "is_ident_start c \<Longrightarrow> \<not> is_space c \<and> c \<noteq> quote \<and> c \<noteq> CHR ''!'' \<and> \<not> is_punct c \<and> \<not> is_digit c"
  "is_punct c \<Longrightarrow> \<not> is_space c \<and> c \<noteq> quote \<and> c \<noteq> CHR ''!''"
  "\<not> num_part CHR '' ''" "\<not> is_ident_part CHR '' ''" "CHR '' '' \<noteq> quote" "is_space CHR '' ''"
  by (auto simp: is_digit_def is_space_def quote_def is_punct_def is_ident_start_def num_part_def
      is_ident_part_def less_eq_char_def)

lemma lex_loop_token:
  assumes "token_ok t"
  shows "lex_loop (token_text t @ CHR '' '' # rest) = bindE (lex_loop rest) (\<lambda>toks. Inr (t # toks))"
proof (cases t)
  case (Token k s)
  show ?thesis
  proof (cases k)
    case TEOF
    then show ?thesis using assms Token by (simp add: token_ok_def)
  next
    case TStr
    then show ?thesis
      using lex_string_escape [of "CHR '' ''" s rest] char_classes
      by (simp add: Token is_space_def quote_def)
  next
    case TNum
    then obtain c cs where s: "s = c # cs" "is_digit c" "list_all num_part (c # cs)"
      using assms Token by (cases s) (auto simp: token_ok_def)
    then have "takeWhile num_part (s @ CHR '' '' # rest) = s"
      "dropWhile num_part (s @ CHR '' '' # rest) = CHR '' '' # rest"
      using char_classes(4) by (auto simp: list_all_iff takeWhile_append dropWhile_append)
    then show ?thesis
      using TNum s char_classes(1) [of c] char_classes(7) by (simp add: Token)
  next
    case TIdent
    then obtain c cs where s: "s = c # cs" "is_ident_start c" "list_all is_ident_part (c # cs)"
      using assms Token by (cases s) (auto simp: token_ok_def)
    then have "takeWhile is_ident_part (s @ CHR '' '' # rest) = s"
      "dropWhile is_ident_part (s @ CHR '' '' # rest) = CHR '' '' # rest"
      using char_classes(5) by (auto simp: list_all_iff takeWhile_append dropWhile_append)
    then show ?thesis
      using TIdent s char_classes(2) [of c] char_classes(7) by (simp add: Token)
  next
    case TPunct
    then consider "s = ''!=''" | c where "s = [c]" "is_punct c"
      using assms Token by (auto simp: token_ok_def)
    then show ?thesis
    proof cases
      case 1
      then show ?thesis
        using TPunct char_classes(7) by (simp add: Token is_space_def quote_def)
    next
      case 2
      then show ?thesis
        using TPunct char_classes(3) [of c] char_classes(7) by (simp add: Token)
    qed
  qed
qed

lemma lex_tokens:
  "list_all token_ok toks \<Longrightarrow> lex (tokens_text toks) = Inr (toks @ [Token TEOF ''''])"
proof (induction toks)
  case Nil
  then show ?case by (simp add: lex_def tokens_text_def)
next
  case (Cons t toks)
  have "lex_loop (token_text t @ CHR '' '' # tokens_text toks)
      = bindE (lex_loop (tokens_text toks)) (\<lambda>toks. Inr (t # toks))"
    using Cons.prems by (intro lex_loop_token) simp
  with Cons show ?case by (simp add: lex_def tokens_text_def)
qed

section \<open>What the tokeniser returns\<close>

definition well_lexed :: "token list \<Rightarrow> bool" where
  "well_lexed toks \<longleftrightarrow> (\<exists>ts. toks = ts @ [Token TEOF ''''] \<and> list_all token_ok ts)"

lemma well_lexed_Cons: "token_ok t \<Longrightarrow> well_lexed toks \<Longrightarrow> well_lexed (t # toks)"
  unfolding well_lexed_def by (metis append_Cons list.pred_inject(2))

definition lex_outcome :: "token list res \<Rightarrow> bool" where
  "lex_outcome r \<longleftrightarrow> r = Inl (Err Corrupt) \<or> (\<exists>toks. r = Inr toks \<and> well_lexed toks)"

lemma lex_outcome_token:
  "lex_outcome r \<Longrightarrow> token_ok t \<Longrightarrow> lex_outcome (bindE r (\<lambda>toks. Inr (t # toks)))"
  by (auto simp: lex_outcome_def well_lexed_Cons)

lemma lex_outcome_Err: "lex_outcome (Inl (Err Corrupt))"
  by (simp add: lex_outcome_def)

lemma lex_string_outcome: "lex_string cs = Inl (Err Corrupt) \<or> (\<exists>p. lex_string cs = Inr p)"
proof (induction cs rule: lex_string.induct)
  case (3 c d cs)
  show ?case
    using "3.IH" by (cases "c = quote"; cases "d = quote") auto
qed auto

lemma lex_loop_outcome: "lex_outcome (lex_loop q)"
proof (induction q rule: lex_loop.induct)
  case 1
  show ?case by (auto simp: lex_outcome_def well_lexed_def)
next
  case (2 c cs)
  consider "is_space c" | "\<not> is_space c" "c = quote" | "\<not> is_space c" "c \<noteq> quote" "c = CHR ''!''"
    | "\<not> is_space c" "c \<noteq> quote" "c \<noteq> CHR ''!''" "is_punct c"
    | "\<not> is_space c" "c \<noteq> quote" "c \<noteq> CHR ''!''" "\<not> is_punct c" "is_digit c"
    | "\<not> is_space c" "c \<noteq> quote" "c \<noteq> CHR ''!''" "\<not> is_punct c" "\<not> is_digit c" "is_ident_start c"
    | "\<not> is_space c" "c \<noteq> quote" "c \<noteq> CHR ''!''" "\<not> is_punct c" "\<not> is_digit c" "\<not> is_ident_start c"
    by blast
  then show ?case
  proof cases
    case 1
    then show ?thesis using "2.IH"(1) by simp
  next
    case 2
    show ?thesis
      using lex_string_outcome [of cs]
    proof
      assume "\<exists>p. lex_string cs = Inr p"
      then obtain s rest where s: "lex_string cs = Inr (s, rest)" by auto
      have "lex_outcome (lex_loop rest)" using "2.IH"(2) [OF 2 s] by simp
      then show ?thesis
        using 2 s by (simp add: lex_outcome_token token_ok_def)
    qed (use 2 in \<open>simp add: lex_outcome_Err\<close>)
  next
    case 3
    show ?thesis
    proof (cases cs)
      case (Cons d ds)
      then show ?thesis
        using 3 "2.IH"(3) [OF 3 Cons] by (simp add: lex_outcome_Err lex_outcome_token token_ok_def)
    qed (use 3 in \<open>simp add: lex_outcome_Err\<close>)
  next
    case 4
    then show ?thesis using "2.IH"(4) by (simp add: lex_outcome_token token_ok_def)
  next
    case 5
    then have "token_ok (Token TNum (takeWhile num_part (c # cs)))"
      by (auto simp: token_ok_def num_part_def list_all_iff dest: set_takeWhileD)
    then show ?thesis using 5 "2.IH"(5) by (simp add: lex_outcome_token)
  next
    case 6
    then have "token_ok (Token TIdent (takeWhile is_ident_part (c # cs)))"
      by (auto simp: token_ok_def is_ident_part_def list_all_iff dest: set_takeWhileD)
    then show ?thesis using 6 "2.IH"(6) by (simp add: lex_outcome_token)
  next
    case 7
    then show ?thesis by (simp add: lex_outcome_Err)
  qed
qed

lemma lex_cases: "lex q = Inl (Err Corrupt) \<or> (\<exists>toks. lex q = Inr toks \<and> well_lexed toks)"
  using lex_loop_outcome [of q] by (simp add: lex_def lex_outcome_def)

end
