(* ===== verification/Strconv.thy ===== *)
theory Strconv
  imports Lexer
begin

text \<open>
  The decimal conversions of Go's \<open>strconv\<close> that the query language uses: \<open>ParseUint\<close>,
  \<open>Atoi\<close> (on 64-bit platforms the same as \<open>ParseInt\<close> in base 10) and \<open>FormatUint\<close>, each
  returning an option where the library returns an error.
\<close>

section \<open>Reading\<close>

definition digits_value :: "string \<Rightarrow> nat option" where
  "digits_value s =
     (if s = [] \<or> \<not> list_all is_digit s then None
      else Some (foldl (\<lambda>n c. 10 * n + (of_char c - 48)) 0 s))"

definition parse_uint :: "string \<Rightarrow> nat option" where
  "parse_uint s =
     (case digits_value s of None \<Rightarrow> None | Some n \<Rightarrow> if n < 2 ^ 64 then Some n else None)"

definition atoi :: "string \<Rightarrow> int option" where
  "atoi s =
     (let (neg, d) = (case s of [] \<Rightarrow> (False, [])
            | c # cs \<Rightarrow> if c = CHR ''-'' then (True, cs) else if c = CHR ''+'' then (False, cs)
                         else (False, c # cs))
      in case digits_value d of
           None \<Rightarrow> None
         | Some n \<Rightarrow> if neg then (if n \<le> 2 ^ 63 then Some (- int n) else None)
                     else (if n < 2 ^ 63 then Some (int n) else None))"

section \<open>Writing\<close>

definition digit_char :: "nat \<Rightarrow> char" where
  "digit_char d = char_of (48 + d)"

fun show_nat :: "nat \<Rightarrow> string" where
  "show_nat n = (if n < 10 then [digit_char n] else show_nat (n div 10) @ [digit_char (n mod 10)])"

declare show_nat.simps [simp del]

lemma digit_char: "d < 10 \<Longrightarrow> is_digit (digit_char d) \<and> of_char (digit_char d) = 48 + d"
  by (simp add: digit_char_def is_digit_def less_eq_char_def)

lemma show_nat_digits: "list_all is_digit (show_nat n) \<and> show_nat n \<noteq> []"
proof (induction n rule: show_nat.induct)
  case (1 n)
  then show ?case using digit_char by (subst (1 2) show_nat.simps) auto
qed

lemma digits_value_show: "digits_value (show_nat n) = Some n"
proof -
  have "foldl (\<lambda>n c. 10 * n + (of_char c - 48)) 0 (show_nat n) = n"
  proof (induction n rule: show_nat.induct)
    case (1 n)
    then show ?case using digit_char [of n] digit_char [of "n mod 10"] by (subst show_nat.simps) auto
  qed
  then show ?thesis using show_nat_digits [of n] by (simp add: digits_value_def)
qed

lemma atoi_show: "n < 2 ^ 63 \<Longrightarrow> atoi (show_nat n) = Some (int n)"
  using show_nat_digits [of n] digits_value_show [of n]
  by (cases "show_nat n") (auto simp: atoi_def is_digit_def less_eq_char_def)

end
