(* ===== verification/Parser.thy ===== *)
theory Parser
  imports Strconv
begin

text \<open>
  The recursive-descent parser of \<open>internal/query/parse.go\<close>. The parser's state, a token
  slice and a position, is the list of tokens from the position on; \<open>cur\<close> and \<open>next\<close> panic
  past its end, as indexing does. The mutually recursive functions of the expression
  grammar are the code's; their loops are functions of their own. An interface value that
  is nil is an option.
\<close>

datatype expr = And expr expr | Or expr expr | Cmp string string "string list"

record agg =
  ag_Func :: string
  ag_Col :: string
  ag_N :: int

record stmt =
  s_Aggregate :: "agg option"
  s_Star :: bool
  s_Projection :: "string list"
  s_Where :: "expr option"
  s_Limit :: int

section \<open>Case folding\<close>

text \<open>\<open>strings.EqualFold\<close> on identifiers, which are ASCII.\<close>

definition lower :: "char \<Rightarrow> char" where
  "lower c = (if CHR ''A'' \<le> c \<and> c \<le> CHR ''Z'' then char_of (of_char c + 32 :: nat) else c)"

definition equal_fold :: "string \<Rightarrow> string \<Rightarrow> bool" where
  "equal_fold s t \<longleftrightarrow> map lower s = map lower t"

section \<open>The parser\<close>

fun p_cur :: "token list \<Rightarrow> token res" where
  "p_cur [] = Inl Panic"
| "p_cur (t # ts) = Inr t"

fun p_next :: "token list \<Rightarrow> (token \<times> token list) res" where
  "p_next [] = Inl Panic"
| "p_next (t # ts) = Inr (t, ts)"

definition eat_keyword :: "string \<Rightarrow> token list \<Rightarrow> (bool \<times> token list) res" where
  "eat_keyword kw ts =
     bindE (p_cur ts) (\<lambda>t.
       if t_kind t = TIdent \<and> equal_fold (t_s t) kw then Inr (True, tl ts) else Inr (False, ts))"

definition eat_punct :: "string \<Rightarrow> token list \<Rightarrow> (bool \<times> token list) res" where
  "eat_punct s ts =
     bindE (p_cur ts) (\<lambda>t.
       if t_kind t = TPunct \<and> t_s t = s then Inr (True, tl ts) else Inr (False, ts))"

text \<open>\<open>if !p.eatPunct(s) { return perr(...) }\<close>\<close>

definition expect_punct :: "string \<Rightarrow> token list \<Rightarrow> token list res" where
  "expect_punct s ts =
     bindE (eat_punct s ts) (\<lambda>(ok, ts1). if ok then Inr ts1 else Inl (Err Corrupt))"

definition parse_value :: "token list \<Rightarrow> (string \<times> token list) res" where
  "parse_value ts =
     bindE (p_next ts) (\<lambda>(t, ts1).
       if t_kind t = TStr \<or> t_kind t = TNum then Inr (t_s t, ts1) else Inl (Err Corrupt))"

lemma eat_keyword_shrinks:
  "eat_keyword kw ts = Inr (b, ts') \<Longrightarrow> if b then length ts = Suc (length ts') else ts' = ts"
  by (cases ts) (auto simp: eat_keyword_def split: if_splits)

lemma eat_punct_shrinks:
  "eat_punct s ts = Inr (b, ts') \<Longrightarrow> if b then length ts = Suc (length ts') else ts' = ts"
  by (cases ts) (auto simp: eat_punct_def split: if_splits)

lemma parse_value_shrinks: "parse_value ts = Inr (v, ts') \<Longrightarrow> length ts' < length ts"
  by (cases ts) (auto simp: parse_value_def split: if_splits)

function parse_values :: "token list \<Rightarrow> (string list \<times> token list) res" where
  "parse_values ts =
     bindE (parse_value ts) (\<lambda>(v, ts1).
     bindE (eat_punct '','' ts1) (\<lambda>(more, ts2).
       if more then bindE (parse_values ts2) (\<lambda>(vs, ts3). Inr (v # vs, ts3))
       else Inr ([v], ts2)))"
  by pat_completeness auto
termination
  by (relation "measure length") (auto dest!: parse_value_shrinks eat_punct_shrinks)

declare parse_values.simps [simp del]

definition comparison_op :: "string \<Rightarrow> bool" where
  "comparison_op s \<longleftrightarrow> s = ''='' \<or> s = ''!='' \<or> s = ''<'' \<or> s = ''>''"

definition parse_cmp :: "token list \<Rightarrow> (expr \<times> token list) res" where
  "parse_cmp ts =
     bindE (p_next ts) (\<lambda>(col, ts1).
       if t_kind col \<noteq> TIdent then Inl (Err Corrupt)
       else bindE (eat_keyword ''in'' ts1) (\<lambda>(isin, ts2).
         if isin then
           bindE (expect_punct ''('' ts2) (\<lambda>ts3.
           bindE (parse_values ts3) (\<lambda>(vals, ts4).
           bindE (expect_punct '')'' ts4) (\<lambda>ts5.
           Inr (Cmp (t_s col) ''in'' vals, ts5))))
         else
           bindE (p_next ts2) (\<lambda>(t, ts3).
             if t_kind t = TPunct \<and> comparison_op (t_s t) then
               bindE (parse_value ts3) (\<lambda>(v, ts4). Inr (Cmp (t_s col) (t_s t) [v], ts4))
             else Inl (Err Corrupt))))"

lemma parse_values_shrinks: "parse_values ts = Inr (vs, ts') \<Longrightarrow> length ts' < length ts"
proof (induction ts arbitrary: vs ts' rule: parse_values.induct)
  case (1 ts)
  from "1.prems" obtain v ts1 more ts2 where v: "parse_value ts = Inr (v, ts1)"
    and e: "eat_punct '','' ts1 = Inr (more, ts2)"
    and r: "(if more then bindE (parse_values ts2) (\<lambda>(vs, ts3). Inr (v # vs, ts3))
       else Inr ([v], ts2)) = Inr (vs, ts')"
    by (subst (asm) parse_values.simps) (auto simp: res_iff)
  then show ?case
    using parse_value_shrinks [OF v] eat_punct_shrinks [OF e] "1.IH" [OF v refl e refl]
    by (cases more) (fastforce simp: res_iff)+
qed

lemma expect_punct_shrinks: "expect_punct s ts = Inr ts' \<Longrightarrow> length ts' < length ts"
  by (auto simp: expect_punct_def res_iff dest!: eat_punct_shrinks split: if_splits)

lemma p_next_Inr: "p_next ts = Inr (t, ts') \<longleftrightarrow> ts = t # ts'"
  by (cases ts) auto

lemma parse_cmp_shrinks: "parse_cmp ts = Inr (e, ts') \<Longrightarrow> length ts' < length ts"
  by (auto simp: parse_cmp_def res_iff p_next_Inr dest!: eat_keyword_shrinks expect_punct_shrinks
      parse_values_shrinks parse_value_shrinks split: if_splits)

function parse_or and parse_or_loop and parse_and and parse_and_loop and parse_factor where
  "parse_or ts = bindE (parse_and ts) (\<lambda>(left, ts1). parse_or_loop left ts1)"
| "parse_or_loop left ts =
     bindE (eat_keyword ''or'' ts) (\<lambda>(ok, ts1).
       if ok then bindE (parse_and ts1) (\<lambda>(right, ts2). parse_or_loop (Or left right) ts2)
       else Inr (left, ts1))"
| "parse_and ts = bindE (parse_factor ts) (\<lambda>(left, ts1). parse_and_loop left ts1)"
| "parse_and_loop left ts =
     bindE (eat_keyword ''and'' ts) (\<lambda>(ok, ts1).
       if ok then bindE (parse_factor ts1) (\<lambda>(right, ts2). parse_and_loop (And left right) ts2)
       else Inr (left, ts1))"
| "parse_factor ts =
     bindE (eat_punct ''('' ts) (\<lambda>(ok, ts1).
       if ok then
         bindE (parse_or ts1) (\<lambda>(e, ts2).
         bindE (expect_punct '')'' ts2) (\<lambda>ts3. Inr (e, ts3)))
       else parse_cmp ts1)"
  by pat_completeness auto

text \<open>Every result leaves fewer tokens than it was given, the loops at most as many.\<close>

lemma parse_shrinks:
  "parse_or_parse_or_loop_parse_and_parse_and_loop_parse_factor_dom (Inl (Inl ts1)) \<Longrightarrow> (\<forall>e ts'. parse_or ts1 = Inr (e, ts') \<longrightarrow> length ts' < length ts1)"
  "parse_or_parse_or_loop_parse_and_parse_and_loop_parse_factor_dom (Inl (Inr (l2, ts2))) \<Longrightarrow> (\<forall>e ts'. parse_or_loop l2 ts2 = Inr (e, ts') \<longrightarrow> length ts' \<le> length ts2)"
  "parse_or_parse_or_loop_parse_and_parse_and_loop_parse_factor_dom (Inr (Inl ts3)) \<Longrightarrow> (\<forall>e ts'. parse_and ts3 = Inr (e, ts') \<longrightarrow> length ts' < length ts3)"
  "parse_or_parse_or_loop_parse_and_parse_and_loop_parse_factor_dom (Inr (Inr (Inl (l4, ts4)))) \<Longrightarrow> (\<forall>e ts'. parse_and_loop l4 ts4 = Inr (e, ts') \<longrightarrow> length ts' \<le> length ts4)"
  "parse_or_parse_or_loop_parse_and_parse_and_loop_parse_factor_dom (Inr (Inr (Inr ts5))) \<Longrightarrow> (\<forall>e ts'. parse_factor ts5 = Inr (e, ts') \<longrightarrow> length ts' < length ts5)"
proof (induction ts1 and l2 ts2 and ts3 and l4 ts4 and ts5 rule: parse_or_parse_or_loop_parse_and_parse_and_loop_parse_factor.pinduct)
  case (1 ts)
  show ?case using 1 by (fastforce simp: parse_or.psimps res_iff)
next
  case (2 left ts)
  show ?case
    using 2 by (fastforce simp: parse_or_loop.psimps res_iff dest: eat_keyword_shrinks split: if_splits)
next
  case (3 ts)
  show ?case using 3 by (fastforce simp: parse_and.psimps res_iff)
next
  case (4 left ts)
  show ?case
    using 4 by (fastforce simp: parse_and_loop.psimps res_iff dest: eat_keyword_shrinks split: if_splits)
next
  case (5 ts)
  show ?case
    using 5 by (fastforce simp: parse_factor.psimps res_iff
        dest: eat_punct_shrinks expect_punct_shrinks parse_cmp_shrinks split: if_splits)
qed

definition parse_measure where
  "parse_measure x = (case x of
       Inl (Inl ts) \<Rightarrow> 4 * length ts + 2
     | Inl (Inr (l, ts)) \<Rightarrow> 4 * length ts + 3
     | Inr (Inl ts) \<Rightarrow> 4 * length ts + 1
     | Inr (Inr (Inl (l, ts))) \<Rightarrow> 4 * length ts + 3
     | Inr (Inr (Inr ts)) \<Rightarrow> 4 * length ts)"

termination parse_or
  by (relation "measure parse_measure")
     (force simp: parse_measure_def dest: parse_shrinks eat_keyword_shrinks eat_punct_shrinks)+

declare parse_or.simps [simp del] parse_or_loop.simps [simp del] parse_and.simps [simp del]
  parse_and_loop.simps [simp del] parse_factor.simps [simp del]

function parse_projection :: "token list \<Rightarrow> (string list \<times> token list) res" where
  "parse_projection ts =
     bindE (p_next ts) (\<lambda>(t, ts1).
       if t_kind t \<noteq> TIdent then Inl (Err Corrupt)
       else bindE (eat_punct '','' ts1) (\<lambda>(more, ts2).
         if more then bindE (parse_projection ts2) (\<lambda>(cols, ts3). Inr (t_s t # cols, ts3))
         else Inr ([t_s t], ts2)))"
  by pat_completeness auto
termination
  by (relation "measure length") (auto simp: p_next_Inr dest!: eat_punct_shrinks)

declare parse_projection.simps [simp del]

definition empty_stmt :: stmt where
  "empty_stmt = \<lparr>s_Aggregate = None, s_Star = False, s_Projection = [], s_Where = None, s_Limit = 0\<rparr>"

definition parse_top_n :: "token list \<Rightarrow> (int \<times> token list) res" where
  "parse_top_n ts =
     bindE (eat_punct '','' ts) (\<lambda>(more, ts1).
       if more then
         bindE (p_next ts1) (\<lambda>(num, ts2).
           if t_kind num \<noteq> TNum then Inl (Err Corrupt)
           else (case atoi (t_s num) of
                   None \<Rightarrow> Inl (Err Corrupt)
                 | Some n \<Rightarrow> if n \<le> 0 then Inl (Err Corrupt) else Inr (n, ts2)))
       else Inr (10, ts1))"

definition parse_select_list :: "stmt \<Rightarrow> token list \<Rightarrow> (stmt \<times> token list) res" where
  "parse_select_list st ts =
     bindE (p_cur ts) (\<lambda>t.
       if t_kind t = TPunct \<and> t_s t = ''*'' then Inr (st\<lparr>s_Star := True\<rparr>, tl ts)
       else if t_kind t = TIdent \<and> equal_fold (t_s t) ''count'' then
         bindE (expect_punct ''('' (tl ts)) (\<lambda>ts1.
         bindE (expect_punct ''*'' ts1) (\<lambda>ts2.
         bindE (expect_punct '')'' ts2) (\<lambda>ts3.
         Inr (st\<lparr>s_Aggregate := Some \<lparr>ag_Func = ''count'', ag_Col = ''*'', ag_N = 0\<rparr>\<rparr>, ts3))))
       else if t_kind t = TIdent \<and> equal_fold (t_s t) ''top'' then
         bindE (expect_punct ''('' (tl ts)) (\<lambda>ts1.
         bindE (p_next ts1) (\<lambda>(col, ts2).
           if t_kind col \<noteq> TIdent then Inl (Err Corrupt)
           else bindE (parse_top_n ts2) (\<lambda>(n, ts3).
                bindE (expect_punct '')'' ts3) (\<lambda>ts4.
                Inr (st\<lparr>s_Aggregate := Some \<lparr>ag_Func = ''top'', ag_Col = t_s col, ag_N = n\<rparr>\<rparr>, ts4)))))
       else bindE (parse_projection ts) (\<lambda>(cols, ts1). Inr (st\<lparr>s_Projection := cols\<rparr>, ts1)))"

definition expect_keyword :: "string \<Rightarrow> token list \<Rightarrow> token list res" where
  "expect_keyword kw ts =
     bindE (eat_keyword kw ts) (\<lambda>(ok, ts1). if ok then Inr ts1 else Inl (Err Corrupt))"

definition parse_where :: "stmt \<Rightarrow> token list \<Rightarrow> (stmt \<times> token list) res" where
  "parse_where st ts =
     bindE (eat_keyword ''where'' ts) (\<lambda>(ok, ts1).
       if ok then bindE (parse_or ts1) (\<lambda>(e, ts2). Inr (st\<lparr>s_Where := Some e\<rparr>, ts2))
       else Inr (st, ts1))"

definition parse_limit :: "stmt \<Rightarrow> token list \<Rightarrow> (stmt \<times> token list) res" where
  "parse_limit st ts =
     bindE (eat_keyword ''limit'' ts) (\<lambda>(ok, ts1).
       if ok then
         bindE (p_next ts1) (\<lambda>(t, ts2).
           if t_kind t \<noteq> TNum then Inl (Err Corrupt)
           else (case atoi (t_s t) of
                   None \<Rightarrow> Inl (Err Corrupt)
                 | Some n \<Rightarrow> if n < 0 then Inl (Err Corrupt) else Inr (st\<lparr>s_Limit := n\<rparr>, ts2)))
       else Inr (st, ts1))"

definition parse_stmt :: "token list \<Rightarrow> stmt res" where
  "parse_stmt ts =
     bindE (expect_keyword ''select'' ts) (\<lambda>ts1.
     bindE (parse_select_list empty_stmt ts1) (\<lambda>(st1, ts2).
     bindE (expect_keyword ''from'' ts2) (\<lambda>ts3.
     bindE (p_next ts3) (\<lambda>(t, ts4).
       if t_kind t \<noteq> TIdent then Inl (Err Corrupt)
       else bindE (parse_where st1 ts4) (\<lambda>(st2, ts5).
            bindE (parse_limit st2 ts5) (\<lambda>(st3, ts6).
            bindE (p_cur ts6) (\<lambda>e.
              if t_kind e \<noteq> TEOF then Inl (Err Corrupt) else Inr st3)))))))"

definition parse :: "string \<Rightarrow> stmt res" where
  "parse q = bindE (lex q) parse_stmt"

end
