(* ===== verification/Exec.thy ===== *)
theory Exec
  imports Store Parser "HOL-Library.Product_Lexorder"
begin

text \<open>
  The query executor of \<open>internal/query/exec.go\<close> and the search of \<open>internal/query/search.go\<close>.
  The state of a segment's evaluation, its column cache included, is threaded through. The
  parts of the standard library that parse and print addresses and timestamps are the
  fields of \<open>stdlib\<close>; a query's strings are character lists, compared with stored bytes
  through \<open>to_bytes\<close>. Accesses by index go through \<open>index_at\<close>, so a panic is a value.
\<close>

section \<open>The engine\<close>

text \<open>
  \<open>parse_time layout s\<close> is \<open>time.Parse\<close> and \<open>UnixNano\<close>, \<open>format_time\<close> renders nanoseconds in
  UTC, \<open>parse_addr\<close> is \<open>netip.ParseAddr\<close> and \<open>As16\<close>, \<open>addr_text\<close> is \<open>Unmap\<close> and \<open>String\<close> of
  an address.
\<close>

record stdlib =
  parse_time :: "string \<Rightarrow> string \<Rightarrow> u64 option"
  format_time :: "u64 \<Rightarrow> string"
  parse_addr :: "string \<Rightarrow> bytes option"
  addr_text :: "bytes \<Rightarrow> string"

record 'bm engine =
  en_X :: externals
  en_R :: "'bm roaring"
  en_std :: stdlib

definition to_bytes :: "string \<Rightarrow> bytes" where
  "to_bytes s = map (\<lambda>c. of_nat (of_char c)) s"

definition from_bytes :: "bytes \<Rightarrow> string" where
  "from_bytes b = map (\<lambda>x. char_of (unat x)) b"

definition DefaultRowLimit :: int where "DefaultRowLimit = 1000"

datatype result_kind = KindCount | KindTop | KindRows

record qresult =
  q_Kind :: result_kind
  q_Count :: u64
  q_Columns :: "string list"
  q_Rows :: "string list list"
  q_Pruned :: nat
  q_Scanned :: nat

definition new_result :: "result_kind \<Rightarrow> qresult" where
  "new_result k = \<lparr>q_Kind = k, q_Count = 0, q_Columns = [], q_Rows = [], q_Pruned = 0, q_Scanned = 0\<rparr>"

section \<open>Validation\<close>

definition check_column :: "schema \<Rightarrow> string \<Rightarrow> unit res" where
  "check_column sch name = (if schema_index sch (to_bytes name) = None then Inl (Err Corrupt) else Inr ())"

fun validate_expr :: "schema \<Rightarrow> expr \<Rightarrow> unit res" where
  "validate_expr sch (And l r) = bindE (validate_expr sch l) (\<lambda>_. validate_expr sch r)"
| "validate_expr sch (Or l r) = bindE (validate_expr sch l) (\<lambda>_. validate_expr sch r)"
| "validate_expr sch (Cmp c op vs) = check_column sch c"

fun check_columns :: "schema \<Rightarrow> string list \<Rightarrow> unit res" where
  "check_columns sch [] = Inr ()"
| "check_columns sch (c # cs) = bindE (check_column sch c) (\<lambda>_. check_columns sch cs)"

definition validate_stmt :: "schema \<Rightarrow> stmt \<Rightarrow> unit res" where
  "validate_stmt sch st =
     bindE (case s_Aggregate st of
              Some a \<Rightarrow> if ag_Func a = ''top'' then check_column sch (ag_Col a) else Inr ()
            | None \<Rightarrow> Inr ()) (\<lambda>_.
     bindE (check_columns sch (s_Projection st)) (\<lambda>_.
       case s_Where st of None \<Rightarrow> Inr () | Some e \<Rightarrow> validate_expr sch e))"

section \<open>Value normalisation\<close>

definition normalize_ip :: "stdlib \<Rightarrow> string \<Rightarrow> bytes option" where
  "normalize_ip L s = parse_addr L s"

definition ip_string :: "stdlib \<Rightarrow> bytes \<Rightarrow> string" where
  "ip_string L b = (if length b \<noteq> 16 then ''?'' else addr_text L b)"

definition time_layouts :: "string list" where
  "time_layouts = [''2006-01-02T15:04:05.999999999Z07:00'', ''2006-01-02T15:04:05Z07:00'',
     ''2006-01-02T15:04:05'', ''2006-01-02 15:04:05'', ''2006-01-02'']"

fun try_layouts :: "stdlib \<Rightarrow> string list \<Rightarrow> string \<Rightarrow> u64 option" where
  "try_layouts L [] s = None"
| "try_layouts L (l # ls) s = (case parse_time L l s of Some t \<Rightarrow> Some t | None \<Rightarrow> try_layouts L ls s)"

definition parse_timestamp :: "stdlib \<Rightarrow> string \<Rightarrow> u64 option" where
  "parse_timestamp L s =
     (case try_layouts L time_layouts s of
        Some t \<Rightarrow> Some t
      | None \<Rightarrow> map_option word_of_int (atoi s))"

definition norm_int :: "stdlib \<Rightarrow> logical_type \<Rightarrow> string \<Rightarrow> u64 option" where
  "norm_int L t s =
     (case if t = TypeTimestamp then parse_timestamp L s else None of
        Some n \<Rightarrow> Some n
      | None \<Rightarrow>
          if t = TypeBool \<and> (s = ''true'' \<or> s = ''1'') then Some 1
          else if t = TypeBool \<and> (s = ''false'' \<or> s = ''0'') then Some 0
          else map_option of_nat (parse_uint s))"

definition norm_bytes :: "stdlib \<Rightarrow> logical_type \<Rightarrow> string \<Rightarrow> bytes option" where
  "norm_bytes L t s = (if t = TypeIP then normalize_ip L s else Some (to_bytes s))"

section \<open>Formatting\<close>

definition format_int_val :: "stdlib \<Rightarrow> logical_type \<Rightarrow> u64 \<Rightarrow> string" where
  "format_int_val L t v =
     (if t = TypeTimestamp then format_time L v
      else if t = TypeBool then (if v \<noteq> 0 then ''true'' else ''false'')
      else show_nat (unat v))"

definition format_bytes_val :: "stdlib \<Rightarrow> logical_type \<Rightarrow> bytes \<Rightarrow> string" where
  "format_bytes_val L t v = (if t = TypeIP then ip_string L v else from_bytes v)"

definition format_cell :: "stdlib \<Rightarrow> logical_type \<Rightarrow> data \<Rightarrow> nat \<Rightarrow> string res" where
  "format_cell L t d i =
     bindE (is_null d i) (\<lambda>null.
       if null then Inr ''''
       else if type_kind t = KindInt then bindE (index_at (d_Ints d) i) (\<lambda>v. Inr (format_int_val L t v))
       else bindE (index_at (d_Bytes d) i) (\<lambda>v. Inr (format_bytes_val L t v)))"

section \<open>One segment\<close>

record seg_ctx =
  x_seg :: nat
  x_rows :: u64
  x_cache :: "(nat \<times> data) list"
  x_decoded :: bool

definition new_ctx :: "nat \<Rightarrow> segment_dir \<Rightarrow> seg_ctx" where
  "new_ctx i sd = \<lparr>x_seg = i, x_rows = sd_Rows sd, x_cache = [], x_decoded = False\<rparr>"

definition ctx_col :: "'bm engine \<Rightarrow> reader \<Rightarrow> nat \<Rightarrow> seg_ctx \<Rightarrow> (data \<times> seg_ctx) res" where
  "ctx_col E r idx c =
     (case map_of (x_cache c) idx of
        Some d \<Rightarrow> Inr (d, c)
      | None \<Rightarrow>
          bindE (reader_column (en_X E) r (x_seg c) idx) (\<lambda>d.
            Inr (d, c\<lparr>x_decoded := True, x_cache := (idx, d) # x_cache c\<rparr>)))"

text \<open>The loop of every scan: the present rows whose value passes a test.\<close>

definition scan_rows :: "'bm roaring \<Rightarrow> data \<Rightarrow> 'v list \<Rightarrow> ('v \<Rightarrow> bool) \<Rightarrow> 'bm res" where
  "scan_rows R d vals test =
     foldE (\<lambda>bm i. bindE (is_null d i) (\<lambda>null.
         if null then Inr bm
         else bindE (index_at vals i) (\<lambda>v. if test v then Inr (rb_add R bm (of_nat i)) else Inr bm)))
       (rb_new R) [0..<d_Rows d]"

definition scan_int_eq :: "'bm engine \<Rightarrow> reader \<Rightarrow> nat \<Rightarrow> u64 \<Rightarrow> seg_ctx \<Rightarrow> ('bm \<times> seg_ctx) res" where
  "scan_int_eq E r colIdx v c =
     bindE (ctx_col E r colIdx c) (\<lambda>(d, c1).
     bindE (scan_rows (en_R E) d (d_Ints d) (\<lambda>x. x = v)) (\<lambda>bm. Inr (bm, c1)))"

definition scan_bytes_eq :: "'bm engine \<Rightarrow> reader \<Rightarrow> nat \<Rightarrow> bytes \<Rightarrow> seg_ctx \<Rightarrow> ('bm \<times> seg_ctx) res" where
  "scan_bytes_eq E r colIdx v c =
     bindE (ctx_col E r colIdx c) (\<lambda>(d, c1).
     bindE (scan_rows (en_R E) d (d_Bytes d) (\<lambda>x. x = v)) (\<lambda>bm. Inr (bm, c1)))"

text \<open>\<open>cmpInt\<close> and \<open>cmpBytes\<close> are the same switch over an ordered type.\<close>

definition cmp_values :: "string \<Rightarrow> 'v::linorder \<Rightarrow> 'v \<Rightarrow> bool" where
  "cmp_values op a b =
     (if op = ''!='' then a \<noteq> b else if op = ''<'' then a < b else if op = ''>'' then b < a else False)"

definition eval_scan ::
  "'bm engine \<Rightarrow> reader \<Rightarrow> nat \<Rightarrow> column_def \<Rightarrow> string \<Rightarrow> string \<Rightarrow> seg_ctx \<Rightarrow> ('bm \<times> seg_ctx) res" where
  "eval_scan E r colIdx colDef op val c =
     bindE (ctx_col E r colIdx c) (\<lambda>(d, c1).
       if type_kind (col_Type colDef) = KindInt then
         (case norm_int (en_std E) (col_Type colDef) val of
            None \<Rightarrow> Inr (rb_new (en_R E), c1)
          | Some v \<Rightarrow> bindE (scan_rows (en_R E) d (d_Ints d) (\<lambda>x. cmp_values op x v)) (\<lambda>bm. Inr (bm, c1)))
       else
         (case norm_bytes (en_std E) (col_Type colDef) val of
            None \<Rightarrow> Inr (rb_new (en_R E), c1)
          | Some v \<Rightarrow> bindE (scan_rows (en_R E) d (d_Bytes d) (\<lambda>x. cmp_values op x v)) (\<lambda>bm. Inr (bm, c1))))"

text \<open>\<open>ci.Bloom != nil && !ci.Bloom.MayContain(v)\<close>\<close>

definition bloom_excludes :: "(bloom \<Rightarrow> bool res) \<Rightarrow> bloom option \<Rightarrow> bool res" where
  "bloom_excludes may blo =
     (case blo of None \<Rightarrow> Inr False | Some bl \<Rightarrow> bindE (may bl) (\<lambda>r. Inr (\<not> r)))"

definition eval_equality :: "'bm engine \<Rightarrow> reader \<Rightarrow> nat \<Rightarrow> column_def \<Rightarrow> column_dir \<Rightarrow> string \<Rightarrow> seg_ctx
    \<Rightarrow> ('bm \<times> seg_ctx) res" where
  "eval_equality E r colIdx colDef cd val c =
     (let empty = rb_new (en_R E) in
      bindE (reader_index (en_R E) r (x_seg c) colIdx) (\<lambda>ci.
        if type_kind (col_Type colDef) = KindInt then
          (case norm_int (en_std E) (col_Type colDef) val of
             None \<Rightarrow> Inr (empty, c)
           | Some v \<Rightarrow>
               if 0 < cd_NonNull cd \<and> (v < cd_MinInt cd \<or> cd_MaxInt cd < v) then Inr (empty, c)
               else bindE (bloom_excludes (\<lambda>bl. may_contain_u64 (en_X E) bl v) (ci_Bloom ci)) (\<lambda>excluded.
                 if excluded then Inr (empty, c)
                 else if ci_Inverted ci \<noteq> None then
                   (case lookup_int (ci_Inverted ci) v of None \<Rightarrow> Inr (empty, c) | Some bm \<Rightarrow> Inr (bm, c))
                 else scan_int_eq E r colIdx v c))
        else
          (case norm_bytes (en_std E) (col_Type colDef) val of
             None \<Rightarrow> Inr (empty, c)
           | Some v \<Rightarrow>
               if 0 < cd_NonNull cd \<and> (v < cd_MinBytes cd \<or> cd_MaxBytes cd < v) then Inr (empty, c)
               else bindE (bloom_excludes (\<lambda>bl. may_contain (en_X E) bl v) (ci_Bloom ci)) (\<lambda>excluded.
                 if excluded then Inr (empty, c)
                 else if ci_Inverted ci \<noteq> None then
                   (case lookup_bytes (ci_Inverted ci) v of None \<Rightarrow> Inr (empty, c) | Some bm \<Rightarrow> Inr (bm, c))
                 else scan_bytes_eq E r colIdx v c))))"

fun eval_in :: "'bm engine \<Rightarrow> reader \<Rightarrow> nat \<Rightarrow> column_def \<Rightarrow> column_dir \<Rightarrow> string list \<Rightarrow> 'bm \<Rightarrow> seg_ctx
    \<Rightarrow> ('bm \<times> seg_ctx) res" where
  "eval_in E r colIdx colDef cd [] out c = Inr (out, c)"
| "eval_in E r colIdx colDef cd (v # vs) out c =
     bindE (eval_equality E r colIdx colDef cd v c) (\<lambda>(bm, c1).
       eval_in E r colIdx colDef cd vs (rb_or (en_R E) out bm) c1)"

text \<open>A position that a schema lookup failed to find is -1, which panics when it is used.\<close>

definition column_at :: "schema \<Rightarrow> string \<Rightarrow> (nat \<times> column_def) res" where
  "column_at sch name =
     (case schema_index sch (to_bytes name) of
        None \<Rightarrow> Inl Panic
      | Some i \<Rightarrow> bindE (index_at (sch_Columns sch) i) (\<lambda>d. Inr (i, d)))"

definition eval_cmp :: "'bm engine \<Rightarrow> reader \<Rightarrow> string \<Rightarrow> string \<Rightarrow> string list \<Rightarrow> seg_ctx
    \<Rightarrow> ('bm \<times> seg_ctx) res" where
  "eval_cmp E r col op vals c =
     bindE (column_at (reader_schema r) col) (\<lambda>(colIdx, colDef).
     bindE (index_at (f_Segments (r_footer r)) (x_seg c)) (\<lambda>seg.
     bindE (index_at (sd_Columns seg) colIdx) (\<lambda>cd.
       if op = ''in'' then eval_in E r colIdx colDef cd vals (rb_new (en_R E)) c
       else bindE (index_at vals 0) (\<lambda>v.
         if op = ''='' then eval_equality E r colIdx colDef cd v c
         else eval_scan E r colIdx colDef op v c))))"

fun eval_expr :: "'bm engine \<Rightarrow> reader \<Rightarrow> expr \<Rightarrow> seg_ctx \<Rightarrow> ('bm \<times> seg_ctx) res" where
  "eval_expr E r (And a b) c =
     bindE (eval_expr E r a c) (\<lambda>(l, c1).
     bindE (eval_expr E r b c1) (\<lambda>(rr, c2). Inr (rb_and (en_R E) l rr, c2)))"
| "eval_expr E r (Or a b) c =
     bindE (eval_expr E r a c) (\<lambda>(l, c1).
     bindE (eval_expr E r b c1) (\<lambda>(rr, c2). Inr (rb_or (en_R E) l rr, c2)))"
| "eval_expr E r (Cmp col op vals) c = eval_cmp E r col op vals c"

definition eval_segment :: "'bm engine \<Rightarrow> reader \<Rightarrow> expr option \<Rightarrow> seg_ctx \<Rightarrow> ('bm \<times> seg_ctx) res" where
  "eval_segment E r eo c =
     (case eo of
        None \<Rightarrow> bindE (rb_add_range (en_R E) (rb_new (en_R E)) 0 (x_rows c)) (\<lambda>bm. Inr (bm, c))
      | Some e \<Rightarrow> eval_expr E r e c)"

definition tally :: "'bm engine \<Rightarrow> seg_ctx \<Rightarrow> 'bm \<Rightarrow> qresult \<Rightarrow> qresult" where
  "tally E c bm res =
     (if rb_is_empty (en_R E) bm \<and> \<not> x_decoded c then res\<lparr>q_Pruned := q_Pruned res + 1\<rparr>
      else res\<lparr>q_Scanned := q_Scanned res + 1\<rparr>)"

end
