(* ===== verification/Writer.thy ===== *)
theory Writer
  imports Chunk Format ColumnIndex
begin

text \<open>
  The writer of \<open>pkg/ntcf/writer.go\<close> and the records of \<open>internal/row/row.go\<close>. A writer is
  a record of its fields, together with \<open>w_out\<close>, the bytes its stream has accepted so far:
  the file. Every operation returns its result and the writer it leaves behind, also when
  it fails, since a caller may go on with it. What the code takes from outside is the
  record \<open>wenv\<close>: the compressors, the filter sizing, the Roaring bitmaps, the clock and the
  stream, which may accept a part of a buffer and fail.
\<close>

section \<open>Records\<close>

record row_value =
  v_Null :: bool
  v_Int :: u64
  v_Bytes :: bytes

definition int_val :: "u64 \<Rightarrow> row_value" where
  "int_val v = \<lparr>v_Null = False, v_Int = v, v_Bytes = []\<rparr>"

definition bytes_val :: "bytes \<Rightarrow> row_value" where
  "bytes_val b = \<lparr>v_Null = False, v_Int = 0, v_Bytes = b\<rparr>"

definition null_val :: row_value where
  "null_val = \<lparr>v_Null = True, v_Int = 0, v_Bytes = []\<rparr>"

type_synonym row_record = "row_value list"

section \<open>The writer and its options\<close>

record writer_options =
  wo_Compression :: comp_id
  wo_ZstdLevel :: int
  wo_SegmentRows :: int
  wo_SourceType :: bytes
  wo_BuildInverted :: bool
  wo_WriterID :: bytes

definition CurrentFormat :: u16 where "CurrentFormat = 1"

definition default_writer_options :: writer_options where
  "default_writer_options = \<lparr>wo_Compression = Zstd, wo_ZstdLevel = 3, wo_SegmentRows = 65536,
     wo_SourceType = [], wo_BuildInverted = False, wo_WriterID = replicate 16 0\<rparr>"

record writer =
  w_out :: bytes
  w_schema :: schema
  w_opts :: writer_options
  w_codec :: comp_id
  w_builders :: "builder list"
  w_tsCol :: "nat option"
  w_pos :: u64
  w_segments :: "segment_dir list"
  w_totalRows :: u64
  w_minTS :: u64
  w_maxTS :: u64
  w_haveTS :: bool
  w_dirty :: bool
  w_closed :: bool

text \<open>
  \<open>we_sink out p\<close> is a call of the stream's \<open>Write\<close> with \<open>p\<close> after it has accepted \<open>out\<close>: how
  many bytes of \<open>p\<close> it takes and whether it returns an error. \<open>we_zstd\<close> says whether the
  package makes an encoder of a level; \<open>we_X\<close> compresses at that level.
\<close>

record 'bm wenv =
  we_X :: externals
  we_S :: sizing
  we_R :: "'bm roaring"
  we_sink :: "bytes \<Rightarrow> bytes \<Rightarrow> nat \<times> bool"
  we_now :: u64
  we_zstd :: "int \<Rightarrow> bool"

text \<open>A step that fails ends the operation, with the state it has reached.\<close>

type_synonym 'a wres = "'a res \<times> writer"

definition bindW :: "'a wres \<Rightarrow> ('a \<Rightarrow> writer \<Rightarrow> 'b wres) \<Rightarrow> 'b wres" where
  "bindW r f = (case r of (Inl e, w) \<Rightarrow> (Inl e, w) | (Inr x, w) \<Rightarrow> f x w)"

lemma bindW_simps [simp]: "bindW (Inl e, w) f = (Inl e, w)" "bindW (Inr x, w) f = f x w"
  by (simp_all add: bindW_def)

definition writer_write :: "'bm wenv \<Rightarrow> bytes \<Rightarrow> writer \<Rightarrow> unit wres" where
  "writer_write V p w =
     (case we_sink V (w_out w) p of (n, failed) \<Rightarrow>
        (if failed then Inl IOErr else Inr (),
         w\<lparr>w_out := w_out w @ take n p, w_pos := w_pos w + of_nat n\<rparr>))"

fun find_ts_col :: "nat \<Rightarrow> column_def list \<Rightarrow> nat option" where
  "find_ts_col i [] = None"
| "find_ts_col i (c # cs) = (if col_Type c = TypeTimestamp then Some i else find_ts_col (Suc i) cs)"

definition clamp_options :: "writer_options \<Rightarrow> writer_options" where
  "clamp_options o1 =
     (let o2 = (if wo_SegmentRows o1 \<le> 0 then o1\<lparr>wo_SegmentRows := 65536\<rparr> else o1)
      in if int (unat MaxSegmentRows) < wo_SegmentRows o2
         then o2\<lparr>wo_SegmentRows := int (unat MaxSegmentRows)\<rparr> else o2)"

definition writer_codec :: "'bm wenv \<Rightarrow> writer_options \<Rightarrow> comp_id res" where
  "writer_codec V o1 =
     (if wo_Compression o1 = Zstd then (if we_zstd V (wo_ZstdLevel o1) then Inr Zstd else Inl IOErr)
      else bindE (get_codec (wo_Compression o1)) (\<lambda>_. Inr (wo_Compression o1)))"

definition new_writer :: "'bm wenv \<Rightarrow> schema option \<Rightarrow> writer_options option \<Rightarrow> writer res" where
  "new_writer V scho optso =
     (case scho of
        None \<Rightarrow> Inl (Err SchemaError)
      | Some sch \<Rightarrow>
          bindE (validate sch) (\<lambda>_.
          let o2 = clamp_options (case optso of None \<Rightarrow> default_writer_options | Some o1 \<Rightarrow> o1) in
          bindE (writer_codec V o2) (\<lambda>codec.
          let w = \<lparr>w_out = [], w_schema = sch, w_opts = o2, w_codec = codec,
                   w_builders = map (\<lambda>c. new_builder (type_kind (col_Type c))) (sch_Columns sch),
                   w_tsCol = find_ts_col 0 (sch_Columns sch), w_pos = 0, w_segments = [],
                   w_totalRows = 0, w_minTS = 0, w_maxTS = 0, w_haveTS = False, w_dirty = False,
                   w_closed = False\<rparr>;
              hdr = \<lparr>h_Version = CurrentFormat, h_Flags = 0, h_Created = we_now V, h_WriterID = wo_WriterID o2\<rparr>
          in case writer_write V (append_header [] hdr) w of
               (Inl e, _) \<Rightarrow> Inl e
             | (Inr _, w1) \<Rightarrow> Inr w1)))"

section \<open>Flushing a segment\<close>

definition index_blob :: "'bm wenv \<Rightarrow> bool \<Rightarrow> column_def \<Rightarrow> builder \<Rightarrow> bytes res" where
  "index_blob V inverted col b =
     bindE (if type_kind (col_Type col) = KindInt
            then build_int_column (we_X V) (we_S V) (we_R V) (b_ints b) (Some (present_at b)) inverted
            else build_bytes_column (we_X V) (we_S V) (we_R V) (b_bytes b) (Some (present_at b)) inverted)
       (\<lambda>ci. Inr (append_index (we_R V) ci))"

definition stats_dir :: "column_def \<Rightarrow> col_stats \<Rightarrow> column_dir" where
  "stats_dir col st =
     (let isInt = type_kind (col_Type col) = KindInt in
      \<lparr>cd_ChunkOffset = 0, cd_ChunkLength = 0, cd_IndexOffset = 0, cd_IndexLength = 0,
       cd_HasNulls = cs_HasNulls st, cd_NonNull = of_nat (cs_NonNull st),
       cd_MinInt = (if isInt then cs_MinInt st else 0), cd_MaxInt = (if isInt then cs_MaxInt st else 0),
       cd_MinBytes = (if isInt then [] else cs_MinBytes st),
       cd_MaxBytes = (if isInt then [] else cs_MaxBytes st)\<rparr>)"

definition flush_column :: "'bm wenv \<Rightarrow> column_def \<Rightarrow> builder \<Rightarrow> writer \<Rightarrow> column_dir wres" where
  "flush_column V col b w0 =
     bindW (builder_stats b, w0) (\<lambda>st w1.
     bindW (builder_encode (we_X V) (Some (w_codec w1)) b, w1) (\<lambda>(chunk, _) w2.
     let cd = (stats_dir col st)\<lparr>cd_ChunkOffset := w_pos w2, cd_ChunkLength := of_nat (length chunk)\<rparr> in
     bindW (writer_write V chunk w2) (\<lambda>_ w3.
       if col_Indexed col then
         bindW (index_blob V (wo_BuildInverted (w_opts w3)) col b, w3) (\<lambda>idx w4.
         let cd1 = cd\<lparr>cd_IndexOffset := w_pos w4, cd_IndexLength := of_nat (length idx)\<rparr> in
         bindW (writer_write V idx w4) (\<lambda>_ w5. (Inr cd1, w5)))
       else (Inr cd, w3))))"

fun flush_columns :: "'bm wenv \<Rightarrow> column_def list \<Rightarrow> builder list \<Rightarrow> writer \<Rightarrow> column_dir list wres" where
  "flush_columns V cs [] w = (Inr [], w)"
| "flush_columns V [] (b # bs) w = (Inl Panic, w)"
| "flush_columns V (c # cs) (b # bs) w =
     bindW (flush_column V c b w) (\<lambda>cd w1.
     bindW (flush_columns V cs bs w1) (\<lambda>cds w2. (Inr (cd # cds), w2)))"

text \<open>The timestamps of the segment, when its column has any.\<close>

definition segment_times :: "writer \<Rightarrow> (u64 \<times> u64) option res" where
  "segment_times w =
     (case w_tsCol w of
        None \<Rightarrow> Inr None
      | Some t \<Rightarrow>
          bindE (index_at (w_builders w) t) (\<lambda>b.
          bindE (builder_stats b) (\<lambda>st.
            Inr (if 0 < cs_NonNull st then Some (cs_MinInt st, cs_MaxInt st) else None))))"

text \<open>Timestamps are compared as signed numbers.\<close>

definition note_times :: "(u64 \<times> u64) option \<Rightarrow> writer \<Rightarrow> writer" where
  "note_times ts w =
     (case ts of
        None \<Rightarrow> w
      | Some (lo, hi) \<Rightarrow>
          if \<not> w_haveTS w then w\<lparr>w_minTS := lo, w_maxTS := hi, w_haveTS := True\<rparr>
          else w\<lparr>w_minTS := (if sint lo < sint (w_minTS w) then lo else w_minTS w),
                 w_maxTS := (if sint (w_maxTS w) < sint hi then hi else w_maxTS w)\<rparr>)"

definition flush_segment :: "'bm wenv \<Rightarrow> writer \<Rightarrow> unit wres" where
  "flush_segment V w0 =
     bindW (index_at (w_builders w0) 0, w0) (\<lambda>b0 w1.
       if b_rows b0 = 0 then (Inr (), w1)
       else
         bindW (flush_columns V (sch_Columns (w_schema w1)) (w_builders w1) w1) (\<lambda>cds w2.
         bindW (segment_times w2, w2) (\<lambda>ts w3.
         let seg = \<lparr>sd_Offset = w_pos w1, sd_Length = w_pos w3 - w_pos w1, sd_Rows = of_nat (b_rows b0),
                    sd_MinTS = (case ts of None \<Rightarrow> 0 | Some (lo, hi) \<Rightarrow> lo),
                    sd_MaxTS = (case ts of None \<Rightarrow> 0 | Some (lo, hi) \<Rightarrow> hi), sd_Columns = cds\<rparr>;
             w4 = note_times ts w3
         in (Inr (), w4\<lparr>w_totalRows := w_totalRows w4 + of_nat (b_rows b0),
                        w_segments := w_segments w4 @ [seg],
                        w_builders := map builder_reset (w_builders w4)\<rparr>))))"

section \<open>The operations\<close>

definition writer_footer :: "writer \<Rightarrow> footer" where
  "writer_footer w =
     \<lparr>f_Schema = w_schema w, f_SourceType = wo_SourceType (w_opts w), f_TotalRows = w_totalRows w,
      f_MinTS = w_minTS w, f_MaxTS = w_maxTS w, f_Segments = w_segments w\<rparr>"

definition write_footer :: "'bm wenv \<Rightarrow> writer \<Rightarrow> unit wres" where
  "write_footer V w0 =
     bindW (append_footer [] (writer_footer w0), w0) (\<lambda>p w1.
     bindW (writer_write V p w1) (\<lambda>_ w2. (Inr (), w2\<lparr>w_dirty := False\<rparr>)))"

definition append_value :: "column_def \<Rightarrow> row_value \<Rightarrow> builder \<Rightarrow> builder" where
  "append_value c v b =
     (if v_Null v then append_null b
      else if type_kind (col_Type c) = KindInt then append_int (v_Int v) b
      else append_bytes (v_Bytes v) b)"

fun append_values :: "column_def list \<Rightarrow> builder list \<Rightarrow> row_record \<Rightarrow> builder list res" where
  "append_values cs bs [] = Inr bs"
| "append_values (c # cs) (b # bs) (v # vs) =
     bindE (append_values cs bs vs) (\<lambda>bs1. Inr (append_value c v b # bs1))"
| "append_values cs bs (v # vs) = Inl Panic"

definition append_record :: "'bm wenv \<Rightarrow> row_record \<Rightarrow> writer \<Rightarrow> unit wres" where
  "append_record V rec w =
     (if w_closed w then (Inl ClosedErr, w)
      else if length rec \<noteq> length (sch_Columns (w_schema w)) then (Inl (Err SchemaError), w)
      else
        bindW (append_values (sch_Columns (w_schema w)) (w_builders w) rec, w) (\<lambda>bs w1.
        let w2 = w1\<lparr>w_builders := bs, w_dirty := True\<rparr> in
        bindW (index_at bs 0, w2) (\<lambda>b0 w3.
          if wo_SegmentRows (w_opts w3) \<le> int (b_rows b0) then flush_segment V w3 else (Inr (), w3))))"

definition flush :: "'bm wenv \<Rightarrow> writer \<Rightarrow> unit wres" where
  "flush V w = flush_segment V w"

definition checkpoint :: "'bm wenv \<Rightarrow> writer \<Rightarrow> unit wres" where
  "checkpoint V w =
     (if w_closed w \<or> \<not> w_dirty w then (Inr (), w)
      else bindW (flush_segment V w) (\<lambda>_ w1. write_footer V w1))"

definition close :: "'bm wenv \<Rightarrow> writer \<Rightarrow> unit wres" where
  "close V w =
     (if w_closed w then (Inr (), w)
      else bindW (flush_segment V w) (\<lambda>_ w1.
           bindW (write_footer V w1) (\<lambda>_ w2. (Inr (), w2\<lparr>w_closed := True\<rparr>))))"

end
