(* ===== verification/Adapter.thy ===== *)
theory Adapter
  imports Exec Writer "HOL-Library.AList"
begin

text \<open>
  The source adapters of \<open>internal/adapter\<close>: the helpers that take a field of a decoded JSON
  object, the three adapters with their schemas, and their registry. The JSON decoder, the
  floating-point numbers and the parsers of times and addresses are standard-library
  parameters. \<open>Decode\<close> has one error, \<open>ErrSkip\<close>, so it returns an option.
\<close>

section \<open>JSON values and the standard library\<close>

datatype 'f json = JString string | JNumber 'f | JBool bool | JNull | JOther

text \<open>
  \<open>se_json\<close> is \<open>json.Unmarshal\<close> into a map (\<open>None\<close> for an error); \<open>se_fmt\<close> is \<open>FormatFloat\<close> with
  \<open>'f'\<close> and -1, \<open>se_neg\<close> the test \<open>t < 0\<close>, \<open>se_u64\<close> and \<open>se_i64\<close> the conversions of Go,
  \<open>se_parse_float\<close> is \<open>ParseFloat\<close>.
\<close>

record 'f source_env =
  se_std :: stdlib
  se_json :: "string \<Rightarrow> (string \<Rightarrow> 'f json option) option"
  se_fmt :: "'f \<Rightarrow> string"
  se_neg :: "'f \<Rightarrow> bool"
  se_u64 :: "'f \<Rightarrow> u64"
  se_i64 :: "'f \<Rightarrow> u64"
  se_parse_float :: "string \<Rightarrow> 'f option"

section \<open>Fields\<close>

fun as_string :: "'f source_env \<Rightarrow> (string \<Rightarrow> 'f json option) \<Rightarrow> string list \<Rightarrow> string option" where
  "as_string S m [] = None"
| "as_string S m (k # ks) =
     (case m k of
        Some (JString t) \<Rightarrow> Some t
      | Some (JNumber t) \<Rightarrow> Some (se_fmt S t)
      | Some (JBool t) \<Rightarrow> Some (if t then ''true'' else ''false'')
      | _ \<Rightarrow> as_string S m ks)"

fun as_uint :: "'f source_env \<Rightarrow> (string \<Rightarrow> 'f json option) \<Rightarrow> string list \<Rightarrow> u64 option" where
  "as_uint S m [] = None"
| "as_uint S m (k # ks) =
     (case m k of
        Some (JNumber t) \<Rightarrow> if se_neg S t then None else Some (se_u64 S t)
      | Some (JString t) \<Rightarrow> (case parse_uint t of Some n \<Rightarrow> Some (of_nat n) | None \<Rightarrow> as_uint S m ks)
      | _ \<Rightarrow> as_uint S m ks)"

definition epoch_to_nanos :: "u64 \<Rightarrow> u64" where
  "epoch_to_nanos n =
     (if sint n < 10 ^ 11 then n * 1000000000
      else if sint n < 10 ^ 14 then n * 1000000
      else if sint n < 10 ^ 17 then n * 1000
      else n)"

definition adapter_layouts :: "string list" where
  "adapter_layouts = [''2006-01-02T15:04:05.999999999Z07:00'', ''2006-01-02T15:04:05Z07:00'',
     ''2006-01-02T15:04:05'', ''2006-01-02 15:04:05'']"

definition parse_time_nanos :: "'f source_env \<Rightarrow> string \<Rightarrow> u64 option" where
  "parse_time_nanos S s =
     (if s = '''' then None
      else case try_layouts (se_std S) adapter_layouts s of
        Some t \<Rightarrow> Some t
      | None \<Rightarrow>
          (case atoi s of
             Some n \<Rightarrow> Some (epoch_to_nanos (word_of_int n))
           | None \<Rightarrow> map_option (\<lambda>f. epoch_to_nanos (se_i64 S f)) (se_parse_float S s)))"

definition ip_value :: "'f source_env \<Rightarrow> (string \<Rightarrow> 'f json option) \<Rightarrow> string list \<Rightarrow> row_value" where
  "ip_value S m keys =
     (case as_string S m keys of
        None \<Rightarrow> null_val
      | Some s \<Rightarrow> (case normalize_ip (se_std S) s of None \<Rightarrow> null_val | Some b \<Rightarrow> bytes_val b))"

definition str_value :: "'f source_env \<Rightarrow> (string \<Rightarrow> 'f json option) \<Rightarrow> string list \<Rightarrow> row_value" where
  "str_value S m keys = (case as_string S m keys of None \<Rightarrow> null_val | Some s \<Rightarrow> bytes_val (to_bytes s))"

definition uint_value :: "'f source_env \<Rightarrow> (string \<Rightarrow> 'f json option) \<Rightarrow> string list \<Rightarrow> row_value" where
  "uint_value S m keys = (case as_uint S m keys of None \<Rightarrow> null_val | Some v \<Rightarrow> int_val v)"

definition enum_value :: "string option \<Rightarrow> row_value" where
  "enum_value so = (case so of None \<Rightarrow> null_val | Some s \<Rightarrow> bytes_val (to_bytes s))"

definition upper_country :: "string \<Rightarrow> string" where
  "upper_country s =
     map (\<lambda>c. if (97 :: nat) \<le> of_char c \<and> of_char c \<le> (122 :: nat) then char_of (of_char c - (32 :: nat)) else c) s"

definition trim_space :: "string \<Rightarrow> string" where
  "trim_space b = rev (dropWhile is_space (rev (dropWhile is_space b)))"

section \<open>The adapters\<close>

definition column :: "string \<Rightarrow> logical_type \<Rightarrow> bool \<Rightarrow> bool \<Rightarrow> column_def" where
  "column name t indexed nullable =
     \<lparr>col_Name = to_bytes name, col_Type = t, col_Indexed = indexed, col_Nullable = nullable\<rparr>"

definition generic_flow_schema :: schema where
  "generic_flow_schema = \<lparr>sch_ID = 1, sch_Name = to_bytes ''generic-flow'', sch_Version = 1, sch_Columns =
     [column ''timestamp'' TypeTimestamp False False, column ''srcip'' TypeIP True False,
      column ''dstip'' TypeIP True False, column ''srcport'' TypePort False False,
      column ''dstport'' TypePort True False, column ''protocol'' TypeEnum True False,
      column ''asn'' TypeUint True False, column ''country'' TypeEnum True True,
      column ''eventtype'' TypeEnum True False, column ''bytes'' TypeUint False False,
      column ''packets'' TypeUint False False]\<rparr>"

text \<open>The start of both JSON adapters: the object and its timestamp.\<close>

definition json_event :: "'f source_env \<Rightarrow> string list \<Rightarrow> string \<Rightarrow> ((string \<Rightarrow> 'f json option) \<times> u64) option" where
  "json_event S keys line =
     (if length (trim_space line) = 0 then None
      else case se_json S line of
        None \<Rightarrow> None
      | Some m \<Rightarrow>
          (case as_string S m keys of
             None \<Rightarrow> None
           | Some tsStr \<Rightarrow> map_option (Pair m) (parse_time_nanos S tsStr)))"

definition generic_flow_decode :: "'f source_env \<Rightarrow> string \<Rightarrow> row_record option" where
  "generic_flow_decode S line =
     (case json_event S [''timestamp'', ''ts'', ''@timestamp''] line of
        None \<Rightarrow> None
      | Some (m, tsNanos) \<Rightarrow> Some
          [int_val tsNanos,
           ip_value S m [''srcip'', ''src_ip'', ''saddr''],
           ip_value S m [''dstip'', ''dst_ip'', ''daddr''],
           uint_value S m [''srcport'', ''src_port'', ''sport''],
           uint_value S m [''dstport'', ''dst_port'', ''dport''],
           enum_value (as_string S m [''protocol'', ''proto'']),
           uint_value S m [''asn'', ''src_asn''],
           enum_value (map_option upper_country (as_string S m [''country'', ''geoip_country'', ''src_country''])),
           enum_value (as_string S m [''eventtype'', ''event_type'', ''event'']),
           uint_value S m [''bytes'', ''in_bytes'', ''orig_bytes''],
           uint_value S m [''packets'', ''in_pkts'']])"

definition honeypot_schema :: schema where
  "honeypot_schema = \<lparr>sch_ID = 2, sch_Name = to_bytes ''honeypot'', sch_Version = 1, sch_Columns =
     [column ''timestamp'' TypeTimestamp False False, column ''srcip'' TypeIP True False,
      column ''srcport'' TypePort False False, column ''dstport'' TypePort True False,
      column ''protocol'' TypeEnum True False, column ''eventtype'' TypeEnum True False,
      column ''username'' TypeString True True, column ''password'' TypeString False True,
      column ''country'' TypeEnum True True, column ''asn'' TypeUint True False]\<rparr>"

definition honeypot_decode :: "'f source_env \<Rightarrow> string \<Rightarrow> row_record option" where
  "honeypot_decode S line =
     (case json_event S [''timestamp'', ''ts'', ''@timestamp'', ''eventtime''] line of
        None \<Rightarrow> None
      | Some (m, tsNanos) \<Rightarrow> Some
          [int_val tsNanos,
           ip_value S m [''srcip'', ''src_ip'', ''peerIP'', ''src_host''],
           uint_value S m [''srcport'', ''src_port'', ''peerPort''],
           uint_value S m [''dstport'', ''dst_port'', ''hostPort''],
           enum_value (as_string S m [''protocol'', ''proto'', ''service'']),
           enum_value (as_string S m [''eventtype'', ''event_type'', ''event'']),
           str_value S m [''username'', ''user''],
           str_value S m [''password'', ''pass''],
           enum_value (map_option upper_country (as_string S m [''country'', ''geoip_country''])),
           uint_value S m [''asn'', ''src_asn'']])"

definition web_access_schema :: schema where
  "web_access_schema = \<lparr>sch_ID = 3, sch_Name = to_bytes ''web-access'', sch_Version = 1, sch_Columns =
     [column ''timestamp'' TypeTimestamp False False, column ''srcip'' TypeIP True False,
      column ''method'' TypeEnum True False, column ''path'' TypeString True False,
      column ''status'' TypeUint True False, column ''bytes'' TypeUint False False,
      column ''referer'' TypeString False True, column ''useragent'' TypeString True True]\<rparr>"

text \<open>The opening characters of a span and its end.\<close>

definition span_end :: "char \<Rightarrow> char option" where
  "span_end c = (if c = CHR 0x22 then Some (CHR 0x22) else if c = CHR ''['' then Some (CHR '']'') else None)"

function split_clf :: "string \<Rightarrow> string list" where
  "split_clf s =
     (case dropWhile (\<lambda>c. c = CHR '' '') s of
        [] \<Rightarrow> []
      | c # rest \<Rightarrow>
          (case span_end c of
             Some e \<Rightarrow> takeWhile (\<lambda>x. x \<noteq> e) rest # split_clf (drop 1 (dropWhile (\<lambda>x. x \<noteq> e) rest))
           | None \<Rightarrow> takeWhile (\<lambda>x. x \<noteq> CHR '' '') (c # rest) # split_clf (dropWhile (\<lambda>x. x \<noteq> CHR '' '') (c # rest))))"
  by pat_completeness auto
termination
proof (relation "measure length")
  fix s c and rest :: string and e
  assume d: "dropWhile (\<lambda>c. c = CHR '' '') s = c # rest"
  have "length (c # rest) \<le> length s" using length_dropWhile_le [of "\<lambda>c. c = CHR '' ''" s] d by simp
  then show "(drop 1 (dropWhile (\<lambda>x. x \<noteq> e) rest), s) \<in> measure length"
    using length_dropWhile_le [of "\<lambda>x. x \<noteq> e" rest] by simp
next
  fix s c and rest :: string
  assume d: "dropWhile (\<lambda>c. c = CHR '' '') s = c # rest"
  then have "c \<noteq> CHR '' ''" by (auto simp: dropWhile_eq_Cons_conv)
  moreover have "length (c # rest) \<le> length s" using length_dropWhile_le [of "\<lambda>c. c = CHR '' ''" s] d by simp
  ultimately show "(dropWhile (\<lambda>x. x \<noteq> CHR '' '') (c # rest), s) \<in> measure length"
    using length_dropWhile_le [of "\<lambda>x. x \<noteq> CHR '' ''" rest] by simp
qed simp

declare split_clf.simps [simp del]

definition clf_time :: string where "clf_time = ''02/Jan/2006:15:04:05 -0700''"

text \<open>\<open>parts[0]\<close> and \<open>parts[1]\<close> of \<open>strings.SplitN(request, '' '', 3)\<close>, when there are two.\<close>

definition request_parts :: "string \<Rightarrow> (string \<times> string) option" where
  "request_parts request =
     (case dropWhile (\<lambda>c. c \<noteq> CHR '' '') request of
        [] \<Rightarrow> None
      | _ # rest \<Rightarrow> Some (takeWhile (\<lambda>c. c \<noteq> CHR '' '') request, takeWhile (\<lambda>c. c \<noteq> CHR '' '') rest))"

definition optional_text :: "string \<Rightarrow> row_value" where
  "optional_text t = (if t \<noteq> '''' \<and> t \<noteq> ''-'' then bytes_val (to_bytes t) else null_val)"

definition web_access_decode :: "'f source_env \<Rightarrow> string \<Rightarrow> row_record option" where
  "web_access_decode S line =
     (let s = trim_space line in
      if s = '''' \<or> hd s = CHR ''#'' then None
      else let tok = split_clf s in
        if length tok < 7 then None
        else case parse_time (se_std S) clf_time (tok ! 3) of
          None \<Rightarrow> None
        | Some t \<Rightarrow>
            (case request_parts (tok ! 4) of
               None \<Rightarrow> None
             | Some (method, path) \<Rightarrow> Some
                 [int_val t,
                  (case normalize_ip (se_std S) (tok ! 0) of None \<Rightarrow> null_val | Some b \<Rightarrow> bytes_val b),
                  bytes_val (to_bytes method),
                  bytes_val (to_bytes path),
                  (case parse_uint (tok ! 5) of None \<Rightarrow> null_val | Some n \<Rightarrow> int_val (of_nat n)),
                  (if tok ! 6 \<noteq> ''-'' then (case parse_uint (tok ! 6) of None \<Rightarrow> int_val 0 | Some n \<Rightarrow> int_val (of_nat n))
                   else int_val 0),
                  (if 9 \<le> length tok then optional_text (tok ! 7) else null_val),
                  (if 9 \<le> length tok then optional_text (tok ! 8) else null_val)]))"

section \<open>The registry\<close>

record 'f adapter =
  ad_Name :: string
  ad_Schema :: schema
  ad_Decode :: "'f source_env \<Rightarrow> string \<Rightarrow> row_record option"

definition generic_flow :: "'f adapter" where
  "generic_flow = \<lparr>ad_Name = ''generic-flow'', ad_Schema = generic_flow_schema, ad_Decode = generic_flow_decode\<rparr>"

definition honeypot :: "'f adapter" where
  "honeypot = \<lparr>ad_Name = ''honeypot'', ad_Schema = honeypot_schema, ad_Decode = honeypot_decode\<rparr>"

definition web_access :: "'f adapter" where
  "web_access = \<lparr>ad_Name = ''web-access'', ad_Schema = web_access_schema, ad_Decode = web_access_decode\<rparr>"

text \<open>The registry, a map, is an association list; this is its state after the three \<open>init\<close> functions.\<close>

definition register :: "string \<Rightarrow> 'f adapter \<Rightarrow> (string \<times> 'f adapter) list \<Rightarrow> (string \<times> 'f adapter) list" where
  "register name ad reg = AList.update name ad reg"

definition registry :: "(string \<times> 'f adapter) list" where
  "registry = register ''web-access'' web_access (register ''honeypot'' honeypot (register ''generic-flow'' generic_flow []))"

definition get_adapter :: "string \<Rightarrow> 'f adapter option" where
  "get_adapter name = map_of registry name"

definition adapter_names :: "string list" where
  "adapter_names = sort (map fst (registry :: (string \<times> unit adapter) list))"

lemma get_adapter_cases:
  "get_adapter name = (if name = ''generic-flow'' then Some generic_flow else if name = ''honeypot'' then Some honeypot
     else if name = ''web-access'' then Some web_access else None)"
  by (simp add: get_adapter_def registry_def register_def)

lemma adapter_names_eq: "adapter_names = [''generic-flow'', ''honeypot'', ''web-access'']"
proof -
  have "map fst (registry :: (string \<times> unit adapter) list) = [''generic-flow'', ''honeypot'', ''web-access'']"
    by (simp add: registry_def register_def)
  moreover have "sort [''generic-flow'', ''honeypot'', ''web-access''] = [''generic-flow'', ''honeypot'', ''web-access'']"
    by code_simp
  ultimately show ?thesis by (simp only: adapter_names_def)
qed

end
