(* ===== verification/Execute.thy ===== *)
theory Execute
  imports Exec
begin

text \<open>
  Statements executed over all segments: \<open>Execute\<close> with its three shapes of result, and
  \<open>Search\<close> (\<open>internal/query/exec.go\<close>, \<open>internal/query/search.go\<close>, \<open>pkg/ntcf/query.go\<close>).
  A loop over segments that stops early is a recursion over the remaining segments. The
  histograms of \<open>top\<close> are maps the code iterates over in no order before it sorts; here
  they are association lists.
\<close>

abbreviation reader_segments :: "reader \<Rightarrow> segment_dir list" where
  "reader_segments r \<equiv> f_Segments (r_footer r)"

section \<open>count\<close>

definition count_segment :: "'bm engine \<Rightarrow> reader \<Rightarrow> expr option \<Rightarrow> qresult \<Rightarrow> nat \<Rightarrow> qresult res" where
  "count_segment E r w res i =
     bindE (index_at (reader_segments r) i) (\<lambda>sd.
     bindE (eval_segment E r w (new_ctx i sd)) (\<lambda>(bm, c).
       Inr (tally E c bm (res\<lparr>q_Count := q_Count res + rb_cardinality (en_R E) bm\<rparr>))))"

definition exec_count :: "'bm engine \<Rightarrow> reader \<Rightarrow> stmt \<Rightarrow> qresult res" where
  "exec_count E r st =
     (if s_Where st = None then Inr ((new_result KindCount)\<lparr>q_Count := f_TotalRows (r_footer r)\<rparr>)
      else foldE (count_segment E r (s_Where st)) (new_result KindCount) [0..<length (reader_segments r)])"

section \<open>top\<close>

definition bump :: "'k \<Rightarrow> u64 \<Rightarrow> ('k \<times> u64) list \<Rightarrow> ('k \<times> u64) list" where
  "bump k n h = AList.update k ((case map_of h k of None \<Rightarrow> 0 | Some m \<Rightarrow> m) + n) h"

definition merge_hist :: "('k \<times> u64) list \<Rightarrow> ('k \<times> u64) list \<Rightarrow> ('k \<times> u64) list" where
  "merge_hist new h = fold (\<lambda>(k, n) h. bump k n h) new h"

record top_state =
  t_res :: qresult
  t_ints :: "(u64 \<times> u64) list"
  t_bytes :: "(bytes \<times> u64) list"

text \<open>The loop over the matching rows of a segment.\<close>

definition top_row :: "column_def \<Rightarrow> data \<Rightarrow> top_state \<Rightarrow> u32 \<Rightarrow> top_state res" where
  "top_row colDef d s i32 =
     (let i = unat i32 in
      if d_Rows d \<le> i then Inr s
      else bindE (is_null d i) (\<lambda>null.
        if null then Inr s
        else if type_kind (col_Type colDef) = KindInt then
          bindE (index_at (d_Ints d) i) (\<lambda>v. Inr (s\<lparr>t_ints := bump v 1 (t_ints s)\<rparr>))
        else bindE (index_at (d_Bytes d) i) (\<lambda>v. Inr (s\<lparr>t_bytes := bump v 1 (t_bytes s)\<rparr>))))"

definition top_scan :: "'bm engine \<Rightarrow> reader \<Rightarrow> expr option \<Rightarrow> nat \<Rightarrow> column_def \<Rightarrow> top_state \<Rightarrow> seg_ctx
    \<Rightarrow> top_state res" where
  "top_scan E r w colIdx colDef s c0 =
     bindE (eval_segment E r w c0) (\<lambda>(bm, c).
       if rb_is_empty (en_R E) bm then Inr (s\<lparr>t_res := tally E c bm (t_res s)\<rparr>)
       else bindE (ctx_col E r colIdx c) (\<lambda>(d, c1).
         bindE (foldE (top_row colDef d) s (rb_rows (en_R E) bm)) (\<lambda>s1.
         Inr (s1\<lparr>t_res := tally E c1 bm (t_res s1)\<rparr>))))"

definition top_segment :: "'bm engine \<Rightarrow> reader \<Rightarrow> expr option \<Rightarrow> nat \<Rightarrow> column_def \<Rightarrow> top_state \<Rightarrow> nat
    \<Rightarrow> top_state res" where
  "top_segment E r w colIdx colDef s i =
     bindE (index_at (reader_segments r) i) (\<lambda>sd.
       if w = None then
         bindE (reader_index (en_R E) r i colIdx) (\<lambda>ci.
           if ci_Inverted ci = None then top_scan E r w colIdx colDef s (new_ctx i sd)
           else if type_kind (col_Type colDef) = KindInt then
             Inr (s\<lparr>t_ints := merge_hist (histogram (en_R E) (ci_Inverted ci)) (t_ints s)\<rparr>)
           else Inr (s\<lparr>t_bytes := merge_hist (histogram_bytes (en_R E) (ci_Inverted ci)) (t_bytes s)\<rparr>))
       else top_scan E r w colIdx colDef s (new_ctx i sd))"

text \<open>Sorted by descending count, then by ascending key; \<open>items[:n]\<close> panics for a negative \<open>n\<close>.\<close>

definition top_order :: "string \<times> u64 \<Rightarrow> int \<times> string" where
  "top_order it = (- int (unat (snd it)), fst it)"

definition top_items :: "int \<Rightarrow> (string \<times> u64) list \<Rightarrow> string list list res" where
  "top_items n items =
     (let sorted = sort_key top_order items;
          k = (if int (length items) < n then int (length items) else n)
      in if k < 0 then Inl Panic
         else Inr (map (\<lambda>(key, count). [key, show_nat (unat count)]) (take (nat k) sorted)))"

definition exec_top :: "'bm engine \<Rightarrow> reader \<Rightarrow> agg \<Rightarrow> expr option \<Rightarrow> qresult res" where
  "exec_top E r ag w =
     bindE (column_at (reader_schema r) (ag_Col ag)) (\<lambda>(colIdx, colDef).
     bindE (foldE (top_segment E r w colIdx colDef)
        \<lparr>t_res = (new_result KindTop)\<lparr>q_Columns := [ag_Col ag, ''count'']\<rparr>, t_ints = [], t_bytes = []\<rparr>
        [0..<length (reader_segments r)]) (\<lambda>s.
     let t = col_Type colDef;
         items = (if type_kind t = KindInt then map (\<lambda>(v, n). (format_int_val (en_std E) t v, n)) (t_ints s)
                  else map (\<lambda>(v, n). (format_bytes_val (en_std E) t v, n)) (t_bytes s))
     in bindE (top_items (ag_N ag) items) (\<lambda>rows. Inr ((t_res s)\<lparr>q_Rows := rows\<rparr>))))"

section \<open>Rows\<close>

fun ctx_cols :: "'bm engine \<Rightarrow> reader \<Rightarrow> nat list \<Rightarrow> seg_ctx \<Rightarrow> (data list \<times> seg_ctx) res" where
  "ctx_cols E r [] c = Inr ([], c)"
| "ctx_cols E r (j # js) c =
     bindE (ctx_col E r j c) (\<lambda>(d, c1).
     bindE (ctx_cols E r js c1) (\<lambda>(ds, c2). Inr (d # ds, c2)))"

definition row_out :: "'bm engine \<Rightarrow> reader \<Rightarrow> (nat \<times> data) list \<Rightarrow> nat \<Rightarrow> string list res" where
  "row_out E r cols i =
     mapE (\<lambda>(j, d). bindE (index_at (sch_Columns (reader_schema r)) j) (\<lambda>cd.
             format_cell (en_std E) (col_Type cd) d i)) cols"

definition rows_segment :: "'bm engine \<Rightarrow> reader \<Rightarrow> expr option \<Rightarrow> nat list \<Rightarrow> int \<Rightarrow> qresult \<Rightarrow> seg_ctx
    \<Rightarrow> qresult res" where
  "rows_segment E r w outCols limit res c0 =
     bindE (eval_segment E r w c0) (\<lambda>(bm, c).
       if rb_is_empty (en_R E) bm then Inr (tally E c bm res)
       else bindE (ctx_cols E r outCols c) (\<lambda>(ds, c1).
         bindE (mapE (\<lambda>i. row_out E r (zip outCols ds) (unat i))
                 (take (nat (limit - int (length (q_Rows res)))) (rb_rows (en_R E) bm))) (\<lambda>out.
         Inr (tally E c1 bm (res\<lparr>q_Rows := q_Rows res @ out\<rparr>)))))"

fun rows_loop :: "'bm engine \<Rightarrow> reader \<Rightarrow> expr option \<Rightarrow> nat list \<Rightarrow> int \<Rightarrow> qresult \<Rightarrow> (nat \<times> segment_dir) list
    \<Rightarrow> qresult res" where
  "rows_loop E r w outCols limit res [] = Inr res"
| "rows_loop E r w outCols limit res ((i, sd) # segs) =
     (if limit \<le> int (length (q_Rows res)) then Inr res
      else bindE (rows_segment E r w outCols limit res (new_ctx i sd)) (\<lambda>res1.
        rows_loop E r w outCols limit res1 segs))"

fun projection_cols :: "schema \<Rightarrow> string list \<Rightarrow> nat list res" where
  "projection_cols sch [] = Inr []"
| "projection_cols sch (c # cs) =
     bindE (column_at sch c) (\<lambda>(j, _). bindE (projection_cols sch cs) (\<lambda>js. Inr (j # js)))"

definition exec_rows :: "'bm engine \<Rightarrow> reader \<Rightarrow> stmt \<Rightarrow> qresult res" where
  "exec_rows E r st =
     (let sch = reader_schema r in
      bindE (if s_Star st then Inr [0..<length (sch_Columns sch)] else projection_cols sch (s_Projection st)) (\<lambda>outCols.
        rows_loop E r (s_Where st) outCols (if s_Limit st = 0 then DefaultRowLimit else s_Limit st)
          ((new_result KindRows)\<lparr>q_Columns := map (\<lambda>j. from_bytes (col_Name (sch_Columns sch ! j))) outCols\<rparr>)
          (zip [0..<length (reader_segments r)] (reader_segments r))))"

section \<open>Statements and searches\<close>

definition execute :: "'bm engine \<Rightarrow> reader \<Rightarrow> stmt \<Rightarrow> qresult res" where
  "execute E r st =
     bindE (validate_stmt (reader_schema r) st) (\<lambda>_.
       case s_Aggregate st of
         Some a \<Rightarrow> if ag_Func a = ''count'' then exec_count E r st
                   else if ag_Func a = ''top'' then exec_top E r a (s_Where st)
                   else exec_rows E r st
       | None \<Rightarrow> exec_rows E r st)"

definition reader_query :: "'bm engine \<Rightarrow> reader \<Rightarrow> string \<Rightarrow> qresult res" where
  "reader_query E r q = bindE (parse q) (execute E r)"

definition resolve_search_columns :: "schema \<Rightarrow> string \<Rightarrow> string list" where
  "resolve_search_columns sch field =
     (let named = (\<lambda>t. map (\<lambda>c. from_bytes (col_Name c)) (filter (\<lambda>c. col_Type c = t) (sch_Columns sch)))
      in if field = ''ip'' then named TypeIP
         else if field = ''port'' then named TypePort
         else if schema_index sch (to_bytes field) \<noteq> None then [field] else [])"

definition search_where :: "string \<Rightarrow> string list \<Rightarrow> expr option" where
  "search_where value cols =
     fold (\<lambda>name w. let cmp = Cmp name ''='' [value] in
             Some (case w of None \<Rightarrow> cmp | Some e \<Rightarrow> Or e cmp)) cols None"

definition search :: "'bm engine \<Rightarrow> reader \<Rightarrow> string \<Rightarrow> string \<Rightarrow> int \<Rightarrow> qresult res" where
  "search E r field value limit =
     (let cols = resolve_search_columns (reader_schema r) field in
      if cols = [] then Inl (Err Corrupt)
      else execute E r \<lparr>s_Aggregate = None, s_Star = True, s_Projection = [],
             s_Where = search_where value cols, s_Limit = limit\<rparr>)"

end
