(* ===== verification/ParserFacts.thy ===== *)
theory ParserFacts
  imports Parser
begin

text \<open>
  What the parser guarantees on every input: it never indexes past its tokens, and a
  statement it returns has the shape the executor relies on (\<open>stmt_wf\<close>).
\<close>

section \<open>Well-formed statements\<close>

definition ident_ok :: "string \<Rightarrow> bool" where
  "ident_ok s \<longleftrightarrow> token_ok (Token TIdent s)"

fun expr_wf :: "expr \<Rightarrow> bool" where
  "expr_wf (And l r) \<longleftrightarrow> expr_wf l \<and> expr_wf r"
| "expr_wf (Or l r) \<longleftrightarrow> expr_wf l \<and> expr_wf r"
| "expr_wf (Cmp c op vs) \<longleftrightarrow>
     ident_ok c \<and> (op = ''in'' \<and> vs \<noteq> [] \<or> comparison_op op \<and> length vs = 1)"

definition select_wf :: "stmt \<Rightarrow> bool" where
  "select_wf st \<longleftrightarrow>
     (case s_Aggregate st of
        None \<Rightarrow>
          s_Star st \<and> s_Projection st = []
          \<or> \<not> s_Star st \<and> s_Projection st \<noteq> [] \<and> list_all ident_ok (s_Projection st)
            \<and> \<not> equal_fold (hd (s_Projection st)) ''count'' \<and> \<not> equal_fold (hd (s_Projection st)) ''top''
      | Some a \<Rightarrow> \<not> s_Star st \<and> s_Projection st = []
          \<and> (ag_Func a = ''count'' \<and> ag_Col a = ''*'' \<and> ag_N a = 0
             \<or> ag_Func a = ''top'' \<and> ident_ok (ag_Col a) \<and> 0 < ag_N a \<and> ag_N a < 2 ^ 63))"

definition stmt_wf :: "stmt \<Rightarrow> bool" where
  "stmt_wf st \<longleftrightarrow> select_wf st \<and> (case s_Where st of None \<Rightarrow> True | Some e \<Rightarrow> expr_wf e)
     \<and> 0 \<le> s_Limit st \<and> s_Limit st < 2 ^ 63"

section \<open>The parser on any tokens\<close>

definition p_safe :: "('a \<Rightarrow> bool) \<Rightarrow> ('a \<times> token list) res \<Rightarrow> bool" where
  "p_safe P r \<longleftrightarrow> r = Inl (Err Corrupt) \<or> (\<exists>x ts. r = Inr (x, ts) \<and> P x \<and> well_lexed ts)"

named_theorems p_safe_rules \<open>rules that follow the shape of the parser\<close>

lemma p_safe_Err [p_safe_rules]: "p_safe P (Inl (Err Corrupt))"
  by (simp add: p_safe_def)

lemma p_safe_return [p_safe_rules]: "P x \<Longrightarrow> well_lexed ts \<Longrightarrow> p_safe P (Inr (x, ts))"
  by (simp add: p_safe_def)

lemma p_safe_bind:
  "p_safe Q m \<Longrightarrow> (\<And>x ts. m = Inr (x, ts) \<Longrightarrow> Q x \<Longrightarrow> well_lexed ts \<Longrightarrow> p_safe P (f x ts))
     \<Longrightarrow> p_safe P (bindE m (\<lambda>(x, ts). f x ts))"
  by (auto simp: p_safe_def [of Q] p_safe_Err)

lemma p_safe_if [p_safe_rules]:
  "(b \<Longrightarrow> p_safe P r) \<Longrightarrow> (\<not> b \<Longrightarrow> p_safe P s) \<Longrightarrow> p_safe P (if b then r else s)"
  by simp

lemma well_lexed_cases:
  assumes "well_lexed ts"
  obtains "ts = [Token TEOF '''']" | t ts' where "ts = t # ts'" "token_ok t" "well_lexed ts'"
proof -
  from assms obtain xs where xs: "ts = xs @ [Token TEOF '''']" "list_all token_ok xs"
    by (auto simp: well_lexed_def)
  then show ?thesis
    using that by (cases xs) (auto simp: well_lexed_def)
qed

lemma p_safe_next [p_safe_rules]:
  assumes "well_lexed ts"
    and "\<And>t ts'. ts = t # ts' \<Longrightarrow> (t_kind t \<noteq> TEOF \<Longrightarrow> token_ok t \<and> well_lexed ts') \<Longrightarrow> p_safe P (f t ts')"
  shows "p_safe P (bindE (p_next ts) (\<lambda>(t, ts'). f t ts'))"
  using assms(1) by (cases rule: well_lexed_cases) (use assms(2) in auto)

lemma eat_keyword_cases:
  assumes "well_lexed ts"
  obtains "eat_keyword kw ts = Inr (False, ts)" "well_lexed ts"
    | ts' where "eat_keyword kw ts = Inr (True, ts')" "well_lexed ts'"
  using assms
proof (cases rule: well_lexed_cases)
  case 1
  then show ?thesis using that(1) assms by (simp add: eat_keyword_def)
next
  case (2 t ts')
  show ?thesis
  proof (cases "t_kind t = TIdent \<and> equal_fold (t_s t) kw")
    case True
    then show ?thesis using that(2) [of ts'] 2 by (simp add: eat_keyword_def)
  next
    case False
    then show ?thesis using that(1) assms 2 by (simp add: eat_keyword_def)
  qed
qed

lemma eat_punct_cases:
  assumes "well_lexed ts"
  obtains "eat_punct s ts = Inr (False, ts)" "well_lexed ts"
    | ts' where "eat_punct s ts = Inr (True, ts')" "well_lexed ts'"
  using assms
proof (cases rule: well_lexed_cases)
  case 1
  then show ?thesis using that(1) assms by (simp add: eat_punct_def)
next
  case (2 t ts')
  show ?thesis
  proof (cases "t_kind t = TPunct \<and> t_s t = s")
    case True
    then show ?thesis using that(2) [of ts'] 2 by (simp add: eat_punct_def)
  next
    case False
    then show ?thesis using that(1) assms 2 by (simp add: eat_punct_def)
  qed
qed

lemma p_safe_keyword [p_safe_rules]:
  "well_lexed ts \<Longrightarrow> (\<And>b ts'. well_lexed ts' \<Longrightarrow> p_safe P (f b ts'))
     \<Longrightarrow> p_safe P (bindE (eat_keyword kw ts) (\<lambda>(b, ts'). f b ts'))"
  by (erule eat_keyword_cases [of ts kw]) auto

lemma p_safe_punct [p_safe_rules]:
  "well_lexed ts \<Longrightarrow> (\<And>b ts'. well_lexed ts' \<Longrightarrow> p_safe P (f b ts'))
     \<Longrightarrow> p_safe P (bindE (eat_punct s ts) (\<lambda>(b, ts'). f b ts'))"
  by (erule eat_punct_cases [of ts s]) auto

lemma p_safe_expect [p_safe_rules]:
  "well_lexed ts \<Longrightarrow> (\<And>ts'. well_lexed ts' \<Longrightarrow> p_safe P (f ts')) \<Longrightarrow> p_safe P (bindE (expect_punct s ts) f)"
  by (erule eat_punct_cases [of ts s]) (auto simp: expect_punct_def p_safe_Err)

lemma p_safe_expect_keyword [p_safe_rules]:
  "well_lexed ts \<Longrightarrow> (\<And>ts'. well_lexed ts' \<Longrightarrow> p_safe P (f ts')) \<Longrightarrow> p_safe P (bindE (expect_keyword s ts) f)"
  by (erule eat_keyword_cases [of ts s]) (auto simp: expect_keyword_def p_safe_Err)

lemma parse_value_safe: "well_lexed ts \<Longrightarrow> p_safe (\<lambda>_. True) (parse_value ts)"
  unfolding parse_value_def by (intro p_safe_rules) auto

lemma parse_values_safe: "well_lexed ts \<Longrightarrow> p_safe (\<lambda>vs. vs \<noteq> []) (parse_values ts)"
proof (induction ts rule: parse_values.induct)
  case (1 ts)
  show ?case
    unfolding parse_values.simps [of ts]
  proof (rule p_safe_bind [OF parse_value_safe [OF "1.prems"]])
    fix v ts1
    assume v: "parse_value ts = Inr (v, ts1)" and w1: "well_lexed ts1"
    show "p_safe (\<lambda>vs. vs \<noteq> []) (bindE (eat_punct '','' ts1) (\<lambda>(more, ts2).
       if more then bindE (parse_values ts2) (\<lambda>(vs, ts3). Inr (v # vs, ts3)) else Inr ([v], ts2)))"
    proof (rule eat_punct_cases [OF w1, of "'',''"])
      fix ts2
      assume e: "eat_punct '','' ts1 = Inr (True, ts2)" and w2: "well_lexed ts2"
      have "p_safe (\<lambda>vs. vs \<noteq> []) (parse_values ts2)"
        by (rule "1.IH" [OF v refl e refl _ w2]) simp
      then have "p_safe (\<lambda>vs. vs \<noteq> []) (bindE (parse_values ts2) (\<lambda>(vs, ts3). Inr (v # vs, ts3)))"
        by (rule p_safe_bind) (simp add: p_safe_return)
      then show ?thesis by (simp add: e)
    qed (simp add: p_safe_return w1)
  qed
qed

lemma parse_projection_safe:
  "well_lexed ts \<Longrightarrow> p_safe (\<lambda>cs. cs \<noteq> [] \<and> list_all ident_ok cs \<and> hd cs = t_s (hd ts)) (parse_projection ts)"
proof (induction ts rule: parse_projection.induct)
  case (1 ts)
  show ?case
  proof (rule well_lexed_cases [OF "1.prems"])
    fix t ts1
    assume ts: "ts = t # ts1" and t: "token_ok t" and w1: "well_lexed ts1"
    show ?thesis
    proof (cases "t_kind t = TIdent")
      case True
      then have id: "ident_ok (t_s t)" using t by (cases t) (simp add: ident_ok_def)
      show ?thesis
      proof (rule eat_punct_cases [OF w1, of "'',''"])
        assume "eat_punct '','' ts1 = Inr (False, ts1)"
        then show ?thesis
          using True id w1 by (subst parse_projection.simps) (simp add: ts p_safe_return)
      next
        fix ts2
        assume e: "eat_punct '','' ts1 = Inr (True, ts2)" and w2: "well_lexed ts2"
        have n: "p_next ts = Inr (t, ts1)" by (simp add: ts)
        have "p_safe (\<lambda>cs. cs \<noteq> [] \<and> list_all ident_ok cs \<and> hd cs = t_s (hd ts2)) (parse_projection ts2)"
          by (rule "1.IH" [OF n refl _ e refl _ w2]) (simp_all add: True)
        then have "p_safe (\<lambda>cs. cs \<noteq> [] \<and> list_all ident_ok cs \<and> hd cs = t_s (hd ts))
            (bindE (parse_projection ts2) (\<lambda>(cols, ts3). Inr (t_s t # cols, ts3)))"
          by (rule p_safe_bind) (simp add: p_safe_return id ts)
        then show ?thesis
          using True e by (subst parse_projection.simps) (simp add: ts)
      qed
    qed (subst parse_projection.simps, simp add: ts p_safe_Err)
  qed (subst parse_projection.simps, simp add: p_safe_Err)
qed

lemma ident_of_token: "token_ok t \<Longrightarrow> t_kind t = TIdent \<Longrightarrow> ident_ok (t_s t)"
  by (cases t) (simp add: ident_ok_def)

lemma parse_cmp_safe:
  assumes "well_lexed ts"
  shows "p_safe expr_wf (parse_cmp ts)"
  unfolding parse_cmp_def
  by (intro p_safe_rules p_safe_bind [OF parse_values_safe] p_safe_bind [OF parse_value_safe] assms)
     (auto simp: ident_of_token)

lemma parse_expr_safe:
  "well_lexed ts1 \<Longrightarrow> p_safe expr_wf (parse_or ts1)"
  "expr_wf l2 \<Longrightarrow> well_lexed ts2 \<Longrightarrow> p_safe expr_wf (parse_or_loop l2 ts2)"
  "well_lexed ts3 \<Longrightarrow> p_safe expr_wf (parse_and ts3)"
  "expr_wf l4 \<Longrightarrow> well_lexed ts4 \<Longrightarrow> p_safe expr_wf (parse_and_loop l4 ts4)"
  "well_lexed ts5 \<Longrightarrow> p_safe expr_wf (parse_factor ts5)"
proof (induction ts1 and l2 ts2 and ts3 and l4 ts4 and ts5
    rule: parse_or_parse_or_loop_parse_and_parse_and_loop_parse_factor.induct)
  case (1 ts)
  show ?case
    unfolding parse_or.simps by (rule p_safe_bind [OF "1.IH"(1)]) (simp_all add: 1)
next
  case (2 left ts)
  show ?case
  proof (rule eat_keyword_cases [OF "2.prems"(2), of "''or''"])
    fix ts1
    assume e: "eat_keyword ''or'' ts = Inr (True, ts1)" and w: "well_lexed ts1"
    have "p_safe expr_wf (bindE (parse_and ts1) (\<lambda>(right, ts2). parse_or_loop (Or left right) ts2))"
    proof (rule p_safe_bind)
      show "p_safe expr_wf (parse_and ts1)" by (rule "2.IH"(1) [OF e refl]) (simp_all add: w)
      show "p_safe expr_wf (parse_or_loop (Or left x) ts2)"
        if "parse_and ts1 = Inr (x, ts2)" and "expr_wf x" and "well_lexed ts2" for x ts2
        by (rule "2.IH"(2) [OF e refl _ that(1) refl]) (simp_all add: 2 that)
    qed
    then show ?thesis by (subst parse_or_loop.simps) (simp add: e)
  qed (subst parse_or_loop.simps, simp add: p_safe_return "2.prems")
next
  case (3 ts)
  show ?case
    unfolding parse_and.simps by (rule p_safe_bind [OF "3.IH"(1)]) (simp_all add: 3)
next
  case (4 left ts)
  show ?case
  proof (rule eat_keyword_cases [OF "4.prems"(2), of "''and''"])
    fix ts1
    assume e: "eat_keyword ''and'' ts = Inr (True, ts1)" and w: "well_lexed ts1"
    have "p_safe expr_wf (bindE (parse_factor ts1) (\<lambda>(right, ts2). parse_and_loop (And left right) ts2))"
    proof (rule p_safe_bind)
      show "p_safe expr_wf (parse_factor ts1)" by (rule "4.IH"(1) [OF e refl]) (simp_all add: w)
      show "p_safe expr_wf (parse_and_loop (And left x) ts2)"
        if "parse_factor ts1 = Inr (x, ts2)" and "expr_wf x" and "well_lexed ts2" for x ts2
        by (rule "4.IH"(2) [OF e refl _ that(1) refl]) (simp_all add: 4 that)
    qed
    then show ?thesis by (subst parse_and_loop.simps) (simp add: e)
  qed (subst parse_and_loop.simps, simp add: p_safe_return "4.prems")
next
  case (5 ts)
  show ?case
  proof (rule eat_punct_cases [OF "5.prems", of "''(''"])
    fix ts1
    assume e: "eat_punct ''('' ts = Inr (True, ts1)" and w: "well_lexed ts1"
    have "p_safe expr_wf (parse_or ts1)" by (rule "5.IH" [OF e refl]) (simp_all add: w)
    then have "p_safe expr_wf (bindE (parse_or ts1) (\<lambda>(e, ts2).
        bindE (expect_punct '')'' ts2) (\<lambda>ts3. Inr (e, ts3))))"
      by (rule p_safe_bind) (intro p_safe_rules)
    then show ?thesis by (subst parse_factor.simps) (simp add: e)
  next
    assume "eat_punct ''('' ts = Inr (False, ts)"
    then show ?thesis
      using parse_cmp_safe [OF "5.prems"] by (subst parse_factor.simps) simp
  qed
qed

lemma atoi_bound: "atoi s = Some n \<Longrightarrow> n < 2 ^ 63"
  by (auto simp: atoi_def Let_def split: option.splits if_splits list.splits prod.splits)

lemma parse_top_n_safe:
  assumes "well_lexed ts"
  shows "p_safe (\<lambda>n. 0 < n \<and> n < 2 ^ 63) (parse_top_n ts)"
proof (rule eat_punct_cases [OF assms, of "'',''"])
  fix ts1
  assume e: "eat_punct '','' ts = Inr (True, ts1)" and w: "well_lexed ts1"
  show ?thesis
    using w
  proof (cases rule: well_lexed_cases)
    case 1
    then show ?thesis by (simp add: parse_top_n_def e p_safe_Err)
  next
    case (2 t ts')
    then show ?thesis
      by (auto simp: parse_top_n_def e p_safe_Err p_safe_return dest: atoi_bound split: option.split)
  qed
qed (simp add: parse_top_n_def p_safe_return)

lemma parse_select_list_safe:
  assumes "well_lexed ts"
  shows "p_safe (\<lambda>st. select_wf st \<and> s_Where st = None \<and> s_Limit st = 0) (parse_select_list empty_stmt ts)"
  using assms
proof (cases rule: well_lexed_cases)
  case 1
  then have "parse_projection ts = Inl (Err Corrupt)" by (subst parse_projection.simps) simp
  with 1 show ?thesis by (simp add: parse_select_list_def p_safe_Err)
next
  case (2 t ts')
  have proj: "p_safe (\<lambda>st. select_wf st \<and> s_Where st = None \<and> s_Limit st = 0)
      (bindE (parse_projection ts) (\<lambda>(cols, ts1). Inr (empty_stmt\<lparr>s_Projection := cols\<rparr>, ts1)))"
    if "\<not> equal_fold (t_s t) ''count''" and "\<not> equal_fold (t_s t) ''top''"
    by (rule p_safe_bind [OF parse_projection_safe [OF assms]])
       (use that 2 in \<open>simp add: p_safe_return select_wf_def empty_stmt_def\<close>)
  have noid: "parse_projection ts = Inl (Err Corrupt)" if "t_kind t \<noteq> TIdent"
    using that 2 by (subst parse_projection.simps) simp
  show ?thesis
    unfolding parse_select_list_def 2 p_cur.simps bindE.simps
    using 2 proj noid
    by (intro p_safe_rules p_safe_bind [OF parse_top_n_safe])
       (auto simp: p_safe_Err select_wf_def empty_stmt_def ident_of_token)
qed

lemma select_wf_update [simp]:
  "select_wf (st\<lparr>s_Where := w\<rparr>) = select_wf st" "select_wf (st\<lparr>s_Limit := n\<rparr>) = select_wf st"
  by (cases "s_Aggregate st"; simp add: select_wf_def)+

lemma parse_where_safe:
  assumes "well_lexed ts" and "select_wf st" and "s_Limit st = 0" and "s_Where st = None"
  shows "p_safe (\<lambda>st. stmt_wf st \<and> s_Limit st = 0) (parse_where st ts)"
proof (rule eat_keyword_cases [OF assms(1), of "''where''"])
  fix ts1
  assume e: "eat_keyword ''where'' ts = Inr (True, ts1)" and w: "well_lexed ts1"
  have "p_safe (\<lambda>st. stmt_wf st \<and> s_Limit st = 0)
      (bindE (parse_or ts1) (\<lambda>(e, ts2). Inr (st\<lparr>s_Where := Some e\<rparr>, ts2)))"
    by (rule p_safe_bind [OF parse_expr_safe(1) [OF w]])
       (rule p_safe_return, use assms in \<open>simp_all add: stmt_wf_def\<close>)
  then show ?thesis by (simp add: parse_where_def e)
next
  assume "eat_keyword ''where'' ts = Inr (False, ts)"
  moreover have "p_safe (\<lambda>st. stmt_wf st \<and> s_Limit st = 0) (Inr (st, ts))"
    by (rule p_safe_return) (use assms in \<open>simp_all add: stmt_wf_def\<close>)
  ultimately show ?thesis by (simp add: parse_where_def)
qed

lemma parse_limit_safe:
  assumes "well_lexed ts" and "stmt_wf st"
  shows "p_safe stmt_wf (parse_limit st ts)"
proof (rule eat_keyword_cases [OF assms(1), of "''limit''"])
  fix ts1
  assume e: "eat_keyword ''limit'' ts = Inr (True, ts1)" and w: "well_lexed ts1"
  show ?thesis
    using w
  proof (cases rule: well_lexed_cases)
    case 1
    then show ?thesis by (simp add: parse_limit_def e p_safe_Err)
  next
    case (2 t ts')
    then show ?thesis
      using assms(2)
      by (auto simp: parse_limit_def e stmt_wf_def intro!: p_safe_Err p_safe_return
          dest: atoi_bound split: option.split)
  qed
qed (use assms in \<open>simp add: parse_limit_def p_safe_return\<close>)

definition stmt_outcome :: "stmt res \<Rightarrow> bool" where
  "stmt_outcome r \<longleftrightarrow> r = Inl (Err Corrupt) \<or> (\<exists>st. r = Inr st \<and> stmt_wf st)"

lemma stmt_outcome_intros [simp]:
  "stmt_outcome (Inl (Err Corrupt))" "stmt_wf st \<Longrightarrow> stmt_outcome (Inr st)"
  by (simp_all add: stmt_outcome_def)

lemma stmt_outcome_bind:
  "p_safe Q m \<Longrightarrow> (\<And>x ts. Q x \<Longrightarrow> well_lexed ts \<Longrightarrow> stmt_outcome (f x ts))
     \<Longrightarrow> stmt_outcome (bindE m (\<lambda>(x, ts). f x ts))"
  by (auto simp: p_safe_def)

lemma stmt_outcome_keyword:
  "well_lexed ts \<Longrightarrow> (\<And>ts'. well_lexed ts' \<Longrightarrow> stmt_outcome (f ts')) \<Longrightarrow> stmt_outcome (bindE (expect_keyword s ts) f)"
  by (erule eat_keyword_cases [of ts s]) (auto simp: expect_keyword_def)

lemma stmt_outcome_end: "well_lexed ts \<Longrightarrow> stmt_wf st \<Longrightarrow>
    stmt_outcome (bindE (p_cur ts) (\<lambda>e. if t_kind e \<noteq> TEOF then Inl (Err Corrupt) else Inr st))"
  by (erule well_lexed_cases) simp_all

lemma stmt_outcome_table: "well_lexed ts \<Longrightarrow> (\<And>ts'. well_lexed ts' \<Longrightarrow> stmt_outcome (f ts')) \<Longrightarrow>
    stmt_outcome (bindE (p_next ts) (\<lambda>(t, ts'). if t_kind t \<noteq> TIdent then Inl (Err Corrupt) else f ts'))"
  by (erule well_lexed_cases) simp_all

lemma parse_stmt_safe:
  assumes "well_lexed ts"
  shows "stmt_outcome (parse_stmt ts)"
  unfolding parse_stmt_def
proof (intro stmt_outcome_keyword assms stmt_outcome_bind [OF parse_select_list_safe] stmt_outcome_table)
  fix st1 ts4
  assume st: "select_wf st1 \<and> s_Where st1 = None \<and> s_Limit st1 = 0" and w4: "well_lexed ts4"
  show "stmt_outcome (bindE (parse_where st1 ts4) (\<lambda>(st2, ts5).
            bindE (parse_limit st2 ts5) (\<lambda>(st3, ts6).
            bindE (p_cur ts6) (\<lambda>e.
              if t_kind e \<noteq> TEOF then Inl (Err Corrupt) else Inr st3))))"
    by (rule stmt_outcome_bind [OF parse_where_safe], use st w4 in simp_all)
       (rule stmt_outcome_bind [OF parse_limit_safe], simp_all add: stmt_outcome_end)
qed

lemma parse_outcome: "stmt_outcome (parse q)"
  using lex_cases [of q] parse_stmt_safe by (auto simp: parse_def)

text \<open>
  C28: on every text, parsing ends with a statement or with an error of the query language;
  it never indexes past the tokens. A statement it returns selects exactly one of an
  aggregate, all columns or a list of columns, has a positive \<open>N\<close> in \<open>top\<close>, a limit that is
  not negative, and in every comparison the number of values the executor reads.
\<close>

theorem parse_total:
  "parse q \<in> {Inl (Err Corrupt)} \<union> Inr ` {st. stmt_wf st}"
  using parse_outcome [of q] by (auto simp: stmt_outcome_def)

end
