(* ===== verification/ExecFacts.thy ===== *)
theory ExecFacts
  imports Execute ParserFacts
begin

text \<open>
  The executor against a reference semantics. \<open>row_matches\<close> says of one row of cells whether
  a predicate holds; \<open>segment_holds\<close> says that a segment of a file stores a table of rows:
  its columns decode to the cells, its zone maps bound them and its indexes answer for them.
  On such a segment every way the executor evaluates a predicate, pruned, looked up or
  scanned, finds exactly the rows that match.
\<close>

section \<open>Reference semantics\<close>

definition cell_eq :: "stdlib \<Rightarrow> logical_type \<Rightarrow> string \<Rightarrow> cell \<Rightarrow> bool" where
  "cell_eq L t v c = (case c of Null \<Rightarrow> False
     | IntCell x \<Rightarrow> norm_int L t v = Some x | BytesCell b \<Rightarrow> norm_bytes L t v = Some b)"

definition cell_cmp :: "stdlib \<Rightarrow> logical_type \<Rightarrow> string \<Rightarrow> string \<Rightarrow> cell \<Rightarrow> bool" where
  "cell_cmp L t op v c = (case c of Null \<Rightarrow> False
     | IntCell x \<Rightarrow> (case norm_int L t v of None \<Rightarrow> False | Some y \<Rightarrow> cmp_values op x y)
     | BytesCell b \<Rightarrow> (case norm_bytes L t v of None \<Rightarrow> False | Some y \<Rightarrow> cmp_values op b y))"

definition cell_test :: "stdlib \<Rightarrow> logical_type \<Rightarrow> string \<Rightarrow> string list \<Rightarrow> cell \<Rightarrow> bool" where
  "cell_test L t op vs c =
     (if op = ''in'' then \<exists>v \<in> set vs. cell_eq L t v c
      else if op = ''='' then cell_eq L t (hd vs) c else cell_cmp L t op (hd vs) c)"

fun row_matches :: "stdlib \<Rightarrow> schema \<Rightarrow> cell list \<Rightarrow> expr \<Rightarrow> bool" where
  "row_matches L sch row (And a b) \<longleftrightarrow> row_matches L sch row a \<and> row_matches L sch row b"
| "row_matches L sch row (Or a b) \<longleftrightarrow> row_matches L sch row a \<or> row_matches L sch row b"
| "row_matches L sch row (Cmp c op vs) \<longleftrightarrow>
     (case schema_index sch (to_bytes c) of None \<Rightarrow> False
      | Some j \<Rightarrow> cell_test L (col_Type (sch_Columns sch ! j)) op vs (row ! j))"

text \<open>Every comparison has the values the executor reads.\<close>

fun expr_vals :: "expr \<Rightarrow> bool" where
  "expr_vals (And l r) \<longleftrightarrow> expr_vals l \<and> expr_vals r"
| "expr_vals (Or l r) \<longleftrightarrow> expr_vals l \<and> expr_vals r"
| "expr_vals (Cmp c op vs) \<longleftrightarrow> op = ''in'' \<or> vs \<noteq> []"

lemma expr_wf_vals: "expr_wf e \<Longrightarrow> expr_vals e"
  by (induction e) auto

section \<open>What a file holds\<close>

definition cell_rows :: "cell list \<Rightarrow> cell \<Rightarrow> nat set" where
  "cell_rows cells c = {i. i < length cells \<and> cells ! i = c}"

text \<open>The directory entry of a column bounds its present cells.\<close>

definition zone_ok :: "column_dir \<Rightarrow> kind \<Rightarrow> cell list \<Rightarrow> bool" where
  "zone_ok cd k cells \<longleftrightarrow>
     (if k = KindInt then \<forall>v. IntCell v \<in> set cells \<longrightarrow> cd_MinInt cd \<le> v \<and> v \<le> cd_MaxInt cd
      else \<forall>v. BytesCell v \<in> set cells \<longrightarrow> cd_MinBytes cd \<le> v \<and> v \<le> cd_MaxBytes cd)"

definition index_ok :: "'bm engine \<Rightarrow> 'bm column_index \<Rightarrow> kind \<Rightarrow> cell list \<Rightarrow> bool" where
  "index_ok E ci k cells \<longleftrightarrow>
     (if k = KindInt then int_index_exact (en_X E) (en_R E) ci (\<lambda>v. cell_rows cells (IntCell v))
      else bytes_index_exact (en_X E) (en_R E) ci (\<lambda>v. cell_rows cells (BytesCell v)))"

definition column_holds :: "'bm engine \<Rightarrow> reader \<Rightarrow> nat \<Rightarrow> nat \<Rightarrow> kind \<Rightarrow> column_dir \<Rightarrow> cell list \<Rightarrow> bool" where
  "column_holds E r i j k cd cells \<longleftrightarrow>
     (\<exists>d. reader_column (en_X E) r i j = Inr d \<and> data_ok d \<and> d_Kind d = k \<and> data_cells d = cells)
     \<and> (\<exists>ci. reader_index (en_R E) r i j = Inr ci \<and> index_ok E ci k cells)
     \<and> zone_ok cd k cells"

definition segment_holds :: "'bm engine \<Rightarrow> reader \<Rightarrow> nat \<Rightarrow> cell list list \<Rightarrow> bool" where
  "segment_holds E r i table \<longleftrightarrow>
     i < length (reader_segments r) \<and> length table \<le> 2 ^ 24
     \<and> (let sd = reader_segments r ! i; cols = sch_Columns (reader_schema r) in
        unat (sd_Rows sd) = length table \<and> length (sd_Columns sd) = length cols
        \<and> (\<forall>j < length cols. column_holds E r i j (type_kind (col_Type (cols ! j))) (sd_Columns sd ! j)
             (map (\<lambda>row. row ! j) table)))"

section \<open>Scans\<close>

lemma foldE_collect:
  assumes "roaring_ok R" and "n \<le> 2 ^ 32"
    and "\<And>b k. k < n \<Longrightarrow> step b k = Inr (if P k then rb_add R b (of_nat k) else b)"
  shows "\<exists>bm. foldE step (rb_new R) [0..<n] = Inr bm \<and> rb_set R bm = {i. i < n \<and> P i}"
  using assms(2,3)
proof (induction n)
  case 0
  then show ?case by (simp add: rb_new_set [OF assms(1)])
next
  case (Suc n)
  then obtain bm where bm: "foldE step (rb_new R) [0..<n] = Inr bm" "rb_set R bm = {i. i < n \<and> P i}" by auto
  have n: "unat (of_nat n :: u32) = n"
    using Suc.prems(1) by (simp add: unsigned_of_nat take_bit_eq_mod)
  let ?bm = "if P n then rb_add R bm (of_nat n) else bm"
  have "rb_set R ?bm = {i. i < Suc n \<and> P i}"
    using bm(2) n by (auto simp: rb_add_set [OF assms(1)] less_Suc_eq)
  moreover have "foldE step (rb_new R) [0..<Suc n] = Inr ?bm"
    using bm(1) Suc.prems(2) [of n] by (simp add: foldE_append)
  ultimately show ?case by blast
qed

lemma scan_rows_ok:
  assumes "roaring_ok R" and "data_ok d" and "length vals = d_Rows d" and "d_Rows d \<le> 2 ^ 32"
  shows "\<exists>bm. scan_rows R d vals test = Inr bm
     \<and> rb_set R bm = {i. i < d_Rows d \<and> is_null d i = Inr False \<and> test (vals ! i)}"
  unfolding scan_rows_def
proof (rule foldE_collect [OF assms(1,4)])
  fix bm k
  assume "k < d_Rows d"
  then obtain null where "is_null d k = Inr null" and "index_at vals k = Inr (vals ! k)"
    using data_ok_is_null [OF assms(2), of k] assms(3) by auto
  then show "bindE (is_null d k) (\<lambda>null. if null then Inr bm
         else bindE (index_at vals k) (\<lambda>v. if test v then Inr (rb_add R bm (of_nat k)) else Inr bm))
      = Inr (if is_null d k = Inr False \<and> test (vals ! k) then rb_add R bm (of_nat k) else bm)"
    by simp
qed

lemma data_cells_nth: "i < d_Rows d \<Longrightarrow> data_cells d ! i = data_cell d i"
  by (simp add: data_cells_def)

lemma length_data_cells [simp]: "length (data_cells d) = d_Rows d"
  by (simp add: data_cells_def)

lemma data_ok_vals:
  assumes "data_ok d"
  shows "d_Kind d = KindInt \<Longrightarrow> length (d_Ints d) = d_Rows d"
    and "d_Kind d \<noteq> KindInt \<Longrightarrow> length (d_Bytes d) = d_Rows d"
  using assms by (auto simp: data_ok_def)

lemma data_cell_eq:
  assumes "data_ok d" and "i < d_Rows d"
  shows "d_Kind d = KindInt \<Longrightarrow> data_cell d i = (if is_null d i = Inr False then IntCell (d_Ints d ! i) else Null)"
    and "d_Kind d \<noteq> KindInt \<Longrightarrow> data_cell d i = (if is_null d i = Inr False then BytesCell (d_Bytes d ! i) else Null)"
  using data_ok_is_null [OF assms] by (auto simp: data_cell_def)

section \<open>The context\<close>

definition ctx_ok :: "'bm engine \<Rightarrow> reader \<Rightarrow> nat \<Rightarrow> seg_ctx \<Rightarrow> bool" where
  "ctx_ok E r i c \<longleftrightarrow> x_seg c = i
     \<and> (\<forall>j d. map_of (x_cache c) j = Some d \<longrightarrow> reader_column (en_X E) r i j = Inr d)"

lemma new_ctx_ok: "ctx_ok E r i (new_ctx i sd)"
  by (simp add: ctx_ok_def new_ctx_def)

lemma ctx_col_ok:
  assumes "ctx_ok E r i c" and "reader_column (en_X E) r i j = Inr d"
  shows "\<exists>c'. ctx_col E r j c = Inr (d, c') \<and> ctx_ok E r i c'"
  using assms by (cases "map_of (x_cache c) j") (auto simp: ctx_ok_def ctx_col_def)

text \<open>An evaluation that ends with the bitmap of a set of rows and a good context.\<close>

definition finds :: "'bm engine \<Rightarrow> reader \<Rightarrow> nat \<Rightarrow> ('bm \<times> seg_ctx) res \<Rightarrow> nat set \<Rightarrow> bool" where
  "finds E r i m A \<longleftrightarrow> (\<exists>bm c. m = Inr (bm, c) \<and> rb_set (en_R E) bm = A \<and> ctx_ok E r i c)"

lemma finds_return: "rb_set (en_R E) bm = A \<Longrightarrow> ctx_ok E r i c \<Longrightarrow> finds E r i (Inr (bm, c)) A"
  by (simp add: finds_def)

lemma finds_bind:
  assumes "finds E r i m A" and "\<And>bm c. rb_set (en_R E) bm = A \<Longrightarrow> ctx_ok E r i c \<Longrightarrow> finds E r i (f bm c) B"
  shows "finds E r i (bindE m (\<lambda>(bm, c). f bm c)) B"
  using assms by (auto simp: finds_def [of E r i m])

lemma finds_scan:
  assumes "ctx_ok E r i c" and "reader_column (en_X E) r i j = Inr d"
    and "\<exists>bm. g d = Inr bm \<and> rb_set (en_R E) bm = A"
  shows "finds E r i (bindE (ctx_col E r j c) (\<lambda>(d, c1). bindE (g d) (\<lambda>bm. Inr (bm, c1)))) A"
  using ctx_col_ok [OF assms(1,2)] assms(3) by (auto simp: finds_def)

section \<open>One column\<close>

lemma column_holds_data:
  assumes "column_holds E r i j k cd cells"
  obtains d where "reader_column (en_X E) r i j = Inr d" "data_ok d" "d_Kind d = k" "data_cells d = cells"
  using assms by (auto simp: column_holds_def)

lemma column_holds_int:
  assumes "column_holds E r i j KindInt cd cells" and "n < length cells"
  shows "cells ! n = Null \<or> (\<exists>x. cells ! n = IntCell x)"
proof -
  obtain d where d: "data_ok d" "d_Kind d = KindInt" "data_cells d = cells"
    using assms(1) by (auto elim: column_holds_data)
  then have "n < d_Rows d" using assms(2) by auto
  then show ?thesis using data_cell_eq(1) [OF d(1)] d by (auto simp: data_cells_nth)
qed

lemma column_holds_bytes:
  assumes "column_holds E r i j k cd cells" and "k \<noteq> KindInt" and "n < length cells"
  shows "cells ! n = Null \<or> (\<exists>x. cells ! n = BytesCell x)"
proof -
  obtain d where d: "data_ok d" "d_Kind d = k" "data_cells d = cells"
    using assms(1) by (auto elim: column_holds_data)
  then have "n < d_Rows d" using assms(3) by auto
  then show ?thesis using data_cell_eq(2) [OF d(1)] d assms(2) by (auto simp: data_cells_nth)
qed

lemma finds_scan_int:
  assumes "roaring_ok (en_R E)" and "column_holds E r i j KindInt cd cells" and "length cells \<le> 2 ^ 24"
    and "ctx_ok E r i c"
  shows "finds E r i (bindE (ctx_col E r j c) (\<lambda>(d, c1).
       bindE (scan_rows (en_R E) d (d_Ints d) test) (\<lambda>bm. Inr (bm, c1))))
     {n. n < length cells \<and> (\<exists>x. cells ! n = IntCell x \<and> test x)}"
proof -
  obtain d where d: "reader_column (en_X E) r i j = Inr d" "data_ok d" "d_Kind d = KindInt" "data_cells d = cells"
    using assms(2) by (rule column_holds_data)
  have n: "d_Rows d = length cells" using d(4) by auto
  have "\<exists>bm. scan_rows (en_R E) d (d_Ints d) test = Inr bm
     \<and> rb_set (en_R E) bm = {i. i < d_Rows d \<and> is_null d i = Inr False \<and> test (d_Ints d ! i)}"
    using scan_rows_ok [OF assms(1) d(2) data_ok_vals(1) [OF d(2,3)]] n assms(3) by simp
  moreover have "{i. i < d_Rows d \<and> is_null d i = Inr False \<and> test (d_Ints d ! i)}
      = {n. n < length cells \<and> (\<exists>x. cells ! n = IntCell x \<and> test x)}"
    using n data_cell_eq(1) [OF d(2) _ d(3)] d(4) by (auto simp: data_cells_nth split: if_splits)
  ultimately show ?thesis using finds_scan [OF assms(4) d(1)] by simp
qed

lemma finds_scan_bytes:
  assumes "roaring_ok (en_R E)" and "column_holds E r i j k cd cells" and "k \<noteq> KindInt"
    and "length cells \<le> 2 ^ 24" and "ctx_ok E r i c"
  shows "finds E r i (bindE (ctx_col E r j c) (\<lambda>(d, c1).
       bindE (scan_rows (en_R E) d (d_Bytes d) test) (\<lambda>bm. Inr (bm, c1))))
     {n. n < length cells \<and> (\<exists>x. cells ! n = BytesCell x \<and> test x)}"
proof -
  obtain d where d: "reader_column (en_X E) r i j = Inr d" "data_ok d" "d_Kind d = k" "data_cells d = cells"
    using assms(2) by (rule column_holds_data)
  have n: "d_Rows d = length cells" using d(4) by auto
  have k: "d_Kind d \<noteq> KindInt" using d(3) assms(3) by simp
  have "\<exists>bm. scan_rows (en_R E) d (d_Bytes d) test = Inr bm
     \<and> rb_set (en_R E) bm = {i. i < d_Rows d \<and> is_null d i = Inr False \<and> test (d_Bytes d ! i)}"
    using scan_rows_ok [OF assms(1) d(2) data_ok_vals(2) [OF d(2) k]] n assms(4) by simp
  moreover have "{i. i < d_Rows d \<and> is_null d i = Inr False \<and> test (d_Bytes d ! i)}
      = {n. n < length cells \<and> (\<exists>x. cells ! n = BytesCell x \<and> test x)}"
    using n data_cell_eq(2) [OF d(2) _ k] d(4) by (auto simp: data_cells_nth split: if_splits)
  ultimately show ?thesis using finds_scan [OF assms(5) d(1)] by simp
qed

section \<open>Equality\<close>

text \<open>What the three shortcuts and the scan agree on, for one normalised value.\<close>

lemma cell_eq_rows_int:
  assumes "column_holds E r i j KindInt cd cells"
  shows "{n. n < length cells \<and> cell_eq L t v (cells ! n)}
    = (case norm_int L t v of None \<Rightarrow> {} | Some x \<Rightarrow> cell_rows cells (IntCell x))"
proof -
  have "cell_eq L t v (cells ! n) \<longleftrightarrow>
      (case norm_int L t v of None \<Rightarrow> False | Some x \<Rightarrow> cells ! n = IntCell x)" if "n < length cells" for n
    using column_holds_int [OF assms that] by (auto simp: cell_eq_def split: option.split)
  then show ?thesis
    by (cases "norm_int L t v") (auto simp: cell_rows_def)
qed

lemma cell_eq_rows_bytes:
  assumes "column_holds E r i j k cd cells" and "k \<noteq> KindInt"
  shows "{n. n < length cells \<and> cell_eq L t v (cells ! n)}
    = (case norm_bytes L t v of None \<Rightarrow> {} | Some x \<Rightarrow> cell_rows cells (BytesCell x))"
proof -
  have "cell_eq L t v (cells ! n) \<longleftrightarrow>
      (case norm_bytes L t v of None \<Rightarrow> False | Some x \<Rightarrow> cells ! n = BytesCell x)" if "n < length cells" for n
    using column_holds_bytes [OF assms that] by (auto simp: cell_eq_def split: option.split)
  then show ?thesis
    by (cases "norm_bytes L t v") (auto simp: cell_rows_def)
qed

lemma finds_lookup:
  assumes "roaring_ok (en_R E)" and "lookup_rows (en_R E) bo = A" and "ctx_ok E r i c"
  shows "finds E r i (case bo of None \<Rightarrow> Inr (rb_new (en_R E), c) | Some bm \<Rightarrow> Inr (bm, c)) A"
  using assms by (auto simp: lookup_rows_def finds_def rb_new_set [OF assms(1)] split: option.split)

lemma cell_rows_empty: "c \<notin> set cells \<Longrightarrow> cell_rows cells c = {}"
  by (auto simp: cell_rows_def)

lemma eval_equality_int:
  assumes R: "roaring_ok (en_R E)" and col: "column_holds E r i j KindInt cd cells" and len: "length cells \<le> 2 ^ 24"
    and c: "ctx_ok E r i c" and k: "type_kind (col_Type def) = KindInt"
  shows "finds E r i (eval_equality E r j def cd v c)
     {n. n < length cells \<and> cell_eq (en_std E) (col_Type def) v (cells ! n)}"
proof -
  obtain ci where ci: "reader_index (en_R E) r i j = Inr ci"
    and ix: "int_index_exact (en_X E) (en_R E) ci (\<lambda>v. cell_rows cells (IntCell v))"
    using col by (auto simp: column_holds_def index_ok_def)
  have seg: "x_seg c = i" using c by (simp add: ctx_ok_def)
  have none: "finds E r i (Inr (rb_new (en_R E), c)) {}"
    using c by (simp add: finds_return rb_new_set [OF R])
  note rows = cell_eq_rows_int [OF col, of "en_std E" "col_Type def" v]
  have "finds E r i (eval_equality E r j def cd v c)
     (case norm_int (en_std E) (col_Type def) v of None \<Rightarrow> {} | Some x \<Rightarrow> cell_rows cells (IntCell x))" (is ?goal)
  proof (cases "norm_int (en_std E) (col_Type def) v")
    case None
    then show ?goal using none ci seg k by (simp add: eval_equality_def Let_def)
  next
    case (Some x)
    show ?goal
    proof (cases "0 < cd_NonNull cd \<and> (x < cd_MinInt cd \<or> cd_MaxInt cd < x)")
      case True
      then have "IntCell x \<notin> set cells"
        using col by (auto simp: column_holds_def zone_ok_def dest: leD)
      then show ?goal
        using none ci seg k Some True by (simp add: eval_equality_def Let_def cell_rows_empty)
    next
      case False
      have "\<exists>ex. bloom_excludes (\<lambda>bl. may_contain_u64 (en_X E) bl x) (ci_Bloom ci) = Inr ex
          \<and> (ex \<longrightarrow> cell_rows cells (IntCell x) = {})"
        using ix unfolding int_index_exact_def bloom_excludes_def
        by (cases "ci_Bloom ci") (auto dest!: spec [of _ x])
      then obtain ex where ex: "bloom_excludes (\<lambda>bl. may_contain_u64 (en_X E) bl x) (ci_Bloom ci) = Inr ex"
        "ex \<longrightarrow> cell_rows cells (IntCell x) = {}" by blast
      have scan: "finds E r i (scan_int_eq E r j x c) (cell_rows cells (IntCell x))"
        using finds_scan_int [OF R col len c, of "\<lambda>y. y = x"] by (simp add: scan_int_eq_def cell_rows_def)
      have look: "finds E r i (case lookup_int (ci_Inverted ci) x of None \<Rightarrow> Inr (rb_new (en_R E), c)
          | Some bm \<Rightarrow> Inr (bm, c)) (cell_rows cells (IntCell x))" if "ci_Inverted ci \<noteq> None"
        using that ix by (intro finds_lookup [OF R _ c]) (auto simp: int_index_exact_def)
      show ?goal
        using none ci seg k Some False ex scan look
        by (simp add: eval_equality_def Let_def) auto
    qed
  qed
  then show ?thesis by (simp only: rows)
qed

lemma eval_equality_bytes:
  assumes R: "roaring_ok (en_R E)" and col: "column_holds E r i j k cd cells" and len: "length cells \<le> 2 ^ 24"
    and c: "ctx_ok E r i c" and k: "type_kind (col_Type def) = k" and nk: "k \<noteq> KindInt"
  shows "finds E r i (eval_equality E r j def cd v c)
     {n. n < length cells \<and> cell_eq (en_std E) (col_Type def) v (cells ! n)}"
proof -
  obtain ci where ci: "reader_index (en_R E) r i j = Inr ci"
    and ix: "bytes_index_exact (en_X E) (en_R E) ci (\<lambda>v. cell_rows cells (BytesCell v))"
    using col nk by (auto simp: column_holds_def index_ok_def)
  have seg: "x_seg c = i" using c by (simp add: ctx_ok_def)
  have none: "finds E r i (Inr (rb_new (en_R E), c)) {}"
    using c by (simp add: finds_return rb_new_set [OF R])
  note rows = cell_eq_rows_bytes [OF col nk, of "en_std E" "col_Type def" v]
  have "finds E r i (eval_equality E r j def cd v c)
     (case norm_bytes (en_std E) (col_Type def) v of None \<Rightarrow> {} | Some x \<Rightarrow> cell_rows cells (BytesCell x))" (is ?goal)
  proof (cases "norm_bytes (en_std E) (col_Type def) v")
    case None
    then show ?goal using none ci seg k nk by (simp add: eval_equality_def Let_def)
  next
    case (Some x)
    show ?goal
    proof (cases "0 < cd_NonNull cd \<and> (x < cd_MinBytes cd \<or> cd_MaxBytes cd < x)")
      case True
      then have "BytesCell x \<notin> set cells"
        using col nk by (auto simp: column_holds_def zone_ok_def dest: leD)
      then show ?goal
        using none ci seg k nk Some True by (simp add: eval_equality_def Let_def cell_rows_empty)
    next
      case False
      have "\<exists>ex. bloom_excludes (\<lambda>bl. may_contain (en_X E) bl x) (ci_Bloom ci) = Inr ex
          \<and> (ex \<longrightarrow> cell_rows cells (BytesCell x) = {})"
        using ix unfolding bytes_index_exact_def bloom_excludes_def
        by (cases "ci_Bloom ci") (auto dest!: spec [of _ x])
      then obtain ex where ex: "bloom_excludes (\<lambda>bl. may_contain (en_X E) bl x) (ci_Bloom ci) = Inr ex"
        "ex \<longrightarrow> cell_rows cells (BytesCell x) = {}" by blast
      have scan: "finds E r i (scan_bytes_eq E r j x c) (cell_rows cells (BytesCell x))"
        using finds_scan_bytes [OF R col nk len c, of "\<lambda>y. y = x"] by (simp add: scan_bytes_eq_def cell_rows_def)
      have look: "finds E r i (case lookup_bytes (ci_Inverted ci) x of None \<Rightarrow> Inr (rb_new (en_R E), c)
          | Some bm \<Rightarrow> Inr (bm, c)) (cell_rows cells (BytesCell x))" if "ci_Inverted ci \<noteq> None"
        using that ix by (intro finds_lookup [OF R _ c]) (auto simp: bytes_index_exact_def)
      show ?goal
        using none ci seg k nk Some False ex scan look
        by (simp add: eval_equality_def Let_def) auto
    qed
  qed
  then show ?thesis by (simp only: rows)
qed

lemma eval_equality_ok:
  assumes "roaring_ok (en_R E)" and "column_holds E r i j (type_kind (col_Type def)) cd cells"
    and "length cells \<le> 2 ^ 24" and "ctx_ok E r i c"
  shows "finds E r i (eval_equality E r j def cd v c)
     {n. n < length cells \<and> cell_eq (en_std E) (col_Type def) v (cells ! n)}"
  using eval_equality_int [of E r i j cd cells c "def" v]
    eval_equality_bytes [OF assms(1,2,3,4) refl, of v] assms
  by (cases "type_kind (col_Type def) = KindInt") simp_all

lemma eval_scan_ok:
  assumes R: "roaring_ok (en_R E)" and col: "column_holds E r i j (type_kind (col_Type def)) cd cells"
    and len: "length cells \<le> 2 ^ 24" and c: "ctx_ok E r i c"
  shows "finds E r i (eval_scan E r j def op v c)
     {n. n < length cells \<and> cell_cmp (en_std E) (col_Type def) op v (cells ! n)}"
proof -
  obtain d where d: "reader_column (en_X E) r i j = Inr d" using col by (rule column_holds_data)
  obtain c1 where c1: "ctx_col E r j c = Inr (d, c1)" "ctx_ok E r i c1"
    using ctx_col_ok [OF c d] by blast
  have none: "finds E r i (Inr (rb_new (en_R E), c1)) {}"
    using c1 by (simp add: finds_return rb_new_set [OF R])
  show ?thesis
  proof (cases "type_kind (col_Type def) = KindInt")
    case True
    have cells: "cell_cmp (en_std E) (col_Type def) op v (cells ! n) \<longleftrightarrow>
        (\<exists>x y. cells ! n = IntCell x \<and> norm_int (en_std E) (col_Type def) v = Some y \<and> cmp_values op x y)"
      if "n < length cells" for n
      using column_holds_int [of E r i j cd cells n] col that True
      by (auto simp: cell_cmp_def split: option.split)
    show ?thesis
    proof (cases "norm_int (en_std E) (col_Type def) v")
      case None
      then have "{n. n < length cells \<and> cell_cmp (en_std E) (col_Type def) op v (cells ! n)} = {}"
        using cells by auto
      with None show ?thesis using none c1 True by (simp only: eval_scan_def) simp
    next
      case (Some y)
      then have eq: "{n. n < length cells \<and> cell_cmp (en_std E) (col_Type def) op v (cells ! n)}
          = {n. n < length cells \<and> (\<exists>x. cells ! n = IntCell x \<and> cmp_values op x y)}"
        using cells by auto
      have "finds E r i (bindE (ctx_col E r j c) (\<lambda>(d, c1).
           bindE (scan_rows (en_R E) d (d_Ints d) (\<lambda>x. cmp_values op x y)) (\<lambda>bm. Inr (bm, c1))))
         {n. n < length cells \<and> (\<exists>x. cells ! n = IntCell x \<and> cmp_values op x y)}"
        using finds_scan_int [OF R _ len c] col True by simp
      then show ?thesis unfolding eq using Some True by (simp add: eval_scan_def)
    qed
  next
    case False
    have cells: "cell_cmp (en_std E) (col_Type def) op v (cells ! n) \<longleftrightarrow>
        (\<exists>x y. cells ! n = BytesCell x \<and> norm_bytes (en_std E) (col_Type def) v = Some y \<and> cmp_values op x y)"
      if "n < length cells" for n
      using column_holds_bytes [OF col False that] by (auto simp: cell_cmp_def split: option.split)
    show ?thesis
    proof (cases "norm_bytes (en_std E) (col_Type def) v")
      case None
      then have "{n. n < length cells \<and> cell_cmp (en_std E) (col_Type def) op v (cells ! n)} = {}"
        using cells by auto
      with None show ?thesis using none c1 False by (simp only: eval_scan_def) simp
    next
      case (Some y)
      then have eq: "{n. n < length cells \<and> cell_cmp (en_std E) (col_Type def) op v (cells ! n)}
          = {n. n < length cells \<and> (\<exists>x. cells ! n = BytesCell x \<and> cmp_values op x y)}"
        using cells by auto
      show ?thesis
        unfolding eq using finds_scan_bytes [OF R col False len c] Some False by (simp add: eval_scan_def)
    qed
  qed
qed

lemma eval_in_ok:
  assumes R: "roaring_ok (en_R E)" and col: "column_holds E r i j (type_kind (col_Type def)) cd cells"
    and len: "length cells \<le> 2 ^ 24" and "ctx_ok E r i c"
  shows "finds E r i (eval_in E r j def cd vs out c)
     (rb_set (en_R E) out \<union> {n. n < length cells \<and> (\<exists>v \<in> set vs. cell_eq (en_std E) (col_Type def) v (cells ! n))})"
  using assms(4)
proof (induction vs arbitrary: out c)
  case Nil
  then show ?case by (simp add: finds_return)
next
  case (Cons v vs)
  have "finds E r i (eval_in E r j def cd (v # vs) out c)
     (rb_set (en_R E) out \<union> {n. n < length cells \<and> cell_eq (en_std E) (col_Type def) v (cells ! n)}
        \<union> {n. n < length cells \<and> (\<exists>v \<in> set vs. cell_eq (en_std E) (col_Type def) v (cells ! n))})"
    unfolding eval_in.simps
  proof (rule finds_bind [OF eval_equality_ok [OF R col len Cons.prems]])
    fix bm c1
    assume "rb_set (en_R E) bm = {n. n < length cells \<and> cell_eq (en_std E) (col_Type def) v (cells ! n)}"
      and "ctx_ok E r i c1"
    then show "finds E r i (eval_in E r j def cd vs (rb_or (en_R E) out bm) c1)
     (rb_set (en_R E) out \<union> {n. n < length cells \<and> cell_eq (en_std E) (col_Type def) v (cells ! n)}
        \<union> {n. n < length cells \<and> (\<exists>v \<in> set vs. cell_eq (en_std E) (col_Type def) v (cells ! n))})"
      using Cons.IH [of c1 "rb_or (en_R E) out bm"] by (simp add: rb_or_set [OF R])
  qed
  moreover have "{n. n < length cells \<and> cell_eq (en_std E) (col_Type def) v (cells ! n)}
        \<union> {n. n < length cells \<and> (\<exists>v \<in> set vs. cell_eq (en_std E) (col_Type def) v (cells ! n))}
      = {n. n < length cells \<and> (\<exists>v \<in> set (v # vs). cell_eq (en_std E) (col_Type def) v (cells ! n))}"
    by auto
  ultimately show ?case by (simp only: Un_assoc)
qed

section \<open>One segment\<close>

lemma segment_holds_column:
  assumes "segment_holds E r i table" and "j < length (sch_Columns (reader_schema r))"
  shows "column_holds E r i j (type_kind (col_Type (sch_Columns (reader_schema r) ! j)))
     (sd_Columns (reader_segments r ! i) ! j) (map (\<lambda>row. row ! j) table)"
  using assms by (simp add: segment_holds_def Let_def)

lemma finds_cong: "finds E r i m A \<Longrightarrow> A = B \<Longrightarrow> finds E r i m B"
  by simp

lemma eval_cmp_ok:
  assumes R: "roaring_ok (en_R E)" and seg: "segment_holds E r i table" and c: "ctx_ok E r i c"
    and ix: "schema_index (reader_schema r) (to_bytes col) = Some j" and vs: "op = ''in'' \<or> vs \<noteq> []"
  shows "finds E r i (eval_cmp E r col op vs c)
     {n. n < length table \<and> cell_test (en_std E) (col_Type (sch_Columns (reader_schema r) ! j)) op vs (table ! n ! j)}"
proof -
  let ?def = "sch_Columns (reader_schema r) ! j" and ?sd = "reader_segments r ! i"
  let ?cells = "map (\<lambda>row. row ! j) table"
  have j: "j < length (sch_Columns (reader_schema r))" by (rule schema_index_bound [OF ix])
  have i: "i < length (reader_segments r)" "j < length (sd_Columns ?sd)" "length ?cells \<le> 2 ^ 24" "x_seg c = i"
    using seg c j by (auto simp: segment_holds_def Let_def ctx_ok_def)
  note col = segment_holds_column [OF seg j]
  have eq: "eval_cmp E r col op vs c =
      (if op = ''in'' then eval_in E r j ?def (sd_Columns ?sd ! j) vs (rb_new (en_R E)) c
       else bindE (index_at vs 0) (\<lambda>v.
         if op = ''='' then eval_equality E r j ?def (sd_Columns ?sd ! j) v c else eval_scan E r j ?def op v c))"
    using ix j i by (simp add: eval_cmp_def column_at_def)
  consider "op = ''in''" | "op \<noteq> ''in''" "op = ''=''" | "op \<noteq> ''in''" "op \<noteq> ''=''" by blast
  then show ?thesis
  proof cases
    case 1
    show ?thesis
      unfolding eq using 1 eval_in_ok [OF R col i(3) c, of vs "rb_new (en_R E)"]
      by (simp add: rb_new_set [OF R] cell_test_def) (erule finds_cong, auto)
  next
    case 2
    then have v: "index_at vs 0 = Inr (hd vs)" using vs by (cases vs) simp_all
    show ?thesis
      unfolding eq using 2 v eval_equality_ok [OF R col i(3) c, of "hd vs"]
      by (simp add: cell_test_def) (erule finds_cong, auto)
  next
    case 3
    then have v: "index_at vs 0 = Inr (hd vs)" using vs by (cases vs) simp_all
    show ?thesis
      unfolding eq using 3 v eval_scan_ok [OF R col i(3) c, of op "hd vs"]
      by (simp add: cell_test_def) (erule finds_cong, auto)
  qed
qed

lemma check_column_iff: "check_column sch name = Inr () \<longleftrightarrow> (\<exists>j. schema_index sch (to_bytes name) = Some j)"
  by (auto simp: check_column_def)

lemma eval_expr_ok:
  assumes R: "roaring_ok (en_R E)" and seg: "segment_holds E r i table"
    and "validate_expr (reader_schema r) e = Inr ()" and "expr_vals e" and "ctx_ok E r i c"
  shows "finds E r i (eval_expr E r e c)
     {n. n < length table \<and> row_matches (en_std E) (reader_schema r) (table ! n) e}"
  using assms(3-)
proof (induction e arbitrary: c)
  case (And a b)
  have "finds E r i (eval_expr E r (And a b) c)
     ({n. n < length table \<and> row_matches (en_std E) (reader_schema r) (table ! n) a}
       \<inter> {n. n < length table \<and> row_matches (en_std E) (reader_schema r) (table ! n) b})"
    unfolding eval_expr.simps
    by (rule finds_bind, rule And.IH(1), use And.prems in \<open>simp_all add: res_iff\<close>)
       (rule finds_bind, rule And.IH(2), simp_all add: finds_return rb_and_set [OF R])
  then show ?case by (rule finds_cong) auto
next
  case (Or a b)
  have "finds E r i (eval_expr E r (Or a b) c)
     ({n. n < length table \<and> row_matches (en_std E) (reader_schema r) (table ! n) a}
       \<union> {n. n < length table \<and> row_matches (en_std E) (reader_schema r) (table ! n) b})"
    unfolding eval_expr.simps
    by (rule finds_bind, rule Or.IH(1), use Or.prems in \<open>simp_all add: res_iff\<close>)
       (rule finds_bind, rule Or.IH(2), simp_all add: finds_return rb_or_set [OF R])
  then show ?case by (rule finds_cong) auto
next
  case (Cmp col op vs)
  then obtain j where j: "schema_index (reader_schema r) (to_bytes col) = Some j"
    by (auto simp: check_column_iff)
  have "op = ''in'' \<or> vs \<noteq> []" using Cmp.prems(2) by auto
  from eval_cmp_ok [OF R seg Cmp.prems(3) j this] j show ?case by simp
qed

lemma eval_segment_ok:
  assumes R: "roaring_ok (en_R E)" and seg: "segment_holds E r i table"
    and "\<And>e. w = Some e \<Longrightarrow> validate_expr (reader_schema r) e = Inr () \<and> expr_vals e"
  shows "finds E r i (eval_segment E r w (new_ctx i (reader_segments r ! i)))
     {n. n < length table \<and> (case w of None \<Rightarrow> True | Some e \<Rightarrow> row_matches (en_std E) (reader_schema r) (table ! n) e)}"
proof (cases w)
  case None
  have n: "unat (sd_Rows (reader_segments r ! i)) = length table" "length table \<le> 2 ^ 32"
    using seg by (auto simp: segment_holds_def Let_def)
  from rb_add_range_set [OF R, of "sd_Rows (reader_segments r ! i)" "rb_new (en_R E)" 0] n
  obtain bm where bm: "rb_add_range (en_R E) (rb_new (en_R E)) 0 (sd_Rows (reader_segments r ! i)) = Inr bm"
    and rows: "rb_set (en_R E) bm = {0..<length table}"
    by (simp add: rb_new_set [OF R]) blast
  have "{n. n < length table \<and> (case w of None \<Rightarrow> True | Some e \<Rightarrow> row_matches (en_std E) (reader_schema r) (table ! n) e)}
      = {0..<length table}"
    using None by auto
  moreover have "eval_segment E r w (new_ctx i (reader_segments r ! i)) = Inr (bm, new_ctx i (reader_segments r ! i))"
    using None bm by (simp add: eval_segment_def new_ctx_def)
  ultimately show ?thesis
    using rows new_ctx_ok [of E r i "reader_segments r ! i"] by (simp add: finds_return)
next
  case (Some e)
  then show ?thesis
    using eval_expr_ok [OF R seg _ _ new_ctx_ok, of e "reader_segments r ! i"] assms(3) [of e]
    by (simp add: eval_segment_def)
qed

end
