(* ===== verification/WriterFacts.thy ===== *)
theory WriterFacts
  imports Writer ExecFacts
begin

text \<open>
  What the writer stores is what the executor reads back. \<open>column_stored\<close> says that a
  directory entry points, in the file so far, at a chunk and an index that decode to given
  cells; everything stored stays stored, since the file only grows. A table of rows that
  the codecs can carry (\<open>storable\<close>) is stored by a flush.
\<close>

section \<open>A stream that takes everything\<close>

definition reliable :: "'bm wenv \<Rightarrow> bool" where
  "reliable V \<longleftrightarrow> (\<forall>out p. we_sink V out p = (length p, False))"

definition grow :: "bytes \<Rightarrow> writer \<Rightarrow> writer" where
  "grow p w = w\<lparr>w_out := w_out w @ p, w_pos := w_pos w + of_nat (length p)\<rparr>"

lemma grow_simps [simp]:
  "w_out (grow p w) = w_out w @ p" "w_schema (grow p w) = w_schema w" "w_opts (grow p w) = w_opts w"
  "w_codec (grow p w) = w_codec w" "w_builders (grow p w) = w_builders w" "w_tsCol (grow p w) = w_tsCol w"
  "w_segments (grow p w) = w_segments w" "w_totalRows (grow p w) = w_totalRows w"
  "w_closed (grow p w) = w_closed w" "w_dirty (grow p w) = w_dirty w"
  "w_minTS (grow p w) = w_minTS w" "w_maxTS (grow p w) = w_maxTS w" "w_haveTS (grow p w) = w_haveTS w"
  "w_pos (grow p w) = w_pos w + of_nat (length p)"
  by (simp_all add: grow_def)

lemma grow_Nil [simp]: "grow [] w = w"
  by (simp add: grow_def)

lemma grow_grow [simp]: "grow q (grow p w) = grow (p @ q) w"
  by (simp add: grow_def)

lemma writer_write_ok: "reliable V \<Longrightarrow> writer_write V p w = (Inr (), grow p w)"
  by (simp add: writer_write_def reliable_def grow_def)

section \<open>What is stored\<close>

definition blob_at :: "bytes \<Rightarrow> u64 \<Rightarrow> u64 \<Rightarrow> bytes \<Rightarrow> bool" where
  "blob_at out off len bs \<longleftrightarrow> unat off + unat len \<le> length out \<and> take (unat len) (drop (unat off) out) = bs"

lemma blob_at_append: "blob_at out off len bs \<Longrightarrow> blob_at (out @ ext) off len bs"
  by (auto simp: blob_at_def)

lemma blob_at_new:
  assumes "length out + length bs < 2 ^ 64"
  shows "blob_at (out @ bs) (of_nat (length out)) (of_nat (length bs)) bs"
  using assms by (simp add: blob_at_def unat_of_nat_u64)

definition column_stored :: "'bm engine \<Rightarrow> bytes \<Rightarrow> kind \<Rightarrow> column_dir \<Rightarrow> cell list \<Rightarrow> bool" where
  "column_stored E out k cd cells \<longleftrightarrow>
     (\<exists>bs d. blob_at out (cd_ChunkOffset cd) (cd_ChunkLength cd) bs \<and> decode_chunk (en_X E) bs = Inr d
        \<and> data_ok d \<and> d_Kind d = k \<and> data_cells d = cells)
     \<and> (cd_IndexLength cd = 0 \<or>
        (\<exists>bs ci. blob_at out (cd_IndexOffset cd) (cd_IndexLength cd) bs
           \<and> read_column_index (en_R E) bs = Inr ci \<and> index_ok E ci k cells))
     \<and> zone_ok cd k cells \<and> column_dir_ok k cd"

lemma column_stored_append: "column_stored E out k cd cells \<Longrightarrow> column_stored E (out @ ext) k cd cells"
  unfolding column_stored_def using blob_at_append by blast

section \<open>What the codecs can carry\<close>

definition column_ready :: "externals \<Rightarrow> comp_id \<Rightarrow> builder \<Rightarrow> bool" where
  "column_ready X cid b \<longleftrightarrow> values_ok b \<and>
     (case encode_semantic b of Inl _ \<Rightarrow> False
      | Inr (e, encoded) \<Rightarrow> within_limits (snd (entropy_stage X (Some cid) encoded)) encoded \<and> inverts X cid encoded)"

lemma column_ready_encode:
  assumes "builder_ok b" and "column_ready X cid b"
  obtains chunk st d where "builder_encode X (Some cid) b = Inr (chunk, st)" and "decode_chunk X chunk = Inr d"
    and "data_ok d" and "data_cells d = builder_cells b" and "d_Kind d = b_kind b"
proof -
  obtain e encoded where e: "encode_semantic b = Inr (e, encoded)" "values_ok b"
    "within_limits (snd (entropy_stage X (Some cid) encoded)) encoded" "inverts X cid encoded"
    using assms(2) by (auto simp: column_ready_def split: sum.splits)
  obtain c stored where s: "entropy_stage X (Some cid) encoded = (c, stored)"
    by (cases "entropy_stage X (Some cid) encoded")
  have "within_limits stored encoded" using e(3) s by simp
  from builder_readback [OF assms(1) e(2,1) s this] e(4) that show ?thesis by auto
qed

text \<open>The rows in which a builder's stream holds a value are the cells that hold it.\<close>

lemma builder_holders_int:
  assumes "builder_ok b" and "b_kind b = KindInt"
  shows "holders (Some (present_at b)) 0 (b_ints b) v = cell_rows (builder_cells b) (IntCell v)"
  using assms by (auto simp: holders_def cell_rows_def skipped_def builder_cells_def builder_cell_def builder_ok_def
      split: if_splits)

lemma builder_holders_bytes:
  assumes "builder_ok b" and "b_kind b = KindBytes"
  shows "holders (Some (present_at b)) 0 (b_bytes b) v = cell_rows (builder_cells b) (BytesCell v)"
  using assms by (auto simp: holders_def cell_rows_def skipped_def builder_cells_def builder_cell_def builder_ok_def
      split: if_splits)

lemma index_blob_ok:
  assumes R: "roaring_ok (we_R V)" and S: "sizing_ok (we_S V)" and E: "en_X E = we_X V" "en_R E = we_R V"
    and b: "builder_ok b" "b_kind b = type_kind (col_Type col)" "values_ok b"
  shows "\<exists>bs ci. index_blob V wi col b = Inr bs
     \<and> read_column_index (en_R E) bs = Inr ci \<and> index_ok E ci (b_kind b) (builder_cells b)"
proof (cases "b_kind b = KindInt")
  case True
  have "length (b_ints b) \<le> 2 ^ 24" using b True by (simp add: values_ok_def builder_ok_def)
  from int_column_blob [OF R S this, of "we_X V" "present_at b" wi]
  obtain ci ci' where ci: "build_int_column (we_X V) (we_S V) (we_R V) (b_ints b) (Some (present_at b)) wi = Inr ci"
    "read_column_index (we_R V) (append_index (we_R V) ci) = Inr ci'"
    "int_index_exact (we_X V) (we_R V) ci' (holders (Some (present_at b)) 0 (b_ints b))" by blast
  have H: "holders (Some (present_at b)) 0 (b_ints b) = (\<lambda>v. cell_rows (builder_cells b) (IntCell v))"
    by (rule ext) (rule builder_holders_int [OF b(1) True])
  show ?thesis
    using ci True b(2) E unfolding H by (simp add: index_blob_def index_ok_def)
next
  case False
  then have k: "b_kind b = KindBytes" using b(1) by (auto simp: builder_ok_def)
  have n: "length (b_bytes b) \<le> 2 ^ 24" "\<forall>v \<in> set (b_bytes b). length v \<le> 2 ^ 24"
    using b k by (auto simp: values_ok_def builder_ok_def dict_bytes_ok_def list_all_iff value_ok_def limit_defs)
  from bytes_column_blob [OF R S this, of "we_X V" "present_at b" wi]
  obtain ci ci' where ci: "build_bytes_column (we_X V) (we_S V) (we_R V) (b_bytes b) (Some (present_at b)) wi = Inr ci"
    "read_column_index (we_R V) (append_index (we_R V) ci) = Inr ci'"
    "bytes_index_exact (we_X V) (we_R V) ci' (holders (Some (present_at b)) 0 (b_bytes b))" by blast
  have H: "holders (Some (present_at b)) 0 (b_bytes b) = (\<lambda>v. cell_rows (builder_cells b) (BytesCell v))"
    by (rule ext) (rule builder_holders_bytes [OF b(1) k])
  show ?thesis
    using ci False b(2) E unfolding H by (simp add: index_blob_def index_ok_def)
qed

text \<open>The directory entry of a builder's statistics.\<close>

lemma cell_ints_iff: "IntCell v \<in> set cs \<longleftrightarrow> v \<in> set (cell_ints cs)"
  by (induction cs rule: cell_ints.induct) auto

lemma cell_bytes_iff: "BytesCell v \<in> set cs \<longleftrightarrow> v \<in> set (cell_bytes cs)"
  by (induction cs rule: cell_bytes.induct) auto

lemma extrema_bounds: "extrema vs (lo, hi) \<Longrightarrow> v \<in> set vs \<Longrightarrow> lo \<le> v \<and> v \<le> hi"
  by (cases vs) (auto simp: extrema_def)

lemma extrema_members: "extrema vs (lo, hi) \<Longrightarrow> vs \<noteq> [] \<Longrightarrow> lo \<in> set vs \<and> hi \<in> set vs"
  by (simp add: extrema_def)

lemma builder_cells_int: "b_kind b = KindInt \<Longrightarrow> BytesCell v \<notin> set (builder_cells b)"
  by (auto simp: builder_cells_def builder_cell_def split: if_splits)

lemma cell_bytes_stream:
  assumes "builder_ok b"
  shows "set (cell_bytes (builder_cells b)) \<subseteq> set (b_bytes b)"
proof
  fix v
  assume "v \<in> set (cell_bytes (builder_cells b))"
  then have "BytesCell v \<in> set (builder_cells b)" by (simp add: cell_bytes_iff)
  then show "v \<in> set (b_bytes b)"
    using assms by (auto simp: builder_cells_def builder_cell_def builder_ok_def split: if_splits)
qed

text \<open>A column without values leaves its byte bounds empty.\<close>

lemma foldE_step_same:
  "\<forall>x \<in> set xs. f s x = Inr s \<Longrightarrow> foldE f s xs = Inr s"
  by (induction xs) auto

lemma stats_row_null:
  "builder_ok b \<Longrightarrow> i < b_rows b \<Longrightarrow> builder_cell b i = Null \<Longrightarrow> stats_row b s i = Inr s"
  using builder_present_ok [of b i]
  by (cases s) (auto simp: stats_row_def builder_cell_def split: if_splits)

lemma builder_stats_nulls:
  assumes "builder_ok b" and "set (builder_cells b) \<subseteq> {Null}"
  shows "builder_stats b = Inr \<lparr>cs_Rows = b_rows b, cs_NonNull = 0, cs_HasNulls = has_nulls b, cs_MinInt = 0,
         cs_MaxInt = 0, cs_MinBytes = [], cs_MaxBytes = []\<rparr>"
proof -
  have "stats_row b s i = Inr s" if "i < b_rows b" for s i
  proof (rule stats_row_null [OF assms(1) that])
    have "builder_cell b i \<in> set (builder_cells b)" using that by (simp add: builder_cells_def)
    then show "builder_cell b i = Null" using assms(2) by blast
  qed
  then show ?thesis by (simp add: builder_stats_def foldE_step_same)
qed

text \<open>The byte bounds are no longer than the longest value.\<close>

lemma stats_bytes_bound:
  assumes b: "builder_ok b" "b_kind b = KindBytes" and st: "builder_stats b = Inr st"
    and fits: "\<forall>v \<in> set (b_bytes b). length v \<le> n"
  shows "length (cs_MinBytes st) \<le> n \<and> length (cs_MaxBytes st) \<le> n"
proof (cases "cell_bytes (builder_cells b) = []")
  case True
  have "c = Null" if "c \<in> set (builder_cells b)" for c
  proof (cases c)
    case (IntCell v)
    then show ?thesis using that b(2) by (auto simp: builder_cells_def builder_cell_def split: if_splits)
  next
    case (BytesCell v)
    then show ?thesis using that True cell_bytes_iff [of v "builder_cells b"] by simp
  qed simp
  then show ?thesis using builder_stats_nulls [OF b(1)] st by (simp add: subset_iff)
next
  case False
  obtain f where "stats_upto (builder_cells b) (b_kind b) (st, f)"
    using builder_stats_ok [OF b(1)] st by auto
  then have "extrema (cell_bytes (builder_cells b)) (cs_MinBytes st, cs_MaxBytes st)" using b(2) by (simp add: stats_upto_def)
  from extrema_members [OF this False] show ?thesis using cell_bytes_stream [OF b(1)] fits by blast
qed

lemma stats_dir_ok:
  assumes b: "builder_ok b" "b_kind b = type_kind (col_Type col)" "values_ok b" and st: "builder_stats b = Inr st"
  shows "zone_ok (stats_dir col st) (b_kind b) (builder_cells b)"
    and "column_dir_ok (b_kind b) (stats_dir col st)"
proof -
  let ?cells = "builder_cells b"
  obtain f where s: "stats_upto ?cells (b_kind b) (st, f)"
    using builder_stats_ok [OF b(1)] st by auto
  show "zone_ok (stats_dir col st) (b_kind b) ?cells"
  proof (cases "b_kind b = KindInt")
    case True
    then have "extrema (cell_ints ?cells) (cs_MinInt st, cs_MaxInt st)" using s by (simp add: stats_upto_def)
    then show ?thesis
      using True b(2) extrema_bounds by (fastforce simp: zone_ok_def stats_dir_def cell_ints_iff)
  next
    case False
    then have "extrema (cell_bytes ?cells) (cs_MinBytes st, cs_MaxBytes st)" using s by (simp add: stats_upto_def)
    then show ?thesis
      using False b(2) extrema_bounds by (fastforce simp: zone_ok_def stats_dir_def cell_bytes_iff)
  qed
  show "column_dir_ok (b_kind b) (stats_dir col st)"
  proof (cases "b_kind b = KindInt")
    case True
    then show ?thesis using b(2) by (simp add: column_dir_ok_def stats_dir_def)
  next
    case False
    then have k: "b_kind b = KindBytes" using b(1) by (auto simp: builder_ok_def)
    have fits: "length v \<le> unat MaxBytesValue" if "v \<in> set (b_bytes b)" for v
      using b(3) k that by (simp add: values_ok_def dict_bytes_ok_def list_all_iff value_ok_def)
    from stats_bytes_bound [OF b(1) k st] fits
    have "length (cs_MinBytes st) \<le> unat MaxBytesValue \<and> length (cs_MaxBytes st) \<le> unat MaxBytesValue" by blast
    then show ?thesis using False b(2) by (simp add: column_dir_ok_def stats_dir_def Let_def)
  qed
qed

section \<open>A flush\<close>

text \<open>The parameters of a writer and of the engine that reads its file agree.\<close>

definition env_ok :: "'bm wenv \<Rightarrow> 'bm engine \<Rightarrow> bool" where
  "env_ok V E \<longleftrightarrow> reliable V \<and> roaring_ok (we_R V) \<and> sizing_ok (we_S V) \<and> en_X E = we_X V \<and> en_R E = we_R V"

definition in_step :: "writer \<Rightarrow> bool" where
  "in_step w \<longleftrightarrow> w_pos w = of_nat (length (w_out w))"

lemma in_step_grow [simp]: "in_step w \<Longrightarrow> in_step (grow p w)"
  by (simp add: in_step_def)

lemma column_stored_intro:
  assumes len: "length (out @ chunk @ idx) < 2 ^ 62"
    and chunk: "decode_chunk (en_X E) chunk = Inr d" "data_ok d" "d_Kind d = k" "data_cells d = cells"
    and zone: "zone_ok cd0 k cells" "column_dir_ok k cd0"
    and cd: "cd = cd0\<lparr>cd_ChunkOffset := of_nat (length out), cd_ChunkLength := of_nat (length chunk),
        cd_IndexOffset := io, cd_IndexLength := il\<rparr>"
    and index: "il = 0 \<or> io = of_nat (length (out @ chunk)) \<and> il = of_nat (length idx)
        \<and> (\<exists>ci. read_column_index (en_R E) idx = Inr ci \<and> index_ok E ci k cells)"
  shows "column_stored E (out @ chunk @ idx) k cd cells"
proof -
  have "blob_at (out @ chunk @ idx) (of_nat (length out)) (of_nat (length chunk)) chunk"
    using blob_at_append [OF blob_at_new [of out chunk], of idx] len by simp
  moreover have "blob_at (out @ chunk @ idx) (of_nat (length (out @ chunk))) (of_nat (length idx)) idx"
    using blob_at_new [of "out @ chunk" idx] len by simp
  moreover have "zone_ok cd k cells" "column_dir_ok k cd"
    using zone by (simp_all add: cd zone_ok_def column_dir_ok_def)
  ultimately show ?thesis
    using chunk index unfolding column_stored_def by (auto simp: cd)
qed

lemma flush_column_ok:
  assumes env: "env_ok V E" and step: "in_step w"
    and b: "builder_ok b" "b_kind b = type_kind (col_Type col)" "column_ready (we_X V) (w_codec w) b"
  obtains cd p where "flush_column V col b w = (Inr cd, grow p w)"
    and "length (w_out w @ p) < 2 ^ 62 \<longrightarrow> column_stored E (w_out w @ p) (b_kind b) cd (builder_cells b)"
proof -
  have V: "reliable V" "roaring_ok (we_R V)" "sizing_ok (we_S V)" "en_X E = we_X V" "en_R E = we_R V"
    using env by (simp_all add: env_ok_def)
  have vals: "values_ok b" using b(3) by (simp add: column_ready_def)
  obtain st where st: "builder_stats b = Inr st" using builder_stats_ok [OF b(1)] by blast
  note dir = stats_dir_ok [OF b(1,2) vals st]
  obtain chunk st' d where chunk: "builder_encode (we_X V) (Some (w_codec w)) b = Inr (chunk, st')"
    "decode_chunk (we_X V) chunk = Inr d" "data_ok d" "data_cells d = builder_cells b" "d_Kind d = b_kind b"
    by (rule column_ready_encode [OF b(1,3)])
  have chunk': "decode_chunk (en_X E) chunk = Inr d" using chunk(2) V(4) by simp
  let ?cd0 = "stats_dir col st"
  let ?cd = "?cd0\<lparr>cd_ChunkOffset := of_nat (length (w_out w)), cd_ChunkLength := of_nat (length chunk)\<rparr>"
  show thesis
  proof (cases "col_Indexed col")
    case False
    have "flush_column V col b w = (Inr ?cd, grow chunk w)"
      using st chunk(1) step False by (simp add: flush_column_def Let_def writer_write_ok [OF V(1)] in_step_def)
    moreover have "column_stored E (w_out w @ chunk) (b_kind b) ?cd (builder_cells b)"
      if "length (w_out w @ chunk) < 2 ^ 62"
    proof -
      have "column_stored E (w_out w @ chunk @ []) (b_kind b) ?cd (builder_cells b)"
        by (rule column_stored_intro [OF _ chunk' chunk(3,5,4) dir, where io = 0 and il = 0])
           (use that in \<open>simp_all add: stats_dir_def Let_def\<close>)
      then show ?thesis by simp
    qed
    ultimately show ?thesis using that by blast
  next
    case True
    obtain idx where idx: "index_blob V (wo_BuildInverted (w_opts w)) col b = Inr idx"
      "\<exists>ci. read_column_index (en_R E) idx = Inr ci \<and> index_ok E ci (b_kind b) (builder_cells b)"
      using index_blob_ok [OF V(2,3,4,5) b(1,2) vals] by blast
    let ?cd1 = "?cd\<lparr>cd_IndexOffset := of_nat (length (w_out w @ chunk)), cd_IndexLength := of_nat (length idx)\<rparr>"
    have "flush_column V col b w = (Inr ?cd1, grow (chunk @ idx) w)"
      using st chunk(1) step True idx(1)
      by (simp add: flush_column_def Let_def writer_write_ok [OF V(1)] in_step_def)
    moreover have "column_stored E (w_out w @ chunk @ idx) (b_kind b) ?cd1 (builder_cells b)"
      if "length (w_out w @ chunk @ idx) < 2 ^ 62"
    proof (rule column_stored_intro [OF _ chunk' chunk(3,5,4) dir])
      show "of_nat (length idx) = (0 :: u64) \<or> of_nat (length (w_out w @ chunk)) = (of_nat (length (w_out w @ chunk)) :: u64)
          \<and> of_nat (length idx) = (of_nat (length idx) :: u64)
          \<and> (\<exists>ci. read_column_index (en_R E) idx = Inr ci \<and> index_ok E ci (b_kind b) (builder_cells b))"
        using idx(2) by simp
    qed (use that in simp_all)
    ultimately show ?thesis using that by (metis append.assoc)
  qed
qed

text \<open>Builders that hold the columns of a table.\<close>

definition builders_hold :: "column_def list \<Rightarrow> builder list \<Rightarrow> cell list list \<Rightarrow> bool" where
  "builders_hold cols bs table \<longleftrightarrow> length bs = length cols \<and>
     (\<forall>j < length cols. builder_ok (bs ! j) \<and> b_kind (bs ! j) = type_kind (col_Type (cols ! j))
        \<and> builder_cells (bs ! j) = map (\<lambda>row. row ! j) table)"

definition columns_stored :: "'bm engine \<Rightarrow> bytes \<Rightarrow> column_def list \<Rightarrow> builder list \<Rightarrow> column_dir list \<Rightarrow> bool" where
  "columns_stored E out cols bs cds \<longleftrightarrow> length cds = length cols \<and>
     (\<forall>j < length cols. column_stored E out (type_kind (col_Type (cols ! j))) (cds ! j) (builder_cells (bs ! j)))"

lemma flush_columns_ok:
  assumes env: "env_ok V E" and "in_step w" and "length bs = length cols"
    and "\<forall>j < length cols. builder_ok (bs ! j) \<and> b_kind (bs ! j) = type_kind (col_Type (cols ! j))
        \<and> column_ready (we_X V) (w_codec w) (bs ! j)"
  shows "\<exists>cds p. flush_columns V cols bs w = (Inr cds, grow p w) \<and> length cds = length cols
    \<and> (length (w_out w @ p) < 2 ^ 62 \<longrightarrow> columns_stored E (w_out w @ p) cols bs cds)"
  using assms(2-)
proof (induction cols arbitrary: bs w)
  case Nil
  then show ?case by (intro exI [of _ "[]"]) (simp add: columns_stored_def)
next
  case (Cons c cols)
  then obtain b bs' where bs: "bs = b # bs'" by (cases bs) auto
  have b: "builder_ok b" "b_kind b = type_kind (col_Type c)" "column_ready (we_X V) (w_codec w) b"
    using Cons.prems(3) by (auto simp: bs dest: spec [of _ 0])
  obtain cd p where cd: "flush_column V c b w = (Inr cd, grow p w)"
    "length (w_out w @ p) < 2 ^ 62 \<longrightarrow> column_stored E (w_out w @ p) (b_kind b) cd (builder_cells b)"
    by (rule flush_column_ok [OF env Cons.prems(1) b])
  have rest: "\<forall>j < length cols. builder_ok (bs' ! j) \<and> b_kind (bs' ! j) = type_kind (col_Type (cols ! j))
        \<and> column_ready (we_X V) (w_codec (grow p w)) (bs' ! j)"
    using Cons.prems(3) by (force simp: bs)
  obtain cds q where cds: "flush_columns V cols bs' (grow p w) = (Inr cds, grow q (grow p w))" "length cds = length cols"
    "length ((w_out w @ p) @ q) < 2 ^ 62 \<longrightarrow> columns_stored E ((w_out w @ p) @ q) cols bs' cds"
    using Cons.IH [OF in_step_grow [OF Cons.prems(1)] _ rest] Cons.prems(2) by (auto simp: bs)
  have "columns_stored E (w_out w @ p @ q) (c # cols) bs (cd # cds)" if "length (w_out w @ p @ q) < 2 ^ 62"
  proof -
    have "column_stored E ((w_out w @ p) @ q) (type_kind (col_Type c)) cd (builder_cells b)"
      using cd(2) that b(2) by (intro column_stored_append [of _ "w_out w @ p"]) simp
    with cds(2,3) that show ?thesis
      by (auto simp: columns_stored_def bs less_Suc_eq_0_disj)
  qed
  with cd(1) cds(1,2) show ?case by (intro exI [of _ "cd # cds"] exI [of _ "p @ q"]) (simp add: bs)
qed

text \<open>
  The invariant of a writer: its directory describes the tables flushed so far, and its
  builders hold the rows since.
\<close>

definition segment_stored :: "'bm engine \<Rightarrow> bytes \<Rightarrow> column_def list \<Rightarrow> segment_dir \<Rightarrow> cell list list \<Rightarrow> bool" where
  "segment_stored E out cols sd table \<longleftrightarrow>
     length table \<le> 2 ^ 24 \<and> unat (sd_Rows sd) = length table \<and> length (sd_Columns sd) = length cols
     \<and> (\<forall>j < length cols. column_stored E out (type_kind (col_Type (cols ! j))) (sd_Columns sd ! j)
          (map (\<lambda>row. row ! j) table))"

lemma segment_stored_append: "segment_stored E out cols sd table \<Longrightarrow> segment_stored E (out @ ext) cols sd table"
  by (simp add: segment_stored_def column_stored_append)

definition writer_holds :: "'bm engine \<Rightarrow> writer \<Rightarrow> cell list list list \<Rightarrow> cell list list \<Rightarrow> bool" where
  "writer_holds E w tables buf \<longleftrightarrow>
     in_step w \<and> sch_Columns (w_schema w) \<noteq> []
     \<and> builders_hold (sch_Columns (w_schema w)) (w_builders w) buf
     \<and> (\<forall>t. w_tsCol w = Some t \<longrightarrow> t < length (sch_Columns (w_schema w)))
     \<and> length (w_segments w) = length tables
     \<and> (\<forall>sd \<in> set (w_segments w). length (sd_Columns sd) = length (sch_Columns (w_schema w)))
     \<and> w_totalRows w = of_nat (length (concat tables))
     \<and> (length (w_out w) < 2 ^ 62 \<longrightarrow>
         (\<forall>i < length tables. segment_stored E (w_out w) (sch_Columns (w_schema w)) (w_segments w ! i) (tables ! i)))"

text \<open>What an operation leaves of a writer besides its buffers and its directory.\<close>

definition same_file :: "writer \<Rightarrow> writer \<Rightarrow> bool" where
  "same_file w w' \<longleftrightarrow> (\<exists>p. w_out w' = w_out w @ p) \<and> w_schema w' = w_schema w \<and> w_opts w' = w_opts w
     \<and> w_codec w' = w_codec w"

lemma same_file_refl [simp]: "same_file w w"
  by (simp add: same_file_def)

lemma same_file_trans [trans]: "same_file w w' \<Longrightarrow> same_file w' w'' \<Longrightarrow> same_file w w''"
  by (auto simp: same_file_def)

lemma note_times_simps [simp]:
  "w_out (note_times ts w) = w_out w" "w_schema (note_times ts w) = w_schema w" "w_opts (note_times ts w) = w_opts w"
  "w_codec (note_times ts w) = w_codec w" "w_builders (note_times ts w) = w_builders w"
  "w_tsCol (note_times ts w) = w_tsCol w" "w_segments (note_times ts w) = w_segments w"
  "w_totalRows (note_times ts w) = w_totalRows w" "w_closed (note_times ts w) = w_closed w"
  "w_dirty (note_times ts w) = w_dirty w" "w_pos (note_times ts w) = w_pos w"
  by (simp_all add: note_times_def split: option.split)

lemma builders_hold_rows:
  assumes "builders_hold cols bs buf" and "j < length cols"
  shows "b_rows (bs ! j) = length buf"
proof -
  have "b_rows (bs ! j) = length (builder_cells (bs ! j))" by (simp add: builder_cells_def)
  then show ?thesis using assms by (simp add: builders_hold_def)
qed

lemma builders_hold_reset:
  "builders_hold cols bs buf \<Longrightarrow> builders_hold cols (map builder_reset bs) []"
  by (auto simp: builders_hold_def builder_ok_reset builder_cells_def) (simp_all add: builder_reset_def)

lemma segment_times_ok:
  assumes "writer_holds E w tables buf"
  shows "\<exists>ts. segment_times w = Inr ts"
proof (cases "w_tsCol w")
  case (Some t)
  then have t: "t < length (w_builders w)" "builder_ok (w_builders w ! t)"
    using assms by (auto simp: writer_holds_def builders_hold_def)
  then show ?thesis using Some builder_stats_ok [OF t(2)] by (auto simp: segment_times_def)
qed (simp add: segment_times_def)

definition ready :: "'bm wenv \<Rightarrow> writer \<Rightarrow> bool" where
  "ready V w \<longleftrightarrow> list_all (column_ready (we_X V) (w_codec w)) (w_builders w)"

lemma flush_segment_ok:
  assumes env: "env_ok V E" and w: "writer_holds E w tables buf" and r: "buf \<noteq> [] \<Longrightarrow> ready V w"
  shows "\<exists>w'. flush_segment V w = (Inr (), w') \<and> same_file w w' \<and> w_dirty w' = w_dirty w \<and> w_closed w' = w_closed w
    \<and> w_builders w' = (if buf = [] then w_builders w else map builder_reset (w_builders w))
    \<and> writer_holds E w' (if buf = [] then tables else tables @ [buf]) []"
proof -
  let ?cols = "sch_Columns (w_schema w)" and ?bs = "w_builders w"
  have cols: "?cols \<noteq> []" and hold: "builders_hold ?cols ?bs buf" and step: "in_step w"
    using w by (simp_all add: writer_holds_def)
  have b0: "index_at ?bs 0 = Inr (?bs ! 0)" "b_rows (?bs ! 0) = length buf"
    using cols hold builders_hold_rows [OF hold, of 0] by (simp_all add: builders_hold_def)
  show ?thesis
  proof (cases "buf = []")
    case True
    then show ?thesis using b0 w by (auto simp: flush_segment_def)
  next
    case False
    have rd: "column_ready (we_X V) (w_codec w) b" if "b \<in> set ?bs" for b
      using r False that by (auto simp: ready_def list_all_iff)
    have bs: "\<forall>j < length ?cols. builder_ok (?bs ! j) \<and> b_kind (?bs ! j) = type_kind (col_Type (?cols ! j))
        \<and> column_ready (we_X V) (w_codec w) (?bs ! j)" "length ?bs = length ?cols"
      using hold rd by (simp_all add: builders_hold_def)
    obtain cds p where cds: "flush_columns V ?cols ?bs w = (Inr cds, grow p w)" "length cds = length ?cols"
      "length (w_out w @ p) < 2 ^ 62 \<longrightarrow> columns_stored E (w_out w @ p) ?cols ?bs cds"
      using flush_columns_ok [OF env step bs(2,1)] by blast
    obtain ts where ts: "segment_times (grow p w) = Inr ts"
      using segment_times_ok [OF w] by (auto simp: segment_times_def cong: option.case_cong)
    have "values_ok (?bs ! 0)" using bs cols by (auto simp: column_ready_def)
    then have n: "length buf \<le> 2 ^ 24" using b0(2) by (simp add: values_ok_def)
    then have u: "unat (of_nat (length buf) :: u64) = length buf" by (intro unat_of_nat_u64) simp
    define seg where "seg = \<lparr>sd_Offset = w_pos w, sd_Length = w_pos (grow p w) - w_pos w, sd_Rows = of_nat (length buf),
                    sd_MinTS = (case ts of None \<Rightarrow> 0 | Some (lo, hi) \<Rightarrow> lo),
                    sd_MaxTS = (case ts of None \<Rightarrow> 0 | Some (lo, hi) \<Rightarrow> hi), sd_Columns = cds\<rparr>"
    define w4 where "w4 = note_times ts (grow p w)"
    let ?w' = "w4\<lparr>w_totalRows := w_totalRows w4 + of_nat (length buf),
                        w_segments := w_segments w4 @ [seg],
                        w_builders := map builder_reset (w_builders w4)\<rparr>"
    have run: "flush_segment V w = (Inr (), ?w')"
      using b0 cds(1) ts False by (simp add: flush_segment_def seg_def w4_def Let_def)
    have new: "segment_stored E (w_out w @ p) ?cols seg buf" if "length (w_out w @ p) < 2 ^ 62"
    proof -
      have "columns_stored E (w_out w @ p) ?cols ?bs cds" using cds(3) that by blast
      then show ?thesis
        using n u hold by (simp add: segment_stored_def seg_def columns_stored_def builders_hold_def)
    qed
    have old: "segment_stored E (w_out w @ p) ?cols (w_segments w ! i) (tables ! i)"
      if "length (w_out w @ p) < 2 ^ 62" "i < length tables" for i
      using w that by (intro segment_stored_append) (simp add: writer_holds_def)
    have "writer_holds E ?w' (tables @ [buf]) []"
      unfolding writer_holds_def
    proof (intro conjI impI allI)
      show "in_step ?w'" using step in_step_grow [OF step, of p] by (simp add: w4_def in_step_def)
      show "builders_hold (sch_Columns (w_schema ?w')) (w_builders ?w') []"
        using builders_hold_reset [OF hold] by (simp add: w4_def)
      fix i
      assume "length (w_out ?w') < 2 ^ 62" and "i < length (tables @ [buf])"
      then show "segment_stored E (w_out ?w') (sch_Columns (w_schema ?w')) (w_segments ?w' ! i) ((tables @ [buf]) ! i)"
        using new old [of i] w by (auto simp: w4_def nth_append writer_holds_def less_Suc_eq)
    qed (use w cds(2) in \<open>auto simp: writer_holds_def w4_def seg_def\<close>)
    then show ?thesis using run False by (auto simp: same_file_def w4_def)
  qed
qed

end
