(* ===== verification/QueryFacts.thy ===== *)
theory QueryFacts
  imports ExecFacts "HOL-Library.Multiset"
begin

text \<open>
  Whole statements against the reference semantics, on a file all of whose segments hold
  their tables: \<open>count\<close> counts the matching rows, a selection returns the first of them
  rendered, \<open>top\<close> ranks the values of a column by how often they occur among them.
\<close>

definition file_holds :: "'bm engine \<Rightarrow> reader \<Rightarrow> cell list list list \<Rightarrow> bool" where
  "file_holds E r tables \<longleftrightarrow> length tables = length (reader_segments r)
     \<and> (\<forall>i < length tables. segment_holds E r i (tables ! i))
     \<and> unat (f_TotalRows (r_footer r)) = length (concat tables)"

definition where_ok :: "reader \<Rightarrow> expr option \<Rightarrow> bool" where
  "where_ok r w \<longleftrightarrow> (case w of None \<Rightarrow> True | Some e \<Rightarrow> validate_expr (reader_schema r) e = Inr () \<and> expr_vals e)"

definition satisfies :: "stdlib \<Rightarrow> schema \<Rightarrow> expr option \<Rightarrow> cell list \<Rightarrow> bool" where
  "satisfies L sch w row \<longleftrightarrow> (case w of None \<Rightarrow> True | Some e \<Rightarrow> row_matches L sch row e)"

definition matching :: "stdlib \<Rightarrow> schema \<Rightarrow> expr option \<Rightarrow> cell list list \<Rightarrow> cell list list" where
  "matching L sch w rows = filter (satisfies L sch w) rows"

lemma matching_append [simp]: "matching L sch w (xs @ ys) = matching L sch w xs @ matching L sch w ys"
  by (simp add: matching_def)

lemma segment_finds:
  assumes R: "roaring_ok (en_R E)" and "file_holds E r tables" and "where_ok r w" and "i < length tables"
  obtains bm c where "eval_segment E r w (new_ctx i (reader_segments r ! i)) = Inr (bm, c)"
    and "rb_set (en_R E) bm = {n. n < length (tables ! i) \<and> satisfies (en_std E) (reader_schema r) w (tables ! i ! n)}"
    and "ctx_ok E r i c"
proof -
  have "finds E r i (eval_segment E r w (new_ctx i (reader_segments r ! i)))
     {n. n < length (tables ! i) \<and> satisfies (en_std E) (reader_schema r) w (tables ! i ! n)}"
    unfolding satisfies_def
    by (rule eval_segment_ok [OF R]) (use assms in \<open>auto simp: file_holds_def where_ok_def\<close>)
  then show ?thesis using that by (auto simp: finds_def)
qed

lemma rb_cardinality_matching:
  assumes R: "roaring_ok R" and "rb_set R bm = {n. n < length table \<and> satisfies L sch w (table ! n)}"
  shows "rb_cardinality R bm = of_nat (length (matching L sch w table))"
proof -
  have "unat (rb_cardinality R bm) = length (matching L sch w table)"
    using assms(2) by (simp add: rb_cardinality_card [OF R] matching_def length_filter_conv_card)
  then have "of_nat (unat (rb_cardinality R bm)) = (of_nat (length (matching L sch w table)) :: u64)" by simp
  then show ?thesis by simp
qed

lemma rb_rows_matching:
  assumes R: "roaring_ok R" and "rb_set R bm = {n. n < length table \<and> satisfies L sch w (table ! n)}"
  shows "map unat (rb_rows R bm) = filter (\<lambda>n. satisfies L sch w (table ! n)) [0..<length table]"
    and "map (\<lambda>n. table ! n) (map unat (rb_rows R bm)) = matching L sch w table"
proof -
  have "sorted_list_of_set {n. n < length table \<and> satisfies L sch w (table ! n)}
      = sorted_list_of_set (set (filter (\<lambda>n. satisfies L sch w (table ! n)) [0..<length table]))"
    by (rule arg_cong [of _ _ sorted_list_of_set]) auto
  also have "\<dots> = filter (\<lambda>n. satisfies L sch w (table ! n)) [0..<length table]"
    by (intro sorted_list_of_set.idem_if_sorted_distinct) (simp_all add: sorted_wrt_filter)
  finally show 1: "map unat (rb_rows R bm) = filter (\<lambda>n. satisfies L sch w (table ! n)) [0..<length table]"
    using rb_rows_eq [OF R, of bm] assms(2) by simp
  show "map (\<lambda>n. table ! n) (map unat (rb_rows R bm)) = matching L sch w table"
    unfolding 1 matching_def
    by (metis (no_types, lifting) filter_map map_nth comp_apply filter_cong)
qed

section \<open>count\<close>

lemma concat_take_Suc: "i < length ts \<Longrightarrow> concat (take (Suc i) ts) = concat (take i ts) @ ts ! i"
  by (simp add: take_Suc_conv_app_nth)

lemma tally_simps [simp]:
  "q_Count (tally E c bm res) = q_Count res" "q_Rows (tally E c bm res) = q_Rows res"
  "q_Kind (tally E c bm res) = q_Kind res" "q_Columns (tally E c bm res) = q_Columns res"
  by (simp_all add: tally_def)

lemma count_loop_ok:
  assumes R: "roaring_ok (en_R E)" and f: "file_holds E r tables" and w: "where_ok r w" and "k \<le> length tables"
  shows "\<exists>res'. foldE (count_segment E r w) res [0..<k] = Inr res'
    \<and> q_Count res' = q_Count res + of_nat (length (matching (en_std E) (reader_schema r) w (concat (take k tables))))"
  using assms(4)
proof (induction k)
  case 0
  then show ?case by (simp add: matching_def)
next
  case (Suc k)
  then obtain res1 where res1: "foldE (count_segment E r w) res [0..<k] = Inr res1"
    "q_Count res1 = q_Count res + of_nat (length (matching (en_std E) (reader_schema r) w (concat (take k tables))))"
    by auto
  have k: "k < length tables" "k < length (reader_segments r)"
    using Suc.prems f by (auto simp: file_holds_def)
  obtain bm c where bm: "eval_segment E r w (new_ctx k (reader_segments r ! k)) = Inr (bm, c)"
    "rb_set (en_R E) bm = {n. n < length (tables ! k) \<and> satisfies (en_std E) (reader_schema r) w (tables ! k ! n)}"
    by (rule segment_finds [OF R f w k(1)])
  have "count_segment E r w res1 k
      = Inr (tally E c bm (res1\<lparr>q_Count := q_Count res1 + rb_cardinality (en_R E) bm\<rparr>))"
    using bm(1) k by (simp add: count_segment_def)
  then show ?case
    using res1 k rb_cardinality_matching [OF R bm(2)]
    by (simp add: foldE_append concat_take_Suc add.assoc)
qed

lemma exec_count_ok:
  assumes R: "roaring_ok (en_R E)" and f: "file_holds E r tables" and w: "where_ok r (s_Where st)"
  shows "\<exists>res. exec_count E r st = Inr res
     \<and> unat (q_Count res) = length (matching (en_std E) (reader_schema r) (s_Where st) (concat tables))"
proof (cases "s_Where st")
  case None
  then show ?thesis
    using f by (simp add: exec_count_def file_holds_def matching_def satisfies_def)
next
  case (Some e)
  let ?m = "length (matching (en_std E) (reader_schema r) (s_Where st) (concat tables))"
  obtain res where res: "foldE (count_segment E r (s_Where st)) (new_result KindCount) [0..<length tables] = Inr res"
    "q_Count res = of_nat ?m"
    using count_loop_ok [OF R f w order_refl, of "new_result KindCount"] by (auto simp: new_result_def)
  have "?m \<le> length (concat tables)" by (simp add: matching_def)
  then have "?m < 2 ^ 64"
    using f unsigned_less [of "f_TotalRows (r_footer r)", where 'a = nat] by (simp add: file_holds_def)
  then show ?thesis
    using res f Some unat_of_nat_u64 by (simp add: exec_count_def file_holds_def)
qed

section \<open>Rows\<close>

definition cell_text :: "stdlib \<Rightarrow> logical_type \<Rightarrow> cell \<Rightarrow> string" where
  "cell_text L t c = (case c of Null \<Rightarrow> '''' | IntCell v \<Rightarrow> format_int_val L t v | BytesCell b \<Rightarrow> format_bytes_val L t b)"

definition render_row :: "stdlib \<Rightarrow> schema \<Rightarrow> nat list \<Rightarrow> cell list \<Rightarrow> string list" where
  "render_row L sch cols row = map (\<lambda>j. cell_text L (col_Type (sch_Columns sch ! j)) (row ! j)) cols"

lemma format_cell_ok:
  assumes "data_ok d" and "d_Kind d = type_kind t" and "i < d_Rows d"
  shows "format_cell L t d i = Inr (cell_text L t (data_cells d ! i))"
proof -
  obtain null where null: "is_null d i = Inr null"
    using data_ok_is_null [OF assms(1,3)] by auto
  show ?thesis
  proof (cases "type_kind t = KindInt")
    case True
    then show ?thesis
      using null data_cell_eq(1) [OF assms(1,3)] data_ok_vals(1) [OF assms(1)] assms
      by (cases null) (simp_all add: format_cell_def data_cells_nth cell_text_def)
  next
    case False
    then show ?thesis
      using null data_cell_eq(2) [OF assms(1,3)] data_ok_vals(2) [OF assms(1)] assms
      by (cases null) (simp_all add: format_cell_def data_cells_nth cell_text_def)
  qed
qed

definition holds_data :: "'bm engine \<Rightarrow> reader \<Rightarrow> cell list list \<Rightarrow> nat \<Rightarrow> data \<Rightarrow> bool" where
  "holds_data E r table j d \<longleftrightarrow> data_ok d \<and> d_Kind d = type_kind (col_Type (sch_Columns (reader_schema r) ! j))
     \<and> data_cells d = map (\<lambda>row. row ! j) table"

lemma segment_data:
  assumes "segment_holds E r i table" and "j < length (sch_Columns (reader_schema r))"
  obtains d where "reader_column (en_X E) r i j = Inr d" and "holds_data E r table j d"
  using segment_holds_column [OF assms] by (rule column_holds_data) (auto simp: holds_data_def intro: that)

lemma ctx_cols_ok:
  assumes "segment_holds E r i table" and "\<forall>j \<in> set js. j < length (sch_Columns (reader_schema r))" and "ctx_ok E r i c"
  shows "\<exists>ds c'. ctx_cols E r js c = Inr (ds, c') \<and> list_all2 (holds_data E r table) js ds \<and> ctx_ok E r i c'"
  using assms(2,3)
proof (induction js arbitrary: c)
  case (Cons j js)
  obtain d where d: "reader_column (en_X E) r i j = Inr d" "holds_data E r table j d"
    using segment_data [OF assms(1), of j] Cons.prems(1) by auto
  obtain c1 where "ctx_col E r j c = Inr (d, c1)" "ctx_ok E r i c1"
    using ctx_col_ok [OF Cons.prems(2) d(1)] by blast
  then show ?case using Cons.IH [of c1] Cons.prems(1) d(2) by auto
qed simp

lemma row_out_ok:
  assumes "list_all2 (holds_data E r table) js ds" and "\<forall>j \<in> set js. j < length (sch_Columns (reader_schema r))"
    and "n < length table"
  shows "row_out E r (zip js ds) n = Inr (render_row (en_std E) (reader_schema r) js (table ! n))"
  using assms(1,2)
proof (induction rule: list_all2_induct)
  case Nil
  then show ?case by (simp add: row_out_def render_row_def)
next
  case (Cons j js d ds)
  have n: "n < d_Rows d"
    using Cons.hyps(1) assms(3) by (metis holds_data_def length_data_cells length_map)
  have "format_cell (en_std E) (col_Type (sch_Columns (reader_schema r) ! j)) d n
      = Inr (cell_text (en_std E) (col_Type (sch_Columns (reader_schema r) ! j)) (table ! n ! j))"
    using format_cell_ok [OF _ _ n] Cons.hyps(1) assms(3) by (simp add: holds_data_def)
  then show ?case
    using Cons by (simp add: row_out_def render_row_def)
qed

lemma rows_segment_ok:
  assumes R: "roaring_ok (en_R E)" and f: "file_holds E r tables" and w: "where_ok r w" and i: "i < length tables"
    and js: "\<forall>j \<in> set js. j < length (sch_Columns (reader_schema r))" and lim: "int (length (q_Rows res)) < limit"
  shows "\<exists>res'. rows_segment E r w js limit res (new_ctx i (reader_segments r ! i)) = Inr res'
    \<and> q_Columns res' = q_Columns res
    \<and> q_Rows res' = take (nat limit) (q_Rows res
        @ map (render_row (en_std E) (reader_schema r) js) (matching (en_std E) (reader_schema r) w (tables ! i)))"
proof -
  let ?t = "tables ! i" and ?L = "en_std E" and ?sch = "reader_schema r"
  have seg: "segment_holds E r i ?t" using f i by (simp add: file_holds_def)
  obtain bm c where bm: "eval_segment E r w (new_ctx i (reader_segments r ! i)) = Inr (bm, c)"
    "rb_set (en_R E) bm = {n. n < length ?t \<and> satisfies ?L ?sch w (?t ! n)}" "ctx_ok E r i c"
    by (rule segment_finds [OF R f w i])
  note m = rb_rows_matching [OF R bm(2)]
  show ?thesis
  proof (cases "rb_set (en_R E) bm = {}")
    case True
    then have "rb_rows (en_R E) bm = []" by (simp add: rb_set_def)
    then have "matching ?L ?sch w ?t = []" using m(2) by simp
    then show ?thesis
      using bm(1) True lim by (simp add: rows_segment_def rb_is_empty_iff [OF R])
  next
    case False
    obtain ds c1 where ds: "ctx_cols E r js c = Inr (ds, c1)" "list_all2 (holds_data E r ?t) js ds"
      using ctx_cols_ok [OF seg js bm(3)] by blast
    let ?k = "nat (limit - int (length (q_Rows res)))"
    have row: "row_out E r (zip js ds) (unat n) = Inr (render_row ?L ?sch js (?t ! unat n))"
      if "n \<in> set (take ?k (rb_rows (en_R E) bm))" for n
    proof -
      have "unat n \<in> rb_set (en_R E) bm" using in_set_takeD [OF that] by (simp add: rb_set_def)
      then show ?thesis using row_out_ok [OF ds(2) js] bm(2) by simp
    qed
    have out: "mapE (\<lambda>n. row_out E r (zip js ds) (unat n)) (take ?k (rb_rows (en_R E) bm))
        = Inr (map (\<lambda>n. render_row ?L ?sch js (?t ! unat n)) (take ?k (rb_rows (en_R E) bm)))"
      using row by (rule mapE_ok)
    have "map (\<lambda>n. render_row ?L ?sch js (?t ! unat n)) (rb_rows (en_R E) bm)
        = map (render_row ?L ?sch js) (matching ?L ?sch w ?t)"
      by (simp add: m(2) [symmetric])
    then have "map (\<lambda>n. render_row ?L ?sch js (?t ! unat n)) (take ?k (rb_rows (en_R E) bm))
        = take ?k (map (render_row ?L ?sch js) (matching ?L ?sch w ?t))"
      by (simp only: take_map [symmetric])
    moreover have "?k = nat limit - length (q_Rows res)" and "length (q_Rows res) \<le> nat limit"
      using lim by linarith+
    ultimately show ?thesis
      using bm(1) False ds(1) out by (simp add: rows_segment_def rb_is_empty_iff [OF R])
  qed
qed

lemma rows_loop_ok:
  assumes R: "roaring_ok (en_R E)" and f: "file_holds E r tables" and w: "where_ok r w"
    and js: "\<forall>j \<in> set js. j < length (sch_Columns (reader_schema r))"
    and "i + k = length tables" and "length (q_Rows res) \<le> nat limit"
  shows "\<exists>res'. rows_loop E r w js limit res (zip [i..<length tables] (drop i (reader_segments r))) = Inr res'
    \<and> q_Columns res' = q_Columns res
    \<and> q_Rows res' = take (nat limit) (q_Rows res
        @ map (render_row (en_std E) (reader_schema r) js)
            (matching (en_std E) (reader_schema r) w (concat (drop i tables))))"
  using assms(5,6)
proof (induction k arbitrary: i res)
  case 0
  then show ?case by (simp add: matching_def)
next
  case (Suc k)
  have i: "i < length tables" "i < length (reader_segments r)"
    using Suc.prems(1) f by (auto simp: file_holds_def)
  have z: "zip [i..<length tables] (drop i (reader_segments r))
      = (i, reader_segments r ! i) # zip [Suc i..<length tables] (drop (Suc i) (reader_segments r))"
    using i by (simp add: upt_conv_Cons Cons_nth_drop_Suc [symmetric])
  have d: "concat (drop i tables) = tables ! i @ concat (drop (Suc i) tables)"
    using i by (simp add: Cons_nth_drop_Suc [symmetric])
  show ?case
  proof (cases "limit \<le> int (length (q_Rows res))")
    case True
    then have "length (q_Rows res) = nat limit" using Suc.prems(2) by linarith
    then show ?thesis using True by (simp add: z)
  next
    case False
    then have lt: "int (length (q_Rows res)) < limit" by simp
    obtain res1 where res1: "rows_segment E r w js limit res (new_ctx i (reader_segments r ! i)) = Inr res1"
      "q_Columns res1 = q_Columns res"
      "q_Rows res1 = take (nat limit) (q_Rows res
        @ map (render_row (en_std E) (reader_schema r) js) (matching (en_std E) (reader_schema r) w (tables ! i)))"
      using rows_segment_ok [OF R f w i(1) js lt] by blast
    have "Suc i + k = length tables" "length (q_Rows res1) \<le> nat limit"
      using Suc.prems(1) res1(3) by simp_all
    from Suc.IH [OF this] show ?thesis
      using res1 False by (auto simp: z d min_def)
  qed
qed

text \<open>The columns a selection puts out, and the limit it applies.\<close>

definition output_cols :: "schema \<Rightarrow> stmt \<Rightarrow> nat list" where
  "output_cols sch st =
     (if s_Star st then [0..<length (sch_Columns sch)]
      else map (\<lambda>c. the (schema_index sch (to_bytes c))) (s_Projection st))"

definition row_limit :: "stmt \<Rightarrow> nat" where
  "row_limit st = nat (if s_Limit st = 0 then DefaultRowLimit else s_Limit st)"

lemma check_columns_iff:
  "check_columns sch cs = Inr () \<longleftrightarrow> (\<forall>c \<in> set cs. \<exists>j. schema_index sch (to_bytes c) = Some j)"
  by (induction cs) (auto simp: res_iff check_column_iff)

lemma projection_cols_ok:
  assumes "\<forall>c \<in> set cs. \<exists>j. schema_index sch (to_bytes c) = Some j"
  shows "projection_cols sch cs = Inr (map (\<lambda>c. the (schema_index sch (to_bytes c))) cs)"
  using assms
proof (induction cs)
  case (Cons c cs)
  then obtain j where j: "schema_index sch (to_bytes c) = Some j" by auto
  then have "j < length (sch_Columns sch)" by (rule schema_index_bound)
  then show ?case using Cons j by (simp add: column_at_def)
qed simp

lemma output_cols_bound:
  assumes "s_Star st \<or> (\<forall>c \<in> set (s_Projection st). \<exists>j. schema_index sch (to_bytes c) = Some j)"
    and "j \<in> set (output_cols sch st)"
  shows "j < length (sch_Columns sch)"
proof (cases "s_Star st")
  case False
  then obtain c where c: "c \<in> set (s_Projection st)" "j = the (schema_index sch (to_bytes c))"
    using assms(2) by (auto simp: output_cols_def)
  then obtain k where "schema_index sch (to_bytes c) = Some k" using assms(1) False by auto
  then show ?thesis using c(2) schema_index_bound by simp
qed (use assms(2) in \<open>simp add: output_cols_def\<close>)

lemma exec_rows_ok:
  assumes R: "roaring_ok (en_R E)" and f: "file_holds E r tables" and w: "where_ok r (s_Where st)"
    and p: "s_Star st \<or> check_columns (reader_schema r) (s_Projection st) = Inr ()"
  shows "\<exists>res. exec_rows E r st = Inr res
    \<and> q_Columns res = map (\<lambda>j. from_bytes (col_Name (sch_Columns (reader_schema r) ! j))) (output_cols (reader_schema r) st)
    \<and> q_Rows res = take (row_limit st)
        (map (render_row (en_std E) (reader_schema r) (output_cols (reader_schema r) st))
           (matching (en_std E) (reader_schema r) (s_Where st) (concat tables)))"
proof -
  let ?sch = "reader_schema r" and ?js = "output_cols (reader_schema r) st"
  have known: "s_Star st \<or> (\<forall>c \<in> set (s_Projection st). \<exists>j. schema_index ?sch (to_bytes c) = Some j)"
    using p by (simp add: check_columns_iff)
  then have js: "\<forall>j \<in> set ?js. j < length (sch_Columns ?sch)"
    using output_cols_bound by blast
  have cols: "(if s_Star st then Inr [0..<length (sch_Columns ?sch)] else projection_cols ?sch (s_Projection st)) = Inr ?js"
    using known projection_cols_ok [of "s_Projection st" ?sch] by (auto simp: output_cols_def)
  let ?r0 = "(new_result KindRows)\<lparr>q_Columns := map (\<lambda>j. from_bytes (col_Name (sch_Columns ?sch ! j))) ?js\<rparr>"
  let ?l = "if s_Limit st = 0 then DefaultRowLimit else s_Limit st"
  have n: "length (reader_segments r) = length tables" using f by (simp add: file_holds_def)
  have e: "exec_rows E r st = rows_loop E r (s_Where st) ?js ?l ?r0 (zip [0..<length tables] (drop 0 (reader_segments r)))"
    by (simp only: exec_rows_def Let_def cols bindE.simps n drop_0)
  have q: "q_Rows ?r0 = []" "q_Columns ?r0 = map (\<lambda>j. from_bytes (col_Name (sch_Columns ?sch ! j))) ?js"
    by (simp_all add: new_result_def)
  have "\<exists>res'. rows_loop E r (s_Where st) ?js ?l ?r0 (zip [0..<length tables] (drop 0 (reader_segments r))) = Inr res'
      \<and> q_Columns res' = q_Columns ?r0
      \<and> q_Rows res' = take (nat ?l) (q_Rows ?r0 @ map (render_row (en_std E) ?sch ?js)
          (matching (en_std E) ?sch (s_Where st) (concat (drop 0 tables))))"
    by (rule rows_loop_ok [OF R f w js, of 0 "length tables"]) (simp_all only: q list.size add_0 le0)
  then show ?thesis
    unfolding e q append_Nil drop_0 row_limit_def by blast
qed

end
