(* ===== verification/WriterRuns.thy ===== *)
theory WriterRuns
  imports WriterFacts QueryFacts
begin

text \<open>
  Whole runs of a writer: a file begun, any sequence of appends, flushes and checkpoints,
  and the closing of the file. \<open>segments_of\<close> says which rows each segment must hold; the
  runs refine it, and the finished file holds those tables for the executor.
\<close>

section \<open>Rows\<close>

definition value_cell :: "column_def \<Rightarrow> row_value \<Rightarrow> cell" where
  "value_cell c v = (if v_Null v then Null
     else if type_kind (col_Type c) = KindInt then IntCell (v_Int v) else BytesCell (v_Bytes v))"

definition record_cells :: "column_def list \<Rightarrow> row_record \<Rightarrow> cell list" where
  "record_cells cols rec = map2 value_cell cols rec"

fun append_cell :: "cell \<Rightarrow> builder \<Rightarrow> builder" where
  "append_cell Null b = append_null b"
| "append_cell (IntCell v) b = append_int v b"
| "append_cell (BytesCell v) b = append_bytes v b"

fun cell_fits :: "kind \<Rightarrow> cell \<Rightarrow> bool" where
  "cell_fits k Null = True"
| "cell_fits k (IntCell v) = (k = KindInt)"
| "cell_fits k (BytesCell v) = (k = KindBytes)"

lemma append_value_cell: "append_value c v b = append_cell (value_cell c v) b"
  by (simp add: append_value_def value_cell_def)

lemma type_kind_cases: "type_kind t = KindInt \<or> type_kind t = KindBytes"
  by (simp add: type_kind_def)

lemma value_cell_fits: "cell_fits (type_kind (col_Type c)) (value_cell c v)"
  using type_kind_cases [of "col_Type c"] by (auto simp: value_cell_def)

definition column_builder :: "kind \<Rightarrow> cell list \<Rightarrow> builder" where
  "column_builder k cells = fold append_cell cells (new_builder k)"

lemma append_cell_ok:
  assumes "builder_ok b" and "cell_fits (b_kind b) c"
  shows "builder_ok (append_cell c b) \<and> b_kind (append_cell c b) = b_kind b
     \<and> builder_cells (append_cell c b) = builder_cells b @ [c]"
  using assms by (cases c) (simp_all add: builder_ok_append_int builder_ok_append_bytes builder_ok_append_null builder_cells_append)

definition builders_are :: "column_def list \<Rightarrow> builder list \<Rightarrow> cell list list \<Rightarrow> bool" where
  "builders_are cols bs table \<longleftrightarrow> length bs = length cols \<and>
     (\<forall>j < length cols. bs ! j = column_builder (type_kind (col_Type (cols ! j))) (map (\<lambda>row. row ! j) table))"

lemma append_values_ok:
  "length bs = length cols \<Longrightarrow> length rec = length cols \<Longrightarrow>
     \<exists>bs'. append_values cols bs rec = Inr bs' \<and> length bs' = length cols
       \<and> (\<forall>j < length cols. bs' ! j = append_cell (record_cells cols rec ! j) (bs ! j))"
proof (induction cols arbitrary: bs rec)
  case (Cons c cols)
  obtain b bs1 v rec1 where e: "bs = b # bs1" "rec = v # rec1"
    using Cons.prems by (cases bs; cases rec) auto
  obtain bs' where bs': "append_values cols bs1 rec1 = Inr bs'" "length bs' = length cols"
    "\<forall>j < length cols. bs' ! j = append_cell (record_cells cols rec1 ! j) (bs1 ! j)"
    using Cons.IH [of bs1 rec1] Cons.prems e by auto
  have "(append_value c v b # bs') ! j = append_cell (record_cells (c # cols) rec ! j) (bs ! j)"
    if "j < length (c # cols)" for j
    using that bs'(3) by (cases j) (simp_all add: e record_cells_def append_value_cell)
  then show ?case using bs' by (simp add: e)
qed simp

lemma record_cells_nth:
  "length rec = length cols \<Longrightarrow> j < length cols \<Longrightarrow> record_cells cols rec ! j = value_cell (cols ! j) (rec ! j)"
  by (simp add: record_cells_def)

lemma append_values_hold:
  assumes hold: "builders_hold cols bs buf" and are: "builders_are cols bs buf" and "length rec = length cols"
  shows "\<exists>bs'. append_values cols bs rec = Inr bs' \<and> builders_hold cols bs' (buf @ [record_cells cols rec])
     \<and> builders_are cols bs' (buf @ [record_cells cols rec])"
proof -
  have len: "length bs = length cols" using hold by (simp add: builders_hold_def)
  obtain bs' where bs': "append_values cols bs rec = Inr bs'" "length bs' = length cols"
    "\<forall>j < length cols. bs' ! j = append_cell (record_cells cols rec ! j) (bs ! j)"
    using append_values_ok [OF len assms(3)] by blast
  have "builder_ok (bs' ! j) \<and> b_kind (bs' ! j) = type_kind (col_Type (cols ! j))
      \<and> builder_cells (bs' ! j) = map (\<lambda>row. row ! j) (buf @ [record_cells cols rec])" if j: "j < length cols" for j
  proof -
    have b: "builder_ok (bs ! j)" "b_kind (bs ! j) = type_kind (col_Type (cols ! j))"
      "builder_cells (bs ! j) = map (\<lambda>row. row ! j) buf"
      using hold j by (simp_all add: builders_hold_def)
    have "cell_fits (b_kind (bs ! j)) (record_cells cols rec ! j)"
      using b(2) record_cells_nth [OF assms(3) j] value_cell_fits by simp
    from append_cell_ok [OF b(1) this] show ?thesis using bs'(3) j b by simp
  qed
  moreover have "builders_are cols bs' (buf @ [record_cells cols rec])"
    using are bs'(2,3) by (simp add: builders_are_def column_builder_def)
  ultimately show ?thesis using bs'(1,2) by (simp add: builders_hold_def)
qed

section \<open>Operations\<close>

definition table_storable :: "externals \<Rightarrow> comp_id \<Rightarrow> column_def list \<Rightarrow> cell list list \<Rightarrow> bool" where
  "table_storable X cid cols table \<longleftrightarrow>
     list_all (\<lambda>j. column_ready X cid (column_builder (type_kind (col_Type (cols ! j))) (map (\<lambda>row. row ! j) table)))
       [0..<length cols]"

definition run_holds :: "'bm engine \<Rightarrow> writer \<Rightarrow> cell list list list \<Rightarrow> cell list list \<Rightarrow> bool" where
  "run_holds E w tables buf \<longleftrightarrow> writer_holds E w tables buf
     \<and> builders_are (sch_Columns (w_schema w)) (w_builders w) buf \<and> \<not> w_closed w \<and> (w_dirty w \<or> buf = [])"

lemma ready_storable:
  assumes "builders_are (sch_Columns (w_schema w)) (w_builders w) buf"
    and "table_storable (we_X V) (w_codec w) (sch_Columns (w_schema w)) buf"
  shows "ready V w"
  using assms by (auto simp: ready_def list_all_iff in_set_conv_nth builders_are_def table_storable_def)

lemma kind_append_cell [simp]: "b_kind (append_cell c b) = b_kind b"
  by (cases c) simp_all

lemma reset_column_builder: "builder_reset (column_builder k cells) = column_builder k []"
proof -
  have "b_kind (fold append_cell cells b) = b_kind b" for b
    by (induction cells arbitrary: b) simp_all
  then show ?thesis by (simp add: column_builder_def builder_reset_def new_builder_def)
qed

lemma builders_are_reset: "builders_are cols bs buf \<Longrightarrow> builders_are cols (map builder_reset bs) []"
  by (simp add: builders_are_def reset_column_builder)

lemma run_flush_ok:
  assumes env: "env_ok V E" and w: "run_holds E w tables buf"
    and st: "buf \<noteq> [] \<Longrightarrow> table_storable (we_X V) (w_codec w) (sch_Columns (w_schema w)) buf"
  shows "\<exists>w'. flush_segment V w = (Inr (), w') \<and> same_file w w' \<and> w_dirty w' = w_dirty w
    \<and> run_holds E w' (if buf = [] then tables else tables @ [buf]) []"
proof -
  have h: "writer_holds E w tables buf" and are: "builders_are (sch_Columns (w_schema w)) (w_builders w) buf"
    using w by (simp_all add: run_holds_def)
  have "ready V w" if "buf \<noteq> []" using ready_storable [OF are st [OF that]] .
  from flush_segment_ok [OF env h this] obtain w' where w': "flush_segment V w = (Inr (), w')" "same_file w w'"
    "w_dirty w' = w_dirty w" "w_closed w' = w_closed w"
    "w_builders w' = (if buf = [] then w_builders w else map builder_reset (w_builders w))"
    "writer_holds E w' (if buf = [] then tables else tables @ [buf]) []" by blast
  have "builders_are (sch_Columns (w_schema w')) (w_builders w') []"
    using are builders_are_reset [OF are] w'(2,5) by (simp add: same_file_def split: if_splits)
  then show ?thesis using w' w by (auto simp: run_holds_def)
qed

text \<open>The segments a sequence of operations makes of the rows appended.\<close>

datatype writer_op = OpAppend row_record | OpFlush | OpCheckpoint

fun apply_writer_op :: "'bm wenv \<Rightarrow> writer_op \<Rightarrow> writer \<Rightarrow> unit wres" where
  "apply_writer_op V (OpAppend rec) w = append_record V rec w"
| "apply_writer_op V OpFlush w = flush V w"
| "apply_writer_op V OpCheckpoint w = checkpoint V w"

fun run_ops :: "'bm wenv \<Rightarrow> writer_op list \<Rightarrow> writer \<Rightarrow> unit wres" where
  "run_ops V [] w = (Inr (), w)"
| "run_ops V (op # ops) w = bindW (apply_writer_op V op w) (\<lambda>_ w1. run_ops V ops w1)"

fun op_step :: "int \<Rightarrow> column_def list \<Rightarrow> writer_op \<Rightarrow> cell list list list \<times> cell list list
    \<Rightarrow> cell list list list \<times> cell list list" where
  "op_step n cols (OpAppend rec) (tables, buf) =
     (let buf' = buf @ [record_cells cols rec]
      in if n \<le> int (length buf') then (tables @ [buf'], []) else (tables, buf'))"
| "op_step n cols OpFlush (tables, buf) = (if buf = [] then (tables, []) else (tables @ [buf], []))"
| "op_step n cols OpCheckpoint (tables, buf) = (if buf = [] then (tables, []) else (tables @ [buf], []))"

definition segments_of :: "int \<Rightarrow> column_def list \<Rightarrow> writer_op list \<Rightarrow> cell list list list" where
  "segments_of n cols ops =
     (case fold (op_step n cols) ops ([], []) of (tables, buf) \<Rightarrow> if buf = [] then tables else tables @ [buf])"

fun op_arity :: "nat \<Rightarrow> writer_op \<Rightarrow> bool" where
  "op_arity k (OpAppend rec) = (length rec = k)"
| "op_arity k OpFlush = True"
| "op_arity k OpCheckpoint = True"

fun rows_of :: "column_def list \<Rightarrow> writer_op list \<Rightarrow> cell list list" where
  "rows_of cols [] = []"
| "rows_of cols (OpAppend rec # ops) = record_cells cols rec # rows_of cols ops"
| "rows_of cols (_ # ops) = rows_of cols ops"

lemma op_steps_rows:
  "fold (op_step n cols) ops (tables, buf) = (tables', buf') \<Longrightarrow>
     concat tables' @ buf' = concat tables @ buf @ rows_of cols ops"
proof (induction ops arbitrary: tables buf)
  case (Cons op ops)
  obtain t b where tb: "op_step n cols op (tables, buf) = (t, b)" by (cases "op_step n cols op (tables, buf)")
  then have "concat t @ b = concat tables @ buf @ rows_of cols [op]"
    by (cases op) (auto simp: Let_def split: if_splits)
  moreover have "concat tables' @ buf' = concat t @ b @ rows_of cols ops"
    using Cons.IH [of t b] Cons.prems tb by simp
  moreover have "rows_of cols (op # ops) = rows_of cols [op] @ rows_of cols ops" by (cases op) simp_all
  ultimately show ?case by simp
qed simp

lemma segments_of_rows: "concat (segments_of n cols ops) = rows_of cols ops"
  using op_steps_rows [of n cols ops "[]" "[]"] by (auto simp: segments_of_def split: prod.split)

text \<open>A footer never fails on a writer's directory.\<close>

lemma append_footer_total:
  assumes "\<forall>sd \<in> set (f_Segments f). length (sd_Columns sd) = length (sch_Columns (f_Schema f))"
  shows "\<exists>p. append_footer dst f = Inr (dst @ p)"
proof -
  have "\<exists>bs. append_segment (f_Schema f) sd = Inr bs" if "sd \<in> set (f_Segments f)" for sd
  proof -
    have "mapE (\<lambda>j. bindE (index_at (sch_Columns (f_Schema f)) j) (\<lambda>c.
              Inr (append_column_dir (type_kind (col_Type c)) (sd_Columns sd ! j)))) [0..<length (sd_Columns sd)]
        = Inr (map (\<lambda>j. append_column_dir (type_kind (col_Type (sch_Columns (f_Schema f) ! j))) (sd_Columns sd ! j))
            [0..<length (sd_Columns sd)])"
      using assms that by (intro mapE_ok) simp
    then show ?thesis by (simp add: append_segment_def)
  qed
  then have "mapE (append_segment (f_Schema f)) (f_Segments f)
      = Inr (map (\<lambda>sd. projr (append_segment (f_Schema f) sd)) (f_Segments f))"
    by (intro mapE_ok) force
  then show ?thesis by (simp add: append_footer_def Let_def)
qed

lemma write_footer_ok:
  assumes env: "env_ok V E" and w: "writer_holds E w tables buf"
  shows "\<exists>p. append_footer [] (writer_footer w) = Inr p
     \<and> write_footer V w = (Inr (), (grow p w)\<lparr>w_dirty := False\<rparr>)"
proof -
  obtain p where p: "append_footer [] (writer_footer w) = Inr p"
    using append_footer_total [of "writer_footer w" "[]"] w by (auto simp: writer_holds_def writer_footer_def)
  moreover have "reliable V" using env by (simp add: env_ok_def)
  ultimately show ?thesis by (simp add: write_footer_def writer_write_ok)
qed

lemma writer_holds_grow:
  assumes "writer_holds E w tables buf"
  shows "writer_holds E ((grow p w)\<lparr>w_dirty := b\<rparr>) tables buf"
proof -
  have "segment_stored E (w_out w @ p) (sch_Columns (w_schema w)) (w_segments w ! i) (tables ! i)"
    if "length (w_out w @ p) < 2 ^ 62" "i < length tables" for i
    using assms that by (intro segment_stored_append) (simp add: writer_holds_def)
  then show ?thesis
    using assms in_step_grow [of w p] by (auto simp: writer_holds_def in_step_def)
qed

text \<open>An accepted record is in the buffer before the flush that may follow.\<close>

lemma append_record_step:
  assumes w: "run_holds E w tables buf" and len: "length rec = length (sch_Columns (w_schema w))"
  shows "\<exists>w2. run_holds E w2 tables (buf @ [record_cells (sch_Columns (w_schema w)) rec]) \<and> same_file w w2 \<and> w_dirty w2
    \<and> w_out w2 = w_out w \<and> w_segments w2 = w_segments w
    \<and> (\<forall>V. append_record V rec w =
        (if wo_SegmentRows (w_opts w) \<le> int (length buf + 1) then flush_segment V w2 else (Inr (), w2)))"
proof -
  let ?cols = "sch_Columns (w_schema w)" and ?row = "record_cells (sch_Columns (w_schema w)) rec"
  have h: "writer_holds E w tables buf" "builders_are ?cols (w_builders w) buf" "\<not> w_closed w"
    using w by (simp_all add: run_holds_def)
  have cols: "?cols \<noteq> []" using h(1) by (simp add: writer_holds_def)
  obtain bs where bs: "append_values ?cols (w_builders w) rec = Inr bs" "builders_hold ?cols bs (buf @ [?row])"
    "builders_are ?cols bs (buf @ [?row])"
    using append_values_hold [OF _ h(2) len] h(1) by (auto simp: writer_holds_def)
  define w2 where "w2 = w\<lparr>w_builders := bs, w_dirty := True\<rparr>"
  have w2: "run_holds E w2 tables (buf @ [?row])" "same_file w w2" "w_dirty w2" "w_out w2 = w_out w"
    "w_segments w2 = w_segments w"
    using h(1,3) bs by (simp_all add: run_holds_def w2_def writer_holds_def in_step_def same_file_def)
  have b0: "index_at bs 0 = Inr (bs ! 0)" "b_rows (bs ! 0) = length buf + 1"
    using cols bs(2) builders_hold_rows [OF bs(2), of 0] by (simp_all add: builders_hold_def)
  have run: "append_record V rec w =
      (if wo_SegmentRows (w_opts w) \<le> int (length buf + 1) then flush_segment V w2 else (Inr (), w2))" for V :: "'b wenv"
    using h(3) len bs(1) b0 by (simp add: append_record_def Let_def w2_def)
  show ?thesis using w2 run by blast
qed

text \<open>One operation, on tables that the codecs can carry, does what \<open>op_step\<close> says.\<close>

lemma run_append_ok:
  assumes env: "env_ok V E" and w: "run_holds E w tables buf" and len: "length rec = length (sch_Columns (w_schema w))"
    and step: "op_step (wo_SegmentRows (w_opts w)) (sch_Columns (w_schema w)) (OpAppend rec) (tables, buf) = (t, b)"
    and st: "\<forall>x \<in> set t. table_storable (we_X V) (w_codec w) (sch_Columns (w_schema w)) x"
  shows "\<exists>w'. append_record V rec w = (Inr (), w') \<and> same_file w w' \<and> run_holds E w' t b \<and> w_dirty w'"
proof -
  let ?row = "record_cells (sch_Columns (w_schema w)) rec"
  obtain w2 where w2: "run_holds E w2 tables (buf @ [?row])" "same_file w w2" "w_dirty w2"
    and run: "append_record V rec w =
      (if wo_SegmentRows (w_opts w) \<le> int (length buf + 1) then flush_segment V w2 else (Inr (), w2))"
    using append_record_step [OF w len] by blast
  show ?thesis
  proof (cases "wo_SegmentRows (w_opts w) \<le> int (length buf + 1)")
    case True
    then have t: "t = tables @ [buf @ [?row]]" "b = []" using step by (simp_all add: Let_def)
    then have "table_storable (we_X V) (w_codec w2) (sch_Columns (w_schema w2)) (buf @ [?row])"
      using st w2(2) by (simp add: same_file_def)
    from run_flush_ok [OF env w2(1) this] show ?thesis
      using run True t same_file_trans [OF w2(2)] w2(3) by auto
  next
    case False
    then show ?thesis using run step w2 by (auto simp: Let_def)
  qed
qed

lemma run_flush_op_ok:
  assumes env: "env_ok V E" and w: "run_holds E w tables buf" and step: "op_step n cols OpFlush (tables, buf) = (t, b)"
    and st: "\<forall>x \<in> set t. table_storable (we_X V) (w_codec w) (sch_Columns (w_schema w)) x"
  shows "\<exists>w'. flush_segment V w = (Inr (), w') \<and> same_file w w' \<and> run_holds E w' t b"
proof -
  have t: "t = (if buf = [] then tables else tables @ [buf])" "b = []" using step by (auto split: if_splits)
  have "table_storable (we_X V) (w_codec w) (sch_Columns (w_schema w)) buf" if "buf \<noteq> []"
    using st t that by simp
  from run_flush_ok [OF env w this] show ?thesis using t by auto
qed

lemma same_file_grow: "same_file w ((grow p w)\<lparr>w_dirty := b\<rparr>)" "same_file w (w\<lparr>w_closed := c\<rparr>)"
  by (auto simp: same_file_def)

lemma run_op_ok:
  assumes env: "env_ok V E" and w: "run_holds E w tables buf"
    and op: "op_arity (length (sch_Columns (w_schema w))) op"
    and step: "op_step (wo_SegmentRows (w_opts w)) (sch_Columns (w_schema w)) op (tables, buf) = (t, b)"
    and st: "\<forall>x \<in> set t. table_storable (we_X V) (w_codec w) (sch_Columns (w_schema w)) x"
  shows "\<exists>w'. apply_writer_op V op w = (Inr (), w') \<and> same_file w w' \<and> run_holds E w' t b"
proof (cases op)
  case (OpAppend rec)
  then show ?thesis using run_append_ok [OF env w _ _ st] op step by auto
next
  case OpFlush
  then show ?thesis using run_flush_op_ok [OF env w _ st] step by (simp add: flush_def)
next
  case OpCheckpoint
  show ?thesis
  proof (cases "w_dirty w")
    case False
    then have "buf = []" using w by (simp add: run_holds_def)
    then show ?thesis using False OpCheckpoint step w by (simp add: checkpoint_def)
  next
    case True
    have "op_step (wo_SegmentRows (w_opts w)) (sch_Columns (w_schema w)) OpFlush (tables, buf) = (t, b)"
      using OpCheckpoint step by simp
    from run_flush_op_ok [OF env w this st] obtain w1 where w1: "flush_segment V w = (Inr (), w1)" "same_file w w1"
      "run_holds E w1 t b" by blast
    have b: "b = []" using OpCheckpoint step by (auto split: if_splits)
    have h1: "writer_holds E w1 t b" using w1(3) by (simp add: run_holds_def)
    obtain p where p: "write_footer V w1 = (Inr (), (grow p w1)\<lparr>w_dirty := False\<rparr>)"
      using write_footer_ok [OF env h1] by blast
    have "run_holds E ((grow p w1)\<lparr>w_dirty := False\<rparr>) t b"
      using writer_holds_grow [OF h1] w1(3) b by (simp add: run_holds_def)
    moreover have "same_file w ((grow p w1)\<lparr>w_dirty := False\<rparr>)"
      by (rule same_file_trans [OF w1(2) same_file_grow(1)])
    moreover have "\<not> w_closed w" using w by (simp add: run_holds_def)
    ultimately show ?thesis
      using OpCheckpoint True w1(1) p by (simp add: checkpoint_def)
  qed
qed

lemma op_step_extends: "op_step n cols op (tables, buf) = (t, b) \<Longrightarrow> set tables \<subseteq> set t"
  by (cases op) (auto simp: Let_def split: if_splits)

lemma op_steps_extend: "fold (op_step n cols) ops (tables, buf) = (t, b) \<Longrightarrow> set tables \<subseteq> set t"
proof (induction ops arbitrary: tables buf)
  case (Cons op ops)
  obtain t1 b1 where "op_step n cols op (tables, buf) = (t1, b1)" by (cases "op_step n cols op (tables, buf)")
  then show ?case using Cons.IH [of t1 b1] Cons.prems op_step_extends [of n cols op tables buf] by fastforce
qed simp

lemma run_ops_ok:
  assumes env: "env_ok V E" and "run_holds E w tables buf"
    and "list_all (op_arity (length (sch_Columns (w_schema w)))) ops"
    and "fold (op_step (wo_SegmentRows (w_opts w)) (sch_Columns (w_schema w))) ops (tables, buf) = (t, b)"
    and "\<forall>x \<in> set t. table_storable (we_X V) (w_codec w) (sch_Columns (w_schema w)) x"
  shows "\<exists>w'. run_ops V ops w = (Inr (), w') \<and> same_file w w' \<and> run_holds E w' t b"
  using assms(2-)
proof (induction ops arbitrary: w tables buf)
  case (Cons op ops)
  let ?step = "op_step (wo_SegmentRows (w_opts w)) (sch_Columns (w_schema w))"
  obtain t1 b1 where tb: "?step op (tables, buf) = (t1, b1)" by (cases "?step op (tables, buf)")
  have rest: "fold ?step ops (t1, b1) = (t, b)" using Cons.prems(3) tb by simp
  have st: "\<forall>x \<in> set t1. table_storable (we_X V) (w_codec w) (sch_Columns (w_schema w)) x"
    using Cons.prems(4) op_steps_extend [OF rest] by blast
  obtain w1 where w1: "apply_writer_op V op w = (Inr (), w1)" "same_file w w1" "run_holds E w1 t1 b1"
    using run_op_ok [OF env Cons.prems(1) _ tb st] Cons.prems(2) by auto
  then have same: "w_schema w1 = w_schema w" "w_opts w1 = w_opts w" "w_codec w1 = w_codec w"
    by (simp_all add: same_file_def)
  from Cons.IH [OF w1(3)] Cons.prems(2,4) rest same obtain w2 where
    "run_ops V ops w1 = (Inr (), w2)" "same_file w1 w2" "run_holds E w2 t b" by auto
  then show ?case using w1(1,2) same_file_trans by auto
qed simp

section \<open>The finished file\<close>

definition write_file :: "'bm wenv \<Rightarrow> schema \<Rightarrow> writer_options \<Rightarrow> writer_op list \<Rightarrow> writer res" where
  "write_file V sch opts ops =
     bindE (new_writer V (Some sch) (Some opts)) (\<lambda>w.
       case run_ops V ops w of
         (Inl e, _) \<Rightarrow> Inl e
       | (Inr _, w1) \<Rightarrow> (case close V w1 of (Inl e, _) \<Rightarrow> Inl e | (Inr _, w2) \<Rightarrow> Inr w2))"

lemma write_file_parts:
  assumes "write_file V sch opts ops = Inr w"
  obtains w0 w1 where "new_writer V (Some sch) (Some opts) = Inr w0" and "run_ops V ops w0 = (Inr (), w1)"
    and "close V w1 = (Inr (), w)"
proof -
  obtain w0 where w0: "new_writer V (Some sch) (Some opts) = Inr w0"
    using assms by (cases "new_writer V (Some sch) (Some opts)") (simp_all add: write_file_def)
  obtain a w1 where a: "run_ops V ops w0 = (a, w1)" by fastforce
  obtain b w2 where b: "close V w1 = (b, w2)" by fastforce
  show ?thesis using that w0 a b assms by (cases a; cases b) (simp_all add: write_file_def)
qed

lemma find_ts_col_bound: "find_ts_col i cs = Some t \<Longrightarrow> t < i + length cs"
  by (induction cs arbitrary: i) (auto split: if_splits, fastforce)

lemma new_writer_ok:
  assumes env: "env_ok V E" and sch: "validate sch = Inr ()" and codec: "writer_codec V (clamp_options opts) = Inr cid"
    and wid: "length (wo_WriterID opts) = 16"
  shows "\<exists>w h. new_writer V (Some sch) (Some opts) = Inr w \<and> run_holds E w [] [] \<and> w_schema w = sch
    \<and> w_opts w = clamp_options opts \<and> w_codec w = cid \<and> w_out w = append_header [] h
    \<and> supports_format (h_Version h) \<and> length (h_WriterID h) = 16"
proof -
  let ?o = "clamp_options opts"
  let ?hdr = "\<lparr>h_Version = CurrentFormat, h_Flags = 0, h_Created = we_now V, h_WriterID = wo_WriterID ?o\<rparr>"
  let ?w = "\<lparr>w_out = [], w_schema = sch, w_opts = ?o, w_codec = cid,
                   w_builders = map (\<lambda>c. new_builder (type_kind (col_Type c))) (sch_Columns sch),
                   w_tsCol = find_ts_col 0 (sch_Columns sch), w_pos = 0, w_segments = [],
                   w_totalRows = 0, w_minTS = 0, w_maxTS = 0, w_haveTS = False, w_dirty = False,
                   w_closed = False\<rparr>"
  have run: "new_writer V (Some sch) (Some opts) = Inr (grow (append_header [] ?hdr) ?w)"
    using sch codec env by (simp add: new_writer_def Let_def env_ok_def writer_write_ok)
  have ne: "sch_Columns sch \<noteq> []" using sch by (simp add: validate_iff)
  have "builders_hold (sch_Columns sch) (w_builders ?w) []"
    using builder_ok_new [OF type_kind_cases]
    by (auto simp: builders_hold_def builder_cells_def) (simp_all add: new_builder_def)
  moreover have "builders_are (sch_Columns sch) (w_builders ?w) []"
    by (simp add: builders_are_def column_builder_def)
  moreover have "t < length (sch_Columns sch)" if "find_ts_col 0 (sch_Columns sch) = Some t" for t
    using find_ts_col_bound [OF that] by simp
  ultimately have "run_holds E (grow (append_header [] ?hdr) ?w) [] []"
    using ne by (simp add: run_holds_def writer_holds_def in_step_def)
  moreover have "wo_WriterID ?o = wo_WriterID opts" by (simp add: clamp_options_def Let_def)
  ultimately show ?thesis
    using run wid by (intro exI [of _ "grow (append_header [] ?hdr) ?w"] exI [of _ ?hdr])
      (simp add: supports_format_def CurrentFormat_def)
qed

text \<open>The footer of a writer is one the reader accepts, when the file is of a size it can be.\<close>

definition readable :: "writer \<Rightarrow> bool" where
  "readable w \<longleftrightarrow> validate (w_schema w) = Inr () \<and> names_fit (w_schema w)
     \<and> length (wo_SourceType (w_opts w)) \<le> 4096 \<and> length (w_segments w) \<le> unat MaxSegments
     \<and> length (footer_body (writer_footer w)) \<le> 2 ^ 28 \<and> length (w_out w) + 2 ^ 28 + 12 < 2 ^ 62"

lemma writer_footer_ok:
  assumes w: "writer_holds E w tables buf" and r: "readable w"
  shows "footer_ok (writer_footer w)"
proof -
  have "segment_ok (w_schema w) sd" if sd: "sd \<in> set (w_segments w)" for sd
  proof -
    obtain i where i: "i < length tables" "sd = w_segments w ! i"
      using sd w by (auto simp: in_set_conv_nth writer_holds_def)
    then have "segment_stored E (w_out w) (sch_Columns (w_schema w)) sd (tables ! i)"
      using w r by (simp add: writer_holds_def readable_def)
    then show ?thesis
      by (simp add: segment_stored_def segment_ok_def list_all2_conv_all_nth column_stored_def)
  qed
  then show ?thesis using r by (simp add: footer_ok_def writer_footer_def readable_def list_all_iff)
qed

lemma slice_blob:
  assumes "blob_at (r_data r) off len bs" and "length (r_data r) < 2 ^ 62"
  shows "reader_slice r off len = Inr bs"
proof -
  have b: "unat off + unat len \<le> length (r_data r)" "take (unat len) (drop (unat off) (r_data r)) = bs"
    using assms(1) by (simp_all add: blob_at_def)
  have "unat (off + len) = unat off + unat len" using b(1) assms(2) by (intro unat_add_lem [THEN iffD1]) simp
  moreover have "unat (of_nat (length (r_data r)) :: u64) = length (r_data r)" using assms(2) by (intro unat_of_nat_u64) simp
  ultimately show ?thesis
    using b by (simp add: reader_slice_def Let_def word_less_nat_alt slice_range_def)
qed

lemma stored_holds:
  assumes "column_stored E (r_data r) k cd cells" and "length (r_data r) < 2 ^ 62"
    and "i < length (reader_segments r)" and "j < length (sd_Columns (reader_segments r ! i))"
    and "cd = sd_Columns (reader_segments r ! i) ! j"
  shows "column_holds E r i j k cd cells"
proof -
  obtain bs d where d: "blob_at (r_data r) (cd_ChunkOffset cd) (cd_ChunkLength cd) bs" "decode_chunk (en_X E) bs = Inr d"
    "data_ok d" "d_Kind d = k" "data_cells d = cells" and z: "zone_ok cd k cells"
    using assms(1) by (auto simp: column_stored_def)
  have "reader_column (en_X E) r i j = Inr d"
    using slice_blob [OF d(1) assms(2)] d(2) assms(3-5) by (simp add: reader_column_def Let_def)
  moreover have "\<exists>ci. reader_index (en_R E) r i j = Inr ci \<and> index_ok E ci k cells"
  proof (cases "cd_IndexLength cd = 0")
    case True
    then show ?thesis
      using assms(3-5) by (simp add: reader_index_def index_ok_def int_index_exact_def bytes_index_exact_def)
  next
    case False
    then obtain bs ci where ci: "blob_at (r_data r) (cd_IndexOffset cd) (cd_IndexLength cd) bs"
      "read_column_index (en_R E) bs = Inr ci" "index_ok E ci k cells"
      using assms(1) by (auto simp: column_stored_def)
    then show ?thesis
      using slice_blob [OF ci(1) assms(2)] False assms(3-5) by (simp add: reader_index_def)
  qed
  ultimately show ?thesis using d z by (auto simp: column_holds_def)
qed

lemma directory_holds:
  assumes w: "writer_holds E w tables []" and rows: "length (concat tables) < 2 ^ 64" and len: "length (w_out w @ rest) < 2 ^ 62"
  shows "file_holds E \<lparr>r_data = w_out w @ rest, r_header = h, r_footer = writer_footer w\<rparr> tables" (is "file_holds E ?rd tables")
proof -
  have seg: "segment_holds E ?rd i (tables ! i)" if i: "i < length tables" for i
  proof -
    have n: "i < length (w_segments w)" using w i by (simp add: writer_holds_def)
    have "segment_stored E (w_out w) (sch_Columns (w_schema w)) (w_segments w ! i) (tables ! i)"
      using w i len by (simp add: writer_holds_def)
    from segment_stored_append [OF this, of rest]
    have s: "segment_stored E (w_out w @ rest) (sch_Columns (w_schema w)) (w_segments w ! i) (tables ! i)" .
    have "column_holds E ?rd i j (type_kind (col_Type (sch_Columns (w_schema w) ! j)))
        (sd_Columns (w_segments w ! i) ! j) (map (\<lambda>row. row ! j) (tables ! i))"
      if "j < length (sch_Columns (w_schema w))" for j
      by (rule stored_holds) (use s that n len in \<open>simp_all add: segment_stored_def writer_footer_def\<close>)
    then show ?thesis
      using s n by (simp add: segment_holds_def segment_stored_def Let_def writer_footer_def reader_schema_def)
  qed
  have "unat (w_totalRows w) = length (concat tables)"
    using w rows unat_of_nat_u64 by (simp add: writer_holds_def)
  then show ?thesis using seg w by (simp add: file_holds_def writer_footer_def writer_holds_def)
qed

lemma finished_file_holds:
  assumes w: "writer_holds E w tables []" and r: "readable w" and p: "append_footer [] (writer_footer w) = Inr p"
    and out: "w_out w = append_header [] h @ rest" "supports_format (h_Version h)" "length (h_WriterID h) = 16"
    and rows: "length (concat tables) < 2 ^ 64"
  shows "\<exists>rd. new_reader (w_out w @ p) = Inr rd \<and> reader_schema rd = w_schema w \<and> file_holds E rd tables"
    and "no_magic_after (length (w_out w @ p)) (w_out w @ p @ junk) \<Longrightarrow> length (w_out w @ p @ junk) < 2 ^ 62 \<Longrightarrow>
      \<exists>rd dirty. recover_reader (w_out w @ p @ junk) = Inr (rd, dirty) \<and> reader_schema rd = w_schema w \<and> file_holds E rd tables"
proof -
  note ok = writer_footer_ok [OF w r]
  let ?f = "writer_footer w"
  have p': "append_footer (w_out w) ?f = Inr (w_out w @ p)"
    using p by (simp add: append_footer_eq [OF ok])
  have plen: "length p \<le> 2 ^ 28 + 12"
    using p r by (auto simp: append_footer_eq [OF ok] readable_def)
  have hdr: "read_header (w_out w @ p @ junk) = Inr h" for junk
    using header_readback [OF out(2,3), of "rest @ p @ junk"] out(1) by simp
  have size: "HeaderSize \<le> length (w_out w)"
    using out(1,3) by (simp add: append_header_eq header_body_def HeaderSize_def)
  have body: "length (footer_body ?f) \<le> 2 ^ 28" using r by (simp add: readable_def)
  let ?rd = "\<lambda>junk. \<lparr>r_data = w_out w @ p @ junk, r_header = h, r_footer = ?f\<rparr>"
  have len: "length (w_out w @ p) < 2 ^ 62" using plen r by (simp add: readable_def)
  have sch: "reader_schema (?rd junk) = w_schema w" for junk by (simp add: reader_schema_def writer_footer_def)
  have ftr: "read_footer (w_out w @ p) = Inr ?f" by (rule footer_readback [OF ok size body p'])
  have "new_reader (w_out w @ p) = Inr (?rd [])" using hdr [of "[]"] ftr by (simp add: new_reader_def)
  then show "\<exists>rd. new_reader (w_out w @ p) = Inr rd \<and> reader_schema rd = w_schema w \<and> file_holds E rd tables"
    using directory_holds [OF w rows, of "p @ []" h] len sch [of "[]"] by simp
  show "\<exists>rd dirty. recover_reader (w_out w @ p @ junk) = Inr (rd, dirty) \<and> reader_schema rd = w_schema w \<and> file_holds E rd tables"
    if m: "no_magic_after (length (w_out w @ p)) (w_out w @ p @ junk)" and l: "length (w_out w @ p @ junk) < 2 ^ 62"
  proof -
    have rec: "recover_footer (w_out w @ p @ junk) = Inr ?f"
      using checkpoint_survives_crash [OF ok size body p', of junk] m l by simp
    have holds: "file_holds E (?rd junk) tables" using directory_holds [OF w rows, of "p @ junk" h] l by simp
    show ?thesis
    proof (cases "junk = []")
      case True
      then show ?thesis using hdr [of "[]"] ftr holds sch [of "[]"] by (auto simp: recover_reader_def)
    next
      case False
      then have "read_footer (w_out w @ p @ junk) \<noteq> Inr g" for g
        using no_magic_footer [OF m, of "length (w_out w @ p @ junk)" g] by simp
      moreover have "graceful (read_footer (w_out w @ p @ junk))" using l by (intro read_footer_graceful) (simp add: short_def)
      ultimately obtain e where "read_footer (w_out w @ p @ junk) = Inl e" "e \<noteq> Panic" "e \<noteq> OutOfMemory"
        by (cases "read_footer (w_out w @ p @ junk)") (auto simp: graceful_def)
      then show ?thesis using hdr [of junk] rec holds sch [of junk] by (auto simp: recover_reader_def)
    qed
  qed
qed

text \<open>A finished writer: its directory, and the bytes before the last footer.\<close>

lemma write_file_ok:
  assumes env: "env_ok V E" and sch: "validate sch = Inr ()" and codec: "writer_codec V (clamp_options opts) = Inr cid"
    and wid: "length (wo_WriterID opts) = 16"
    and ops: "list_all (op_arity (length (sch_Columns sch))) ops"
    and st: "list_all (table_storable (we_X V) cid (sch_Columns sch))
        (segments_of (wo_SegmentRows (clamp_options opts)) (sch_Columns sch) ops)"
  shows "\<exists>w. write_file V sch opts ops = Inr w \<and>
     (readable w \<and> length (rows_of (sch_Columns sch) ops) < 2 ^ 64 \<longrightarrow>
       (\<exists>rd. new_reader (w_out w) = Inr rd \<and> reader_schema rd = sch \<and>
          file_holds E rd (segments_of (wo_SegmentRows (clamp_options opts)) (sch_Columns sch) ops)))"
proof -
  let ?o = "clamp_options opts" and ?cols = "sch_Columns sch"
  let ?tables = "segments_of (wo_SegmentRows ?o) ?cols ops"
  obtain w0 h where w0: "new_writer V (Some sch) (Some opts) = Inr w0" "run_holds E w0 [] []" "w_schema w0 = sch"
    "w_opts w0 = ?o" "w_codec w0 = cid" "w_out w0 = append_header [] h"
    and h: "supports_format (h_Version h)" "length (h_WriterID h) = 16"
    using new_writer_ok [OF env sch codec wid] by blast
  obtain t b where tb: "fold (op_step (wo_SegmentRows ?o) ?cols) ops ([], []) = (t, b)"
    by (cases "fold (op_step (wo_SegmentRows ?o) ?cols) ops ([], [])")
  have tables: "?tables = (if b = [] then t else t @ [b])" using tb by (simp add: segments_of_def)
  have stt: "\<forall>x \<in> set t. table_storable (we_X V) (w_codec w0) (sch_Columns (w_schema w0)) x"
    and stb: "b \<noteq> [] \<Longrightarrow> table_storable (we_X V) cid ?cols b"
    using st w0(3,5) by (auto simp: tables list_all_iff split: if_splits)
  obtain w1 where w1: "run_ops V ops w0 = (Inr (), w1)" "same_file w0 w1" "run_holds E w1 t b"
    using run_ops_ok [OF env w0(2), of ops t b] ops tb stt w0(3,4) by auto
  have same1: "w_schema w1 = sch" "w_codec w1 = cid" using w1(2) w0(3,5) by (simp_all add: same_file_def)
  obtain w2 where w2: "flush_segment V w1 = (Inr (), w2)" "same_file w1 w2" "run_holds E w2 ?tables []"
    using run_flush_ok [OF env w1(3)] stb same1 by (auto simp: tables)
  have h2: "writer_holds E w2 ?tables []" using w2(3) by (simp add: run_holds_def)
  obtain p where p: "append_footer [] (writer_footer w2) = Inr p"
    "write_footer V w2 = (Inr (), (grow p w2)\<lparr>w_dirty := False\<rparr>)"
    using write_footer_ok [OF env h2] by blast
  let ?w = "(grow p w2)\<lparr>w_dirty := False, w_closed := True\<rparr>"
  have "\<not> w_closed w1" using w1(3) by (simp add: run_holds_def)
  then have run: "write_file V sch opts ops = Inr ?w"
    using w0(1) w1(1) w2(1) p(2) by (simp add: write_file_def close_def)
  obtain rest where out: "w_out w2 = append_header [] h @ rest" and same2: "w_schema w2 = sch"
    using same_file_trans [OF w1(2) w2(2)] w0(3,6) by (auto simp: same_file_def)
  have "\<exists>rd. new_reader (w_out ?w) = Inr rd \<and> reader_schema rd = sch \<and> file_holds E rd ?tables"
    if "readable ?w" and rows: "length (rows_of ?cols ops) < 2 ^ 64"
  proof -
    have "readable w2" using that(1) by (auto simp: readable_def writer_footer_def)
    from finished_file_holds(1) [OF h2 this p(1) out h] rows same2 show ?thesis
      by (simp add: segments_of_rows)
  qed
  then show ?thesis using run by blast
qed

section \<open>Crashes\<close>

text \<open>A run that is not closed: the writer and the bytes on the stream so far.\<close>

definition write_until :: "'bm wenv \<Rightarrow> schema \<Rightarrow> writer_options \<Rightarrow> writer_op list \<Rightarrow> writer res" where
  "write_until V sch opts ops =
     bindE (new_writer V (Some sch) (Some opts)) (\<lambda>w. case run_ops V ops w of (Inl e, _) \<Rightarrow> Inl e | (Inr _, w1) \<Rightarrow> Inr w1)"

lemma run_ops_append: "run_ops V (xs @ ys) w = bindW (run_ops V xs w) (\<lambda>_ w1. run_ops V ys w1)"
  by (induction xs arbitrary: w) (auto simp: bindW_def split: prod.split sum.split)

lemma readable_grow: "readable ((grow p w)\<lparr>w_dirty := b\<rparr>) \<Longrightarrow> readable w"
  by (auto simp: readable_def writer_footer_def)

lemma write_until_ok:
  assumes env: "env_ok V E" and sch: "validate sch = Inr ()" and codec: "writer_codec V (clamp_options opts) = Inr cid"
    and wid: "length (wo_WriterID opts) = 16"
    and ops: "list_all (op_arity (length (sch_Columns sch))) (ops @ [OpAppend rec])"
    and st: "list_all (table_storable (we_X V) cid (sch_Columns sch))
        (segments_of (wo_SegmentRows (clamp_options opts)) (sch_Columns sch) (ops @ [OpAppend rec]))"
  shows "\<exists>w. write_until V sch opts (ops @ [OpAppend rec, OpCheckpoint]) = Inr w \<and>
     (readable w \<and> length (rows_of (sch_Columns sch) (ops @ [OpAppend rec])) < 2 ^ 64
       \<and> no_magic_after (length (w_out w)) (w_out w @ junk) \<and> length (w_out w @ junk) < 2 ^ 62 \<longrightarrow>
       (\<exists>rd dirty. recover_reader (w_out w @ junk) = Inr (rd, dirty) \<and> reader_schema rd = sch \<and>
          file_holds E rd (segments_of (wo_SegmentRows (clamp_options opts)) (sch_Columns sch) (ops @ [OpAppend rec]))))"
proof -
  let ?o = "clamp_options opts" and ?cols = "sch_Columns sch" and ?ops = "ops @ [OpAppend rec]"
  let ?tables = "segments_of (wo_SegmentRows ?o) ?cols ?ops"
  obtain w0 h where w0: "new_writer V (Some sch) (Some opts) = Inr w0" "run_holds E w0 [] []" "w_schema w0 = sch"
    "w_opts w0 = ?o" "w_codec w0 = cid" "w_out w0 = append_header [] h"
    and h: "supports_format (h_Version h)" "length (h_WriterID h) = 16"
    using new_writer_ok [OF env sch codec wid] by blast
  obtain t0 b0 where tb0: "fold (op_step (wo_SegmentRows ?o) ?cols) ops ([], []) = (t0, b0)" by fastforce
  obtain t b where tb: "op_step (wo_SegmentRows ?o) ?cols (OpAppend rec) (t0, b0) = (t, b)" by fastforce
  have tables: "?tables = (if b = [] then t else t @ [b])" using tb0 tb by (simp add: segments_of_def)
  have stt: "\<forall>x \<in> set t. table_storable (we_X V) cid ?cols x" and stb: "b \<noteq> [] \<Longrightarrow> table_storable (we_X V) cid ?cols b"
    using st by (auto simp: tables list_all_iff split: if_splits)
  then have stt0: "\<forall>x \<in> set t0. table_storable (we_X V) cid ?cols x"
    using op_steps_extend [of "wo_SegmentRows ?o" ?cols "[OpAppend rec]" t0 b0 t b] tb by auto
  obtain w1 where w1: "run_ops V ops w0 = (Inr (), w1)" "same_file w0 w1" "run_holds E w1 t0 b0"
    using run_ops_ok [OF env w0(2), of ops t0 b0] ops tb0 stt0 w0(3-5) by auto
  have same1: "w_schema w1 = sch" "w_opts w1 = ?o" "w_codec w1 = cid" using w1(2) w0(3-5) by (simp_all add: same_file_def)
  obtain w2 where w2: "append_record V rec w1 = (Inr (), w2)" "same_file w1 w2" "run_holds E w2 t b" "w_dirty w2"
    using run_append_ok [OF env w1(3), of rec t b] ops tb stt same1 by auto
  have same2: "w_schema w2 = sch" "w_codec w2 = cid" using w2(2) same1 by (simp_all add: same_file_def)
  obtain w3 where w3: "flush_segment V w2 = (Inr (), w3)" "same_file w2 w3" "run_holds E w3 ?tables []"
    using run_flush_ok [OF env w2(3)] stb same2 by (auto simp: tables)
  have h3: "writer_holds E w3 ?tables []" using w3(3) by (simp add: run_holds_def)
  obtain p where p: "append_footer [] (writer_footer w3) = Inr p"
    "write_footer V w3 = (Inr (), (grow p w3)\<lparr>w_dirty := False\<rparr>)"
    using write_footer_ok [OF env h3] by blast
  let ?w = "(grow p w3)\<lparr>w_dirty := False\<rparr>"
  have "\<not> w_closed w2" using w2(3) by (simp add: run_holds_def)
  then have "checkpoint V w2 = (Inr (), ?w)" using w2(4) w3(1) p(2) by (simp add: checkpoint_def)
  then have run: "write_until V sch opts (ops @ [OpAppend rec, OpCheckpoint]) = Inr ?w"
    using w0(1) w1(1) w2(1) by (simp add: write_until_def run_ops_append)
  obtain rest where out: "w_out w3 = append_header [] h @ rest" and same3: "w_schema w3 = sch"
    using same_file_trans [OF same_file_trans [OF w1(2) w2(2)] w3(2)] w0(3,6) by (auto simp: same_file_def)
  have "\<exists>rd dirty. recover_reader (w_out ?w @ junk) = Inr (rd, dirty) \<and> reader_schema rd = sch \<and> file_holds E rd ?tables"
    if r: "readable ?w" and rows: "length (rows_of ?cols ?ops) < 2 ^ 64"
      and m: "no_magic_after (length (w_out ?w)) (w_out ?w @ junk)" and l: "length (w_out ?w @ junk) < 2 ^ 62"
  proof -
    have len: "length (concat ?tables) < 2 ^ 64" using rows by (simp only: segments_of_rows)
    show ?thesis
      using finished_file_holds(2) [OF h3 readable_grow [OF r] p(1) out h len, of junk] m l same3 by simp
  qed
  then show ?thesis using run by blast
qed

section \<open>Files without compression\<close>

text \<open>
  Without an entropy codec every table of reasonable size is storable: at most 2^24 rows and
  2^28 bytes in each column, no value longer than 2^24.
\<close>

lemma column_ready_none:
  assumes "builder_ok b" and "values_ok b" and "b_kind b = KindBytes \<Longrightarrow> length (encode_raw (b_bytes b)) \<le> 2 ^ 30"
  shows "column_ready X CompNone b"
proof -
  obtain e encoded where e: "encode_semantic b = Inr (e, encoded)" "length encoded \<le> 2 ^ 30"
  proof (cases "b_kind b = KindInt")
    case True
    have rows: "length (b_ints b) \<le> 2 ^ 24" using assms(1,2) True by (simp add: builder_ok_def values_ok_def)
    obtain e encoded where enc: "encode_ints_auto (b_ints b) = Inr (e, encoded)"
      by (metis encode_ints_auto_total obj_sumE prod.exhaust)
    have "length encoded \<le> 8 * length (b_ints b)"
    proof (cases "b_ints b = []")
      case nonempty: False
      then obtain st where "select_ints (b_ints b) st = (e, encoded)"
        using enc by (auto simp: encode_ints_auto_def res_iff)
      then show ?thesis using select_ints_length(1) [of "b_ints b" st] by (simp add: length_encode_plain)
    qed (use enc in \<open>simp add: encode_ints_auto_def\<close>)
    then show ?thesis using that enc rows True by (simp add: encode_semantic_def)
  next
    case False
    then have k: "b_kind b = KindBytes" using assms(1) by (auto simp: builder_ok_def)
    have "length (snd (encode_bytes_auto (b_bytes b))) \<le> 2 ^ 30"
      using encode_bytes_auto_length [of "b_bytes b"] assms(3) [OF k] by linarith
    then show ?thesis
      using that [of "fst (encode_bytes_auto (b_bytes b))" "snd (encode_bytes_auto (b_bytes b))"] k
      by (simp add: encode_semantic_def)
  qed
  moreover have "within_limits encoded encoded" using e(2) by (cases encoded) (simp_all add: within_limits_def)
  ultimately show ?thesis
    using assms(2) by (simp add: column_ready_def entropy_stage_def inverts_def)
qed

definition cell_text_bytes :: "cell \<Rightarrow> bytes" where
  "cell_text_bytes c = (case c of BytesCell v \<Rightarrow> v | _ \<Rightarrow> [])"

lemma fold_append_cells:
  assumes "builder_ok b" and "list_all (cell_fits (b_kind b)) cells"
  shows "builder_ok (fold append_cell cells b) \<and> b_kind (fold append_cell cells b) = b_kind b
    \<and> b_rows (fold append_cell cells b) = b_rows b + length cells
    \<and> (b_kind b = KindBytes \<longrightarrow> b_bytes (fold append_cell cells b) = b_bytes b @ map cell_text_bytes cells)"
  using assms
proof (induction cells arbitrary: b)
  case (Cons c cells)
  have step: "builder_ok (append_cell c b)" "b_kind (append_cell c b) = b_kind b"
    using append_cell_ok [of b c] Cons.prems by simp_all
  have "b_rows (append_cell c b) = b_rows b + 1"
    by (cases c) (simp_all add: append_int_def append_bytes_def append_null_def Let_def)
  moreover have "b_bytes (append_cell c b) = b_bytes b @ [cell_text_bytes c]" if "b_kind b = KindBytes"
    using that Cons.prems(2)
    by (cases c) (simp_all add: append_int_def append_bytes_def append_null_def Let_def cell_text_bytes_def)
  ultimately show ?case using Cons.IH [OF step(1)] Cons.prems step(2) by simp
qed simp

lemma table_size_le: "table_size (sort (dict_collect vals)) \<le> sum_list (map length vals)"
proof -
  have "mset (dict_collect vals) \<subseteq># mset vals"
  proof (rule mset_subset_eqI)
    fix a
    have "count (mset (dict_collect vals)) a \<le> 1"
      using distinct_count_atmost_1 [of "dict_collect vals"] by (simp split: if_splits)
    moreover have "a \<in> set (dict_collect vals) \<Longrightarrow> 1 \<le> count (mset vals) a"
      by (simp add: Suc_le_eq count_greater_zero_iff)
    moreover have "a \<notin> set (dict_collect vals) \<Longrightarrow> count (mset (dict_collect vals)) a = 0"
      by (simp add: count_mset_0_iff)
    ultimately show "count (mset (dict_collect vals)) a \<le> count (mset vals) a"
      by (metis le_trans zero_le)
  qed
  then obtain C where "mset vals = mset (dict_collect vals) + C" by (metis subset_mset.le_iff_add)
  then have "image_mset length (mset vals) = image_mset length (mset (dict_collect vals)) + image_mset length C" by simp
  then have "sum_mset (image_mset length (mset (dict_collect vals))) \<le> sum_mset (image_mset length (mset vals))" by simp
  then show ?thesis by (simp add: table_size_def flip: sum_mset_sum_list)
qed

lemma encode_raw_le: "length (encode_raw vals) \<le> sum_list (map length vals) + 10 * length vals"
proof (induction vals)
  case (Cons v vals)
  then show ?case using length_put_uvarint_le10 [of "of_nat (length v)"] by (simp add: encode_raw_def put_value_def)
qed (simp add: encode_raw_def)

definition column_fits :: "kind \<Rightarrow> cell list \<Rightarrow> bool" where
  "column_fits k cells \<longleftrightarrow> list_all (cell_fits k) cells \<and> length cells \<le> 2 ^ 24
     \<and> list_all (\<lambda>c. length (cell_text_bytes c) \<le> 2 ^ 24) cells
     \<and> sum_list (map (\<lambda>c. length (cell_text_bytes c)) cells) \<le> 2 ^ 28"

lemma column_fits_ready:
  assumes "column_fits k cells" and k: "k = KindInt \<or> k = KindBytes"
  shows "column_ready X CompNone (column_builder k cells)"
proof -
  let ?b = "column_builder k cells"
  have b: "builder_ok ?b" "b_kind ?b = k" "b_rows ?b = length cells" "k = KindBytes \<longrightarrow> b_bytes ?b = map cell_text_bytes cells"
    using fold_append_cells [OF builder_ok_new [OF k], of cells] assms(1)
    by (simp_all add: column_fits_def column_builder_def new_builder_def)
  have "dict_bytes_ok (map cell_text_bytes cells)"
    using assms(1) table_size_le [of "map cell_text_bytes cells"]
    by (auto simp: column_fits_def dict_bytes_ok_def list_all_iff value_ok_def limit_defs comp_def)
  then have "values_ok ?b" using assms(1) b by (auto simp: values_ok_def column_fits_def)
  moreover have "length (encode_raw (b_bytes ?b)) \<le> 2 ^ 30" if "k = KindBytes"
    using encode_raw_le [of "map cell_text_bytes cells"] assms(1) b(4) that by (simp add: column_fits_def comp_def)
  ultimately show ?thesis using column_ready_none [OF b(1)] b(2) by simp
qed

definition table_fits :: "column_def list \<Rightarrow> cell list list \<Rightarrow> bool" where
  "table_fits cols table \<longleftrightarrow>
     list_all (\<lambda>j. column_fits (type_kind (col_Type (cols ! j))) (map (\<lambda>row. row ! j) table)) [0..<length cols]"

lemma uncompressed_storable: "table_fits cols table \<Longrightarrow> table_storable X CompNone cols table"
  using column_fits_ready [OF _ type_kind_cases] by (simp add: table_fits_def table_storable_def list_all_iff)

end
