(* ===== verification/Samples.thy ===== *)
theory Samples
  imports WriterRuns
begin

text \<open>
  A small file written by the writer, evaluated: one string column, a record, a checkpoint,
  another record. The witnesses of the properties of files and queries apply them to it.
\<close>

definition sample_env :: "u32 list wenv" where
  "sample_env = \<lparr>we_X = identity_externals, we_S = \<lparr>sz_bits = (\<lambda>n. 64), sz_k = (\<lambda>b n. 7)\<rparr>, we_R = list_roaring,
     we_sink = (\<lambda>out p. (length p, False)), we_now = 0, we_zstd = (\<lambda>l. True)\<rparr>"

definition sample_std :: stdlib where
  "sample_std = \<lparr>parse_time = (\<lambda>l s. None), format_time = (\<lambda>v. ''t''), parse_addr = (\<lambda>s. None), addr_text = (\<lambda>b. ''a'')\<rparr>"

definition sample_engine :: "u32 list engine" where
  "sample_engine = \<lparr>en_X = identity_externals, en_R = list_roaring, en_std = sample_std\<rparr>"

definition sample_table :: schema where
  "sample_table = \<lparr>sch_ID = 1, sch_Name = [116], sch_Version = 1, sch_Columns =
     [\<lparr>col_Name = [109], col_Type = TypeString, col_Indexed = False, col_Nullable = True\<rparr>]\<rparr>"

definition sample_options :: writer_options where
  "sample_options = \<lparr>wo_Compression = CompNone, wo_ZstdLevel = 3, wo_SegmentRows = 100,
     wo_SourceType = [], wo_BuildInverted = False, wo_WriterID = replicate 16 0\<rparr>"

definition sample_ops :: "writer_op list" where
  "sample_ops = [OpAppend [bytes_val [97]], OpCheckpoint, OpAppend [bytes_val [98]]]"

lemma sample_env_ok: "env_ok sample_env sample_engine"
  by (simp add: env_ok_def reliable_def sizing_ok_def sample_env_def sample_engine_def list_roaring_ok)

lemma sample_reliable: "reliable sample_env"
  using sample_env_ok by (simp add: env_ok_def)

lemma sample_clamp [simp]: "clamp_options sample_options = sample_options"
  by (simp add: clamp_options_def sample_options_def limit_defs Let_def)

abbreviation sample_column :: "byte \<Rightarrow> builder" where
  "sample_column x \<equiv> append_bytes [x] (new_builder KindBytes)"

lemma sample_stats: "builder_stats (sample_column x) = Inr \<lparr>cs_Rows = 1, cs_NonNull = 1, cs_HasNulls = False,
    cs_MinInt = 0, cs_MaxInt = 0, cs_MinBytes = [x], cs_MaxBytes = [x]\<rparr>"
  by (simp add: builder_stats_def stats_row_def has_nulls_def builder_present_def append_bytes_def new_builder_def
      note_value_def Let_def)

lemma sample_semantic_enc: "encode_semantic (sample_column x) = Inr (Raw, [1, x])"
  by (simp add: encode_semantic_def append_bytes_def new_builder_def encode_bytes_auto_def select_bytes_def
        analyze_bytes_def bytes_step_def dictProbeLimit_def encode_raw_def put_value_def put_uvarint_small)

lemma sample_chunk:
  "\<exists>chunk st. builder_encode identity_externals (Some CompNone) (sample_column x) = Inr (chunk, st) \<and> chunk \<noteq> [] \<and> length chunk \<le> 100"
  by (simp add: builder_encode_def sample_stats sample_semantic_enc entropy_stage_def encode_chunk_bytes_def Let_def
      has_nulls_def put_uvarint_small) (simp add: append_bytes_def new_builder_def put_uvarint_small)

lemma sample_ready: "column_ready identity_externals CompNone (sample_column x)"
  by (simp add: column_ready_def sample_semantic_enc entropy_stage_def within_limits_def inverts_def)
     (simp add: values_ok_def append_bytes_def new_builder_def dict_bytes_ok_def value_ok_def limit_defs
       dict_collect_def table_size_def)

lemma sample_segments:
  "segments_of 100 (sch_Columns sample_table) sample_ops = [[[BytesCell [97]]], [[BytesCell [98]]]]"
  by (simp add: segments_of_def sample_ops_def sample_table_def record_cells_def value_cell_def bytes_val_def
      type_kind_def Let_def)

lemma sample_storable:
  "list_all (table_storable identity_externals CompNone (sch_Columns sample_table))
     (segments_of 100 (sch_Columns sample_table) sample_ops)"
  using sample_ready [of 97] sample_ready [of 98]
  by (simp add: sample_segments table_storable_def) (simp add: sample_table_def column_builder_def type_kind_def)

text \<open>The sizes of what the writer appends.\<close>

definition small_segment :: "segment_dir \<Rightarrow> bool" where
  "small_segment seg \<longleftrightarrow> segment_ok sample_table seg \<and> length (segment_bytes sample_table seg) \<le> 500"

lemma sample_flush:
  assumes "w_schema w = sample_table" and "w_codec w = CompNone" and "w_tsCol w = None"
    and "w_builders w = [sample_column x]"
  shows "\<exists>p seg n. flush_segment sample_env w = (Inr (), (grow p w)\<lparr>w_totalRows := n,
       w_segments := w_segments w @ [seg], w_builders := [new_builder KindBytes]\<rparr>) \<and> length p \<le> 100
     \<and> small_segment seg"
proof -
  obtain chunk st where c: "builder_encode identity_externals (Some CompNone) (sample_column x) = Inr (chunk, st)"
    "length chunk \<le> 100" using sample_chunk by blast
  have rows: "b_rows (sample_column x) = 1" by (simp add: append_bytes_def new_builder_def)
  have reset: "builder_reset (sample_column x) = new_builder KindBytes"
    by (simp add: append_bytes_def new_builder_def builder_reset_def)
  have X: "we_X sample_env = identity_externals" by (simp add: sample_env_def)
  have cols: "sch_Columns sample_table = [\<lparr>col_Name = [109], col_Type = TypeString, col_Indexed = False, col_Nullable = True\<rparr>]"
    by (simp add: sample_table_def)
  have col: "\<exists>cd. flush_columns sample_env (sch_Columns sample_table) [sample_column x] w = (Inr [cd], grow chunk w)
      \<and> cd_MinBytes cd = [x] \<and> cd_MaxBytes cd = [x] \<and> cd_NonNull cd = 1 \<and> cd_MinInt cd = 0 \<and> cd_MaxInt cd = 0"
    using assms(2) by (simp add: cols flush_column_def sample_stats X c(1) writer_write_ok [OF sample_reliable] Let_def
        stats_dir_def type_kind_def)
  then obtain cd where cd: "flush_columns sample_env (sch_Columns sample_table) [sample_column x] w = (Inr [cd], grow chunk w)"
      "cd_MinBytes cd = [x]" "cd_MaxBytes cd = [x]" "cd_NonNull cd = 1" "cd_MinInt cd = 0" "cd_MaxInt cd = 0" by blast
  let ?seg = "\<lparr>sd_Offset = w_pos w, sd_Length = w_pos (grow chunk w) - w_pos w, sd_Rows = 1,
                    sd_MinTS = 0, sd_MaxTS = 0, sd_Columns = [cd]\<rparr>"
  have "flush_segment sample_env w = (Inr (), (grow chunk w)\<lparr>w_totalRows := w_totalRows w + 1,
       w_segments := w_segments w @ [?seg], w_builders := [new_builder KindBytes]\<rparr>)"
    using assms cd(1) rows reset by (simp add: flush_segment_def segment_times_def note_times_def Let_def)
  moreover have "small_segment ?seg"
    using cd(2-) by (simp add: small_segment_def segment_ok_def cols column_dir_ok_def type_kind_def limit_defs
        segment_bytes_def append_column_dir_def put_string_def put_uvarint_small)
  ultimately show ?thesis using c(2) by blast
qed

lemma sample_footer_write:
  assumes "w_schema w = sample_table" and "wo_SourceType (w_opts w) = []" and "list_all small_segment (w_segments w)"
    and "length (w_segments w) \<le> 2"
  shows "\<exists>p. write_footer sample_env w = (Inr (), (grow p w)\<lparr>w_dirty := False\<rparr>) \<and> length p \<le> 2000"
    and "length (footer_body (writer_footer w)) \<le> 1500"
proof -
  have ok: "footer_ok (writer_footer w)"
    using assms by (simp add: footer_ok_def writer_footer_def validate_iff names_fit_def list_all_iff small_segment_def
        limit_defs) (simp add: sample_table_def type_valid_def)
  have segs: "length (concat (map (segment_bytes sample_table) ss)) \<le> 500 * length ss" if "list_all small_segment ss" for ss
    using that by (induction ss) (auto simp: small_segment_def)
  have d: "length (append_descriptor sample_table) \<le> 100"
    by (simp add: append_descriptor_def append_column_def put_string_def sample_table_def put_uvarint_small)
  have "unat (of_nat (length (w_segments w)) :: u64) = length (w_segments w)"
    using assms(4) by (intro unat_of_nat_u64) simp
  then have n: "(of_nat (length (w_segments w)) :: u64) < 0x80" using assms(4) by (simp add: word_less_nat_alt)
  show b: "length (footer_body (writer_footer w)) \<le> 1500"
    using assms(1,2,4) d segs [OF assms(3)] n
    by (simp add: footer_body_def writer_footer_def put_string_def put_uvarint_small)
  show "\<exists>p. write_footer sample_env w = (Inr (), (grow p w)\<lparr>w_dirty := False\<rparr>) \<and> length p \<le> 2000"
  proof (intro exI conjI)
    let ?body = "footer_body (writer_footer w)"
    let ?p = "?body @ le32 (of_nat (length ?body)) @ le32 (crc32c ?body) @ Magic"
    show "write_footer sample_env w = (Inr (), (grow ?p w)\<lparr>w_dirty := False\<rparr>)"
      by (simp add: write_footer_def append_footer_eq [OF ok] writer_write_ok [OF sample_reliable])
    show "length ?p \<le> 2000" using b by simp
  qed
qed

text \<open>The run.\<close>

lemma sample_append:
  assumes "w_schema w = sample_table" and "w_opts w = sample_options" and "\<not> w_closed w"
    and "w_builders w = [new_builder KindBytes]"
  shows "append_record V [bytes_val [x]] w = (Inr (), w\<lparr>w_builders := [sample_column x], w_dirty := True\<rparr>)"
proof -
  have "append_value \<lparr>col_Name = [109], col_Type = TypeString, col_Indexed = False, col_Nullable = True\<rparr>
      (bytes_val [x]) (new_builder KindBytes) = sample_column x"
    by (simp add: append_value_def bytes_val_def type_kind_def)
  moreover have "b_rows (sample_column x) = 1" by (simp add: append_bytes_def new_builder_def)
  ultimately show ?thesis
    using assms by (simp add: append_record_def sample_table_def sample_options_def Let_def)
qed

definition sample_writer :: "writer \<Rightarrow> nat \<Rightarrow> nat \<Rightarrow> bool" where
  "sample_writer w n k \<longleftrightarrow> w_schema w = sample_table \<and> w_opts w = sample_options \<and> w_codec w = CompNone
     \<and> w_tsCol w = None \<and> \<not> w_closed w \<and> w_builders w = [new_builder KindBytes]
     \<and> length (w_out w) \<le> n \<and> list_all small_segment (w_segments w) \<and> length (w_segments w) = k"

lemma sample_append_flush:
  assumes "sample_writer w n k"
  shows "\<exists>w1 w2. append_record sample_env [bytes_val [x]] w = (Inr (), w1) \<and> \<not> w_closed w1 \<and> w_dirty w1
    \<and> flush_segment sample_env w1 = (Inr (), w2) \<and> sample_writer w2 (n + 100) (k + 1)"
proof -
  let ?w1 = "w\<lparr>w_builders := [sample_column x], w_dirty := True\<rparr>"
  have "append_record sample_env [bytes_val [x]] w = (Inr (), ?w1)"
    using assms by (intro sample_append) (simp_all add: sample_writer_def)
  moreover obtain p seg m where p: "flush_segment sample_env ?w1 = (Inr (), (grow p ?w1)\<lparr>w_totalRows := m,
       w_segments := w_segments ?w1 @ [seg], w_builders := [new_builder KindBytes]\<rparr>)" "length p \<le> 100" "small_segment seg"
    using sample_flush [of ?w1 x] assms by (auto simp: sample_writer_def)
  moreover have "sample_writer ((grow p ?w1)\<lparr>w_totalRows := m, w_segments := w_segments ?w1 @ [seg],
      w_builders := [new_builder KindBytes]\<rparr>) (n + 100) (k + 1)"
    using assms p(2,3) by (simp add: sample_writer_def)
  ultimately show ?thesis using assms by (simp add: sample_writer_def)
qed

lemma sample_new: "\<exists>w. new_writer sample_env (Some sample_table) (Some sample_options) = Inr w \<and> sample_writer w 36 0"
proof -
  have v: "validate sample_table = Inr ()" by (simp add: validate_iff) (simp add: sample_table_def type_valid_def)
  have c: "writer_codec sample_env sample_options = Inr CompNone"
    by (simp add: writer_codec_def sample_options_def get_codec_def)
  let ?hdr = "\<lparr>h_Version = CurrentFormat, h_Flags = 0, h_Created = we_now sample_env, h_WriterID = replicate 16 0\<rparr>"
  have len: "length (append_header [] ?hdr) = 36" by (simp add: append_header_eq header_body_def)
  have o: "wo_WriterID sample_options = replicate 16 0" by (simp add: sample_options_def)
  show ?thesis
    using len o by (simp add: new_writer_def v c Let_def writer_write_ok [OF sample_reliable] sample_writer_def)
      (simp add: sample_table_def type_kind_def)
qed

lemma sample_run: "\<exists>w. write_file sample_env sample_table sample_options sample_ops = Inr w \<and> readable w"
proof -
  obtain w0 where w0: "new_writer sample_env (Some sample_table) (Some sample_options) = Inr w0" "sample_writer w0 36 0"
    using sample_new by blast
  obtain w1 w2 where w1: "append_record sample_env [bytes_val [97]] w0 = (Inr (), w1)" "\<not> w_closed w1" "w_dirty w1"
    "flush_segment sample_env w1 = (Inr (), w2)" "sample_writer w2 136 1"
    using sample_append_flush [OF w0(2), of 97] by auto
  obtain p where p: "write_footer sample_env w2 = (Inr (), (grow p w2)\<lparr>w_dirty := False\<rparr>)" "length p \<le> 2000"
    using sample_footer_write(1) [of w2] w1(5) by (auto simp: sample_writer_def sample_options_def)
  let ?w3 = "(grow p w2)\<lparr>w_dirty := False\<rparr>"
  have w3: "sample_writer ?w3 2136 1" using w1(5) p(2) by (simp add: sample_writer_def)
  obtain w4 w5 where w4: "append_record sample_env [bytes_val [98]] ?w3 = (Inr (), w4)" "\<not> w_closed w4"
    "flush_segment sample_env w4 = (Inr (), w5)" "sample_writer w5 2236 2"
    using sample_append_flush [OF w3, of 98] by (auto simp: numeral_2_eq_2)
  obtain q where q: "write_footer sample_env w5 = (Inr (), (grow q w5)\<lparr>w_dirty := False\<rparr>)" "length q \<le> 2000"
    and body: "length (footer_body (writer_footer w5)) \<le> 1500"
    using sample_footer_write [of w5] w4(4) by (auto simp: sample_writer_def sample_options_def)
  let ?w = "(grow q w5)\<lparr>w_dirty := False, w_closed := True\<rparr>"
  have "write_file sample_env sample_table sample_options sample_ops = Inr ?w"
    using w0(1) w1(1-4) p(1) w4(1-3) q(1) by (simp add: write_file_def sample_ops_def checkpoint_def close_def)
  moreover have "validate sample_table = Inr ()" by (simp add: validate_iff) (simp add: sample_table_def type_valid_def)
  moreover have "names_fit sample_table" by (simp add: names_fit_def sample_table_def)
  moreover have "writer_footer ?w = writer_footer w5" by (simp add: writer_footer_def)
  ultimately show ?thesis
    using w4(4) q(2) body
    by (simp add: readable_def sample_writer_def limit_defs) (simp add: sample_options_def)
qed

text \<open>The file as the checkpoint leaves it.\<close>

lemma sample_checkpointed:
  "\<exists>w. write_until sample_env sample_table sample_options [OpAppend [bytes_val [97]], OpCheckpoint] = Inr w \<and> readable w \<and> length (w_out w) \<le> 3000"
proof -
  obtain w0 where w0: "new_writer sample_env (Some sample_table) (Some sample_options) = Inr w0" "sample_writer w0 36 0"
    using sample_new by blast
  obtain w1 w2 where w1: "append_record sample_env [bytes_val [97]] w0 = (Inr (), w1)" "\<not> w_closed w1" "w_dirty w1"
    "flush_segment sample_env w1 = (Inr (), w2)" "sample_writer w2 136 1"
    using sample_append_flush [OF w0(2), of 97] by auto
  obtain p where p: "write_footer sample_env w2 = (Inr (), (grow p w2)\<lparr>w_dirty := False\<rparr>)" "length p \<le> 2000"
    and body: "length (footer_body (writer_footer w2)) \<le> 1500"
    using sample_footer_write [of w2] w1(5) by (auto simp: sample_writer_def sample_options_def)
  let ?w = "(grow p w2)\<lparr>w_dirty := False\<rparr>"
  have run: "write_until sample_env sample_table sample_options [OpAppend [bytes_val [97]], OpCheckpoint] = Inr ?w"
    using w0(1) w1(1-4) p(1) by (simp add: write_until_def checkpoint_def)
  moreover have "readable ?w"
  proof -
    have "validate sample_table = Inr ()" by (simp add: validate_iff) (simp add: sample_table_def type_valid_def)
    moreover have "names_fit sample_table" by (simp add: names_fit_def sample_table_def)
    moreover have "writer_footer ?w = writer_footer w2" by (simp add: writer_footer_def)
    ultimately show ?thesis
      using w1(5) p(2) body by (simp add: readable_def sample_writer_def limit_defs) (simp add: sample_options_def)
  qed
  ultimately show ?thesis using w1(5) p(2) by (intro exI [of _ ?w]) (simp add: sample_writer_def)
qed

text \<open>The file, read back.\<close>

lemma sample_premises:
  "validate sample_table = Inr ()" "writer_codec sample_env (clamp_options sample_options) = Inr CompNone"
  "length (wo_WriterID sample_options) = 16" "list_all (op_arity (length (sch_Columns sample_table))) sample_ops"
  "length (rows_of (sch_Columns sample_table) sample_ops) < 2 ^ 64"
  "wo_SegmentRows sample_options = 100" "we_X sample_env = identity_externals"
proof -
  show "validate sample_table = Inr ()" by (simp add: validate_iff) (simp add: sample_table_def type_valid_def)
  show "writer_codec sample_env (clamp_options sample_options) = Inr CompNone"
    by (simp add: writer_codec_def get_codec_def) (simp add: sample_options_def get_codec_def)
qed (simp_all add: sample_options_def sample_ops_def sample_table_def sample_env_def)

lemma sample_reader:
  "\<exists>w r. write_file sample_env sample_table sample_options sample_ops = Inr w \<and> new_reader (w_out w) = Inr r
     \<and> reader_schema r = sample_table \<and> file_holds sample_engine r [[[BytesCell [97]]], [[BytesCell [98]]]]"
  using write_file_ok [OF sample_env_ok sample_premises(1-4)] sample_storable sample_premises(5-) sample_run
  by (auto simp: sample_segments)

end
