(* ===== verification/Ingest.thy ===== *)
theory Ingest
  imports AdapterFacts Samples
begin

text \<open>
  The ingestion pipeline of \<open>internal/ingest/ingest.go\<close>: lines are decoded by an adapter and
  appended to a writer, with checkpoints, until the input ends or the context is done, and
  the file is always finished. What the loop learns from its surroundings before and after
  each line, whether the context is done and whether a checkpoint is due, comes with the
  line as an event. The reference is the sequence of writer operations the events call for.
\<close>

section \<open>The pipeline\<close>

datatype ctx_error = Canceled | DeadlineExceeded

datatype run_error = CtxErr ctx_error | WriterErr fault | ScanErr | UnknownSource

record ingest_stats =
  is_Lines :: nat
  is_Records :: nat
  is_Skipped :: nat

record ingest_options =
  io_Source :: string
  io_Compression :: comp_id
  io_ZstdLevel :: int
  io_SegmentRows :: int
  io_BuildInverted :: bool
  io_Checkpoint :: int

record line_event =
  le_Done :: "ctx_error option"
  le_Line :: string
  le_Due :: bool

definition ingest_writer_options :: "ingest_options \<Rightarrow> writer_options" where
  "ingest_writer_options opts =
     (let o1 = default_writer_options\<lparr>wo_Compression := io_Compression opts\<rparr>;
          o2 = (if 0 < io_ZstdLevel opts then o1\<lparr>wo_ZstdLevel := io_ZstdLevel opts\<rparr> else o1);
          o3 = (if 0 < io_SegmentRows opts then o2\<lparr>wo_SegmentRows := io_SegmentRows opts\<rparr> else o2)
      in o3\<lparr>wo_BuildInverted := io_BuildInverted opts, wo_SourceType := to_bytes (io_Source opts)\<rparr>)"

text \<open>The loop over the lines; \<open>scanErr\<close> is whether \<open>sc.Err()\<close> is an error after the last.\<close>

fun ingest_loop :: "'bm wenv \<Rightarrow> (string \<Rightarrow> row_record option) \<Rightarrow> int \<Rightarrow> bool \<Rightarrow> line_event list
    \<Rightarrow> ingest_stats \<Rightarrow> writer \<Rightarrow> ingest_stats \<times> run_error option \<times> writer" where
  "ingest_loop V decode every scanErr [] st w = (st, (if scanErr then Some ScanErr else None), w)"
| "ingest_loop V decode every scanErr (e # es) st w =
     (case le_Done e of
        Some err \<Rightarrow> (st, Some (CtxErr err), w)
      | None \<Rightarrow>
          let st1 = st\<lparr>is_Lines := is_Lines st + 1\<rparr> in
          (case decode (le_Line e) of
             None \<Rightarrow> ingest_loop V decode every scanErr es (st1\<lparr>is_Skipped := is_Skipped st1 + 1\<rparr>) w
           | Some rec \<Rightarrow>
               (case append_record V rec w of
                  (Inl f, w1) \<Rightarrow> (st1, Some (WriterErr f), w1)
                | (Inr _, w1) \<Rightarrow>
                    let st2 = st1\<lparr>is_Records := is_Records st1 + 1\<rparr> in
                    if 0 < every \<and> le_Due e then
                      (case checkpoint V w1 of
                         (Inl f, w2) \<Rightarrow> (st2, Some (WriterErr f), w2)
                       | (Inr _, w2) \<Rightarrow> ingest_loop V decode every scanErr es st2 w2)
                    else ingest_loop V decode every scanErr es st2 w1)))"

definition new_stats :: ingest_stats where
  "new_stats = \<lparr>is_Lines = 0, is_Records = 0, is_Skipped = 0\<rparr>"

definition ingest_run :: "'bm wenv \<Rightarrow> 'f source_env \<Rightarrow> ingest_options \<Rightarrow> bool \<Rightarrow> line_event list
    \<Rightarrow> ingest_stats \<times> run_error option \<times> writer option" where
  "ingest_run V S opts scanErr events =
     (case get_adapter (io_Source opts) of
        None \<Rightarrow> (new_stats, Some UnknownSource, None)
      | Some ad \<Rightarrow>
          (case new_writer V (Some (ad_Schema ad)) (Some (ingest_writer_options opts)) of
             Inl f \<Rightarrow> (new_stats, Some (WriterErr f), None)
           | Inr w \<Rightarrow>
               (case ingest_loop V (ad_Decode ad S) (io_Checkpoint opts) scanErr events new_stats w of
                  (st, runErr, w1) \<Rightarrow>
                    (case close V w1 of
                       (closeErr, w2) \<Rightarrow>
                         (st, (if runErr \<noteq> None \<and> runErr \<noteq> Some (CtxErr Canceled) then runErr
                               else case closeErr of Inl f \<Rightarrow> Some (WriterErr f) | Inr _ \<Rightarrow> None), Some w2)))))"

section \<open>The operations the events call for\<close>

definition event_ops :: "(string \<Rightarrow> row_record option) \<Rightarrow> int \<Rightarrow> line_event \<Rightarrow> writer_op list" where
  "event_ops decode every e =
     (case decode (le_Line e) of None \<Rightarrow> []
      | Some rec \<Rightarrow> OpAppend rec # (if 0 < every \<and> le_Due e then [OpCheckpoint] else []))"

text \<open>The lines read: those before the context is done.\<close>

definition lines_read :: "line_event list \<Rightarrow> line_event list" where
  "lines_read events = takeWhile (\<lambda>e. le_Done e = None) events"

definition ingest_ops :: "(string \<Rightarrow> row_record option) \<Rightarrow> int \<Rightarrow> line_event list \<Rightarrow> writer_op list" where
  "ingest_ops decode every events = concat (map (event_ops decode every) (lines_read events))"

text \<open>What ends the loop when no operation fails.\<close>

definition final_error :: "bool \<Rightarrow> line_event list \<Rightarrow> run_error option" where
  "final_error scanErr events =
     (case dropWhile (\<lambda>e. le_Done e = None) events of
        [] \<Rightarrow> if scanErr then Some ScanErr else None
      | e # _ \<Rightarrow> map_option CtxErr (le_Done e))"

definition decoded :: "(string \<Rightarrow> row_record option) \<Rightarrow> line_event list \<Rightarrow> row_record list" where
  "decoded decode events = List.map_filter (\<lambda>e. decode (le_Line e)) (lines_read events)"

text \<open>When the operations succeed, the loop is their run.\<close>

lemma ingest_loop_runs:
  assumes "run_ops V (ingest_ops decode every events) w = (Inr (), w')"
  shows "\<exists>st'. ingest_loop V decode every scanErr events st w = (st', final_error scanErr events, w')
    \<and> is_Lines st' = is_Lines st + length (lines_read events)
    \<and> is_Records st' = is_Records st + length (decoded decode events)
    \<and> is_Records st' + is_Skipped st' = is_Records st + is_Skipped st + length (lines_read events)"
  using assms
proof (induction events arbitrary: w st)
  case Nil
  then show ?case by (simp add: ingest_ops_def lines_read_def decoded_def final_error_def map_filter_simps)
next
  case (Cons e es)
  show ?case
  proof (cases "le_Done e")
    case (Some x)
    then show ?thesis
      using Cons.prems by (simp add: ingest_ops_def lines_read_def decoded_def final_error_def map_filter_simps)
  next
    case None
    let ?st1 = "st\<lparr>is_Lines := is_Lines st + 1\<rparr>"
    have ops: "ingest_ops decode every (e # es) = event_ops decode every e @ ingest_ops decode every es"
      and read: "lines_read (e # es) = e # lines_read es"
      and final: "final_error scanErr (e # es) = final_error scanErr es"
      and dec: "decoded decode (e # es) = (case decode (le_Line e) of None \<Rightarrow> [] | Some r \<Rightarrow> [r]) @ decoded decode es"
      using None by (simp_all add: ingest_ops_def lines_read_def final_error_def decoded_def map_filter_simps split: option.split)
    show ?thesis
    proof (cases "decode (le_Line e)")
      case skip: None
      have "run_ops V (ingest_ops decode every es) w = (Inr (), w')"
        using Cons.prems ops skip by (simp add: event_ops_def)
      from Cons.IH [OF this, of "?st1\<lparr>is_Skipped := is_Skipped ?st1 + 1\<rparr>"] show ?thesis
        using None skip by (auto simp: read final dec Let_def)
    next
      case (Some rec)
      let ?st2 = "?st1\<lparr>is_Records := is_Records ?st1 + 1\<rparr>"
      have step: "\<exists>w1. append_record V rec w = (Inr (), w1) \<and>
          (if 0 < every \<and> le_Due e
           then \<exists>w2. checkpoint V w1 = (Inr (), w2) \<and> run_ops V (ingest_ops decode every es) w2 = (Inr (), w')
           else run_ops V (ingest_ops decode every es) w1 = (Inr (), w'))"
        using Cons.prems ops Some
        by (auto simp: event_ops_def bindW_def run_ops_append split: prod.splits sum.splits if_splits)
      then obtain w1 where w1: "append_record V rec w = (Inr (), w1)" by blast
      show ?thesis
      proof (cases "0 < every \<and> le_Due e")
        case True
        then obtain w2 where w2: "checkpoint V w1 = (Inr (), w2)" "run_ops V (ingest_ops decode every es) w2 = (Inr (), w')"
          using step w1 by auto
        from Cons.IH [OF w2(2), of ?st2] show ?thesis
          using None Some w1 w2(1) True by (auto simp: read final dec Let_def)
      next
        case False
        then have "run_ops V (ingest_ops decode every es) w1 = (Inr (), w')" using step w1 by auto
        from Cons.IH [OF this, of ?st2] show ?thesis
          using None Some w1 False by (auto simp: read final dec Let_def)
      qed
    qed
  qed
qed

section \<open>Files made by the pipeline\<close>

lemma adapter_facts:
  assumes "get_adapter name = Some ad"
  shows "validate (ad_Schema ad) = Inr ()"
    and "ad_Decode ad S line = Some rec \<Longrightarrow> length rec = length (sch_Columns (ad_Schema ad))"
proof -
  have ad: "validate (ad_Schema ad) = Inr () \<and> record_outcome (sch_Columns (ad_Schema ad)) (ad_Decode ad S line)" for S line
    using assms
    by (auto simp: get_adapter_cases adapter_defs schemas_valid decodes_fit web_decode_fits split: if_splits)
  then show "validate (ad_Schema ad) = Inr ()" by blast
  show "length rec = length (sch_Columns (ad_Schema ad))" if "ad_Decode ad S line = Some rec"
    using ad [of S line] that by (auto simp: record_outcome_def dest: list_all2_lengthD)
qed

lemma ingest_ops_arity:
  assumes "\<And>line rec. decode line = Some rec \<Longrightarrow> length rec = k"
  shows "list_all (op_arity k) (ingest_ops decode every events)"
  using assms by (auto simp: ingest_ops_def event_ops_def list_all_iff split: option.splits)

lemma rows_of_append [simp]: "rows_of cols (xs @ ys) = rows_of cols xs @ rows_of cols ys"
  by (induction cols xs rule: rows_of.induct) simp_all

lemma rows_of_ingest: "rows_of cols (ingest_ops decode every events) = map (record_cells cols) (decoded decode events)"
proof -
  have "rows_of cols (concat (map (event_ops decode every) es))
      = map (record_cells cols) (List.map_filter (\<lambda>e. decode (le_Line e)) es)" for es
    by (induction es) (simp_all add: map_filter_simps event_ops_def split: option.split)
  then show ?thesis by (simp add: ingest_ops_def decoded_def)
qed

lemma ingest_options_id: "wo_WriterID (ingest_writer_options opts) = replicate 16 0"
  by (simp add: ingest_writer_options_def default_writer_options_def Let_def)

section \<open>Two sample runs\<close>

text \<open>
  A run that skips two lines and is then cancelled, and one that decodes a line of an
  access log.
\<close>

definition sample_source :: "nat source_env" where
  "sample_source = \<lparr>se_std = sample_std\<lparr>parse_time := (\<lambda>l s. Some 5)\<rparr>, se_json = (\<lambda>s. None), se_fmt = (\<lambda>n. ''0''),
     se_neg = (\<lambda>n. False), se_u64 = of_nat, se_i64 = of_nat, se_parse_float = (\<lambda>s. None)\<rparr>"

definition sample_ingest :: ingest_options where
  "sample_ingest = \<lparr>io_Source = ''web-access'', io_Compression = CompNone, io_ZstdLevel = 0, io_SegmentRows = 0,
     io_BuildInverted = False, io_Checkpoint = 0\<rparr>"

definition sample_line :: "string \<Rightarrow> line_event" where
  "sample_line s = \<lparr>le_Done = None, le_Line = s, le_Due = False\<rparr>"

definition web_line :: string where
  "web_line = ''h - - [t] '' @ [CHR 0x22] @ ''GET /'' @ [CHR 0x22] @ '' 200 7''"

definition skipped_events :: "line_event list" where
  "skipped_events = [sample_line '' '', sample_line ''# c'', \<lparr>le_Done = Some Canceled, le_Line = [], le_Due = False\<rparr>]"

lemma sample_web: "get_adapter (io_Source sample_ingest) = Some web_access"
  by (simp add: sample_ingest_def get_adapter_cases)

lemma sample_tokens: "split_clf web_line = [''h'', ''-'', ''-'', ''t'', ''GET /'', ''200'', ''7'']"
  by (simp add: web_line_def split_clf.simps span_end_def)

lemma sample_parse: "parse_uint ''200'' = Some 200" "parse_uint ''7'' = Some 7"
  by (simp_all add: parse_uint_def digits_value_def is_digit_def)

lemma sample_trim: "trim_space web_line = web_line"
  by code_simp

lemma sample_decoded:
  "web_access_decode sample_source web_line = Some [int_val 5, null_val, bytes_val [71, 69, 84], bytes_val [47], int_val 200, int_val 7, null_val, null_val]"
  by (simp add: web_access_decode_def sample_trim sample_tokens Let_def)
   (simp add: sample_parse web_line_def sample_source_def sample_std_def normalize_ip_def request_parts_def to_bytes_def)

lemma sample_descriptor: "length (append_descriptor web_access_schema) \<le> 200"
  by (simp add: append_descriptor_def append_column_def put_string_def web_access_schema_def column_def to_bytes_def put_uvarint_small)

lemma sample_fits: "table_fits (sch_Columns web_access_schema)
    [record_cells (sch_Columns web_access_schema)
      [int_val 5, null_val, bytes_val [71, 69, 84], bytes_val [47], int_val 200, int_val 7, null_val, null_val]]"
  by (simp add: table_fits_def column_fits_def web_access_schema_def record_cells_def value_cell_def column_def
      cell_text_bytes_def int_val_def bytes_val_def null_val_def upt_rec)

lemma sample_ingest_options:
  "clamp_options (ingest_writer_options sample_ingest) = \<lparr>wo_Compression = CompNone, wo_ZstdLevel = 3,
     wo_SegmentRows = 65536, wo_SourceType = to_bytes ''web-access'', wo_BuildInverted = False, wo_WriterID = replicate 16 0\<rparr>"
  by (simp add: clamp_options_def ingest_writer_options_def sample_ingest_def default_writer_options_def Let_def limit_defs)

lemma sample_ingest_codec: "writer_codec sample_env (clamp_options (ingest_writer_options sample_ingest)) = Inr CompNone"
  by (simp add: sample_ingest_options writer_codec_def get_codec_def)

lemma sample_skipped:
  "web_access_decode S '' '' = None" "web_access_decode S ''# c'' = None"
  by (simp_all add: web_access_decode_def Let_def trim_space_def is_space_def)

definition record_events :: "line_event list" where
  "record_events = [sample_line web_line]"

lemma sample_segments_of:
  "segments_of 65536 (sch_Columns web_access_schema) (ingest_ops (web_access_decode sample_source) 0 record_events)
     = [[record_cells (sch_Columns web_access_schema)
      [int_val 5, null_val, bytes_val [71, 69, 84], bytes_val [47], int_val 200, int_val 7, null_val, null_val]]]"
  by (simp add: segments_of_def ingest_ops_def record_events_def lines_read_def sample_line_def event_ops_def sample_decoded
      del: split_clf.simps)

lemma skipped_facts:
  "ingest_ops (web_access_decode S) n skipped_events = []" "length (lines_read skipped_events) = 2"
  "final_error b skipped_events = Some (CtxErr Canceled)" "decoded (web_access_decode S) skipped_events = []"
  by (simp_all add: ingest_ops_def skipped_events_def lines_read_def sample_line_def event_ops_def sample_skipped
     final_error_def decoded_def map_filter_simps)

lemma sample_empty_file:
  assumes "ingest_run sample_env sample_source sample_ingest b events = (st, err, Some w)"
    and "ingest_ops (web_access_decode sample_source) 0 events = []"
  shows "readable w"
proof -
  let ?o = "clamp_options (ingest_writer_options sample_ingest)"
  let ?hdr = "\<lparr>h_Version = CurrentFormat, h_Flags = 0, h_Created = we_now sample_env, h_WriterID = replicate 16 0\<rparr>"
  have len: "length (append_header [] ?hdr) = 36" by (simp add: append_header_eq header_body_def)
  let ?new = "\<lparr>w_out = [], w_schema = web_access_schema, w_opts = ?o, w_codec = CompNone,
     w_builders = map (\<lambda>c. new_builder (type_kind (col_Type c))) (sch_Columns web_access_schema),
     w_tsCol = find_ts_col 0 (sch_Columns web_access_schema), w_pos = 0, w_segments = [], w_totalRows = 0, w_minTS = 0,
     w_maxTS = 0, w_haveTS = False, w_dirty = False, w_closed = False\<rparr>"
  have "wo_WriterID ?o = replicate 16 0" by (simp add: sample_ingest_options)
  then have run: "new_writer sample_env (Some web_access_schema) (Some (ingest_writer_options sample_ingest))
      = Inr (grow (append_header [] ?hdr) ?new)"
    by (simp add: new_writer_def schemas_valid sample_ingest_codec Let_def writer_write_ok [OF sample_reliable]
        del: replicate_0)
  have cols: "sch_Columns web_access_schema \<noteq> []" by (simp add: web_access_schema_def)
  then have "b_rows (hd (w_builders ?new)) = 0" by (cases "sch_Columns web_access_schema") (simp_all add: new_builder_def)
  then obtain w0 where w0: "new_writer sample_env (Some web_access_schema) (Some (ingest_writer_options sample_ingest)) = Inr w0"
    and f: "w_schema w0 = web_access_schema" "w_opts w0 = ?o" "length (w_out w0) = 36" "w_segments w0 = []" "\<not> w_closed w0"
    "b_rows (hd (w_builders w0)) = 0" "w_builders w0 \<noteq> []"
    using run len cols by (simp del: replicate_0)
  obtain st' where loop: "ingest_loop sample_env (web_access_decode sample_source) 0 b events new_stats w0
      = (st', final_error b events, w0)"
    using ingest_loop_runs [of sample_env "web_access_decode sample_source" 0 events w0 w0 b new_stats] assms(2) by auto
  have body: "length (footer_body (writer_footer w0)) \<le> 400"
    using f(1,2,4) sample_descriptor
    by (simp add: footer_body_def writer_footer_def put_string_def put_uvarint_small sample_ingest_options to_bytes_def)
  have ok: "footer_ok (writer_footer w0)"
    using f(1,2,4) by (simp add: footer_ok_def writer_footer_def schemas_valid sample_ingest_options to_bytes_def limit_defs)
  let ?body = "footer_body (writer_footer w0)"
  let ?p = "?body @ le32 (of_nat (length ?body)) @ le32 (crc32c ?body) @ Magic"
  have "write_footer sample_env w0 = (Inr (), (grow ?p w0)\<lparr>w_dirty := False\<rparr>)"
    by (simp add: write_footer_def append_footer_eq [OF ok] writer_write_ok [OF sample_reliable])
  moreover have "flush_segment sample_env w0 = (Inr (), w0)"
    using f(6,7) by (simp add: flush_segment_def hd_conv_nth)
  ultimately have "w = (grow ?p w0)\<lparr>w_dirty := False, w_closed := True\<rparr>"
    using assms(1) w0 loop f(5) by (simp add: ingest_run_def sample_web web_access_def close_def) (simp add: sample_ingest_def)
  then show ?thesis
    using f body by (simp add: readable_def schemas_valid sample_ingest_options to_bytes_def writer_footer_def limit_defs)
qed

section \<open>The pipeline refines the reference\<close>

lemma ingest_run_file:
  fixes S :: "'f source_env"
  assumes "env_ok V E" and "get_adapter (io_Source opts) = Some ad"
    and "writer_codec V (clamp_options (ingest_writer_options opts)) = Inr cid"
    and "list_all (table_storable (we_X V) cid (sch_Columns (ad_Schema ad)))
        (segments_of (wo_SegmentRows (clamp_options (ingest_writer_options opts))) (sch_Columns (ad_Schema ad))
          (ingest_ops (ad_Decode ad S) (io_Checkpoint opts) events))"
  shows "\<exists>st w. ingest_run V S opts scanErr events
       = (st, (if final_error scanErr events = Some (CtxErr Canceled) then None else final_error scanErr events), Some w)
    \<and> is_Lines st = length (lines_read events) \<and> is_Records st = length (decoded (ad_Decode ad S) events)
    \<and> is_Records st + is_Skipped st = is_Lines st
    \<and> (readable w \<and> is_Records st < 2 ^ 64 \<longrightarrow>
        (\<exists>rd tables. new_reader (w_out w) = Inr rd \<and> reader_schema rd = ad_Schema ad \<and> file_holds E rd tables
          \<and> concat tables = map (record_cells (sch_Columns (ad_Schema ad))) (decoded (ad_Decode ad S) events)))"
proof -
  let ?cols = "sch_Columns (ad_Schema ad)" and ?wo = "ingest_writer_options opts"
  let ?ops = "ingest_ops (ad_Decode ad S) (io_Checkpoint opts) events"
  let ?tables = "segments_of (wo_SegmentRows (clamp_options ?wo)) ?cols ?ops"
  have valid: "validate (ad_Schema ad) = Inr ()" by (rule adapter_facts(1) [OF assms(2)])
  have arity: "list_all (op_arity (length ?cols)) ?ops"
    by (rule ingest_ops_arity) (rule adapter_facts(2) [OF assms(2)])
  have wid: "length (wo_WriterID ?wo) = 16" by (simp add: ingest_options_id)
  obtain w where w: "write_file V (ad_Schema ad) ?wo ?ops = Inr w"
    "readable w \<and> length (rows_of ?cols ?ops) < 2 ^ 64 \<longrightarrow>
       (\<exists>rd. new_reader (w_out w) = Inr rd \<and> reader_schema rd = ad_Schema ad \<and> file_holds E rd ?tables)"
    using write_file_ok [OF assms(1) valid assms(3) wid arity assms(4)] by blast
  obtain w0 w1 where p: "new_writer V (Some (ad_Schema ad)) (Some ?wo) = Inr w0" "run_ops V ?ops w0 = (Inr (), w1)"
    "close V w1 = (Inr (), w)" using write_file_parts [OF w(1)] .
  obtain st where st: "ingest_loop V (ad_Decode ad S) (io_Checkpoint opts) scanErr events new_stats w0
      = (st, final_error scanErr events, w1)" "is_Lines st = length (lines_read events)"
    "is_Records st = length (decoded (ad_Decode ad S) events)"
    "is_Records st + is_Skipped st = length (lines_read events)"
    using ingest_loop_runs [OF p(2), of scanErr new_stats] by (auto simp: new_stats_def)
  have "ingest_run V S opts scanErr events
       = (st, (if final_error scanErr events = Some (CtxErr Canceled) then None else final_error scanErr events), Some w)"
    using p(1,3) st(1) by (simp add: ingest_run_def assms(2))
  moreover have "concat ?tables = map (record_cells ?cols) (decoded (ad_Decode ad S) events)"
    using segments_of_rows by (simp add: rows_of_ingest)
  ultimately show ?thesis
    using st(2-) w(2) by (auto simp: rows_of_ingest)
qed



end
