(* ===== verification/TopFacts.thy ===== *)
theory TopFacts
  imports QueryFacts
begin

text \<open>
  \<open>top\<close> against the reference semantics: whichever of its two paths a segment takes, the
  histogram of the loop counts the values of the column in the matching rows, and the
  result is their ranking.
\<close>

section \<open>top\<close>

definition hist_ok :: "('k \<times> u64) list \<Rightarrow> 'k list \<Rightarrow> bool" where
  "hist_ok h vals \<longleftrightarrow> distinct (map fst h)
     \<and> (\<forall>v. map_of h v = (if v \<in> set vals then Some (of_nat (count_list vals v)) else None))"

lemma count_list_mset: "count_list xs v = count (mset xs) v"
  by (induction xs) auto

lemma hist_ok_mset:
  assumes "hist_ok h xs" and m: "mset xs = mset ys"
  shows "hist_ok h ys"
proof -
  have "count_list xs v = count_list ys v" for v unfolding count_list_mset m ..
  with mset_eq_setD [OF m] assms(1) show ?thesis unfolding hist_ok_def by simp
qed

lemma hist_ok_Nil: "hist_ok [] []"
  by (simp add: hist_ok_def)

lemma hist_ok_bump:
  assumes "hist_ok h vals" and "0 < n"
  shows "hist_ok (bump v (of_nat n) h) (vals @ replicate n v)"
proof -
  have "count_list (vals @ replicate n v) w = count_list vals w + (if w = v then n else 0)" for w
    by (simp add: count_list_mset)
  moreover have "v \<notin> set vals \<Longrightarrow> count_list vals v = 0" by (simp add: count_list_0_iff)
  ultimately show ?thesis
    using assms by (auto simp: hist_ok_def bump_def distinct_update update_conv')
qed

lemma hist_ok_bump1: "hist_ok h vals \<Longrightarrow> hist_ok (bump v 1 h) (vals @ [v])"
  using hist_ok_bump [of h vals 1 v] by simp

lemma hist_ok_merge:
  assumes "hist_ok h vals" and "\<forall>(v, n) \<in> set new. 0 < unat n"
  shows "hist_ok (merge_hist new h) (vals @ concat (map (\<lambda>(v, n). replicate (unat n) v) new))"
  using assms
proof (induction new arbitrary: h vals)
  case Nil
  then show ?case by (simp add: merge_hist_def)
next
  case (Cons p new)
  obtain v n where p: "p = (v, n)" by (cases p)
  have "hist_ok (bump v (of_nat (unat n)) h) (vals @ replicate (unat n) v)"
    using Cons.prems by (intro hist_ok_bump) (auto simp: p)
  then have "hist_ok (bump v n h) (vals @ replicate (unat n) v)" by simp
  from Cons.IH [OF this] Cons.prems(2) show ?case
    by (simp add: merge_hist_def p)
qed

text \<open>The ranking, as a function of the values.\<close>

definition ranking :: "('v \<Rightarrow> string) \<Rightarrow> int \<Rightarrow> 'v list \<Rightarrow> string list list" where
  "ranking text n vals =
     map (\<lambda>(key, count). [key, show_nat (unat count)])
       (take (nat n) (sort_key (\<lambda>(key, count). (- uint count, key))
          (map (\<lambda>v. (text v, of_nat (count_list vals v) :: u64)) (remdups vals))))"

lemma top_order_eq: "top_order = (\<lambda>(key, count). (- uint count, key))"
  by (rule ext) (simp add: top_order_def split: prod.split)

lemma inj_top_order: "inj top_order"
proof (rule injI)
  fix x y :: "string \<times> u64"
  assume "top_order x = top_order y"
  then have "uint (snd x) = uint (snd y)" "fst x = fst y" by (simp_all add: top_order_def)
  then show "x = y" by (simp add: prod_eq_iff word_uint_eq_iff)
qed

lemma sort_key_mset:
  assumes "mset xs = mset ys"
  shows "sort_key top_order xs = sort_key top_order ys"
proof -
  have "map top_order (sort_key top_order xs) = sort (map top_order xs)" for xs :: "(string \<times> u64) list"
    by (rule properties_for_sort [symmetric]) simp_all
  moreover have "sort (map top_order xs) = sort (map top_order ys)"
    by (rule properties_for_sort) (simp_all add: assms)
  ultimately show ?thesis using inj_top_order by (metis inj_map_eq_map)
qed

lemma hist_ok_set:
  assumes "hist_ok h vals"
  shows "mset h = mset (map (\<lambda>v. (v, of_nat (count_list vals v))) (remdups vals))"
proof -
  have d: "distinct (map fst h)" using assms by (simp add: hist_ok_def)
  then have "distinct h" by (simp add: distinct_map)
  moreover have "distinct (map (\<lambda>v. (v, of_nat (count_list vals v) :: u64)) (remdups vals))"
    by (simp add: distinct_map inj_on_def)
  moreover have "set h = set (map (\<lambda>v. (v, of_nat (count_list vals v))) (remdups vals))"
  proof (intro set_eqI iffI)
    fix p
    assume "p \<in> set h"
    then have "map_of h (fst p) = Some (snd p)" using d by simp
    then show "p \<in> set (map (\<lambda>v. (v, of_nat (count_list vals v))) (remdups vals))"
      using assms by (cases p) (auto simp: hist_ok_def split: if_splits)
  next
    fix p
    assume "p \<in> set (map (\<lambda>v. (v, of_nat (count_list vals v) :: u64)) (remdups vals))"
    then have "map_of h (fst p) = Some (snd p)" using assms by (auto simp: hist_ok_def)
    then show "p \<in> set h" using map_of_SomeD [of h "fst p" "snd p"] by simp
  qed
  ultimately show ?thesis by (rule set_eq_iff_mset_eq_distinct [THEN iffD1])
qed

lemma top_items_ok:
  assumes "hist_ok h vals" and "0 < n"
  shows "top_items n (map (\<lambda>(v, k). (text v, k)) h) = Inr (ranking text n vals)"
proof -
  let ?items = "map (\<lambda>(v, k). (text v, k)) h"
  have "mset ?items = image_mset (\<lambda>(v, k). (text v, k)) (mset h)" by simp
  also have "\<dots> = mset (map (\<lambda>v. (text v, of_nat (count_list vals v))) (remdups vals))"
    by (simp only: hist_ok_set [OF assms(1)] mset_map [symmetric]) (simp add: comp_def)
  finally have s: "sort_key top_order ?items
      = sort_key top_order (map (\<lambda>v. (text v, of_nat (count_list vals v))) (remdups vals))"
    by (rule sort_key_mset)
  have "take (nat (if int (length ?items) < n then int (length ?items) else n)) (sort_key top_order ?items)
      = take (nat n) (sort_key top_order ?items)"
    by (auto simp: not_less)
  then show ?thesis using assms(2) by (auto simp: top_items_def Let_def ranking_def s top_order_eq [symmetric])
qed

text \<open>The present values of a column.\<close>

definition int_of :: "cell \<Rightarrow> u64 option" where
  "int_of c = (case c of IntCell v \<Rightarrow> Some v | _ \<Rightarrow> None)"

definition bytes_of :: "cell \<Rightarrow> bytes option" where
  "bytes_of c = (case c of BytesCell b \<Rightarrow> Some b | _ \<Rightarrow> None)"

definition column_values :: "(cell \<Rightarrow> 'v option) \<Rightarrow> nat \<Rightarrow> cell list list \<Rightarrow> 'v list" where
  "column_values get j rows = List.map_filter (\<lambda>row. get (row ! j)) rows"

lemma column_values_append [simp]: "column_values get j (xs @ ys) = column_values get j xs @ column_values get j ys"
  by (simp add: column_values_def map_filter_def)

lemma column_values_Nil [simp]: "column_values get j [] = []"
  by (simp add: column_values_def map_filter_def)

lemma column_values_single [simp]:
  "column_values get j [row] = (case get (row ! j) of None \<Rightarrow> [] | Some v \<Rightarrow> [v])"
  by (simp add: column_values_def map_filter_def split: option.split)

lemma int_of_simps [simp]: "int_of Null = None" "int_of (IntCell v) = Some v" "int_of (BytesCell b) = None"
  by (simp_all add: int_of_def)

lemma bytes_of_simps [simp]: "bytes_of Null = None" "bytes_of (IntCell v) = None" "bytes_of (BytesCell b) = Some b"
  by (simp_all add: bytes_of_def)

text \<open>What the state of the loop holds of the rows seen.\<close>

definition top_holds :: "kind \<Rightarrow> nat \<Rightarrow> top_state \<Rightarrow> cell list list \<Rightarrow> bool" where
  "top_holds k j s rows \<longleftrightarrow> (if k = KindInt then hist_ok (t_ints s) (column_values int_of j rows)
     else hist_ok (t_bytes s) (column_values bytes_of j rows))"

lemma top_holds_res [simp]: "top_holds k j (s\<lparr>t_res := x\<rparr>) rows = top_holds k j s rows"
  by (simp add: top_holds_def)

lemma top_row_ok:
  assumes "holds_data E r table j d" and "unat n < length table"
    and "type_kind (col_Type cd) = type_kind (col_Type (sch_Columns (reader_schema r) ! j))"
    and "top_holds (type_kind (col_Type cd)) j s rows"
  shows "\<exists>s'. top_row cd d s n = Inr s' \<and> t_res s' = t_res s
     \<and> top_holds (type_kind (col_Type cd)) j s' (rows @ [table ! unat n])"
proof -
  let ?k = "type_kind (col_Type cd)"
  have d: "data_ok d" "d_Kind d = ?k" "data_cells d = map (\<lambda>row. row ! j) table"
    using assms(1,3) by (simp_all add: holds_data_def)
  have n: "unat n < d_Rows d" using d(3) assms(2) by (metis length_data_cells length_map)
  obtain null where null: "is_null d (unat n) = Inr null" using data_ok_is_null [OF d(1) n] by auto
  have cell: "data_cell d (unat n) = table ! unat n ! j"
    using d(3) assms(2) data_cells_nth [OF n] by (metis nth_map)
  show ?thesis
  proof (cases null)
    case True
    then have "table ! unat n ! j = Null"
      using cell data_cell_eq [OF d(1) n] null by (cases "d_Kind d = KindInt") auto
    then show ?thesis
      using n null True assms(4)
      by (simp add: top_row_def Let_def top_holds_def)
  next
    case False
    show ?thesis
    proof (cases "?k = KindInt")
      case True
      then have "table ! unat n ! j = IntCell (d_Ints d ! unat n)" "unat n < length (d_Ints d)"
        using cell data_cell_eq(1) [OF d(1) n] data_ok_vals(1) [OF d(1)] n null False d(2) by auto
      then show ?thesis
        using n null False True assms(4) hist_ok_bump1
        by (simp add: top_row_def Let_def top_holds_def)
    next
      case kind: False
      then have "table ! unat n ! j = BytesCell (d_Bytes d ! unat n)" "unat n < length (d_Bytes d)"
        using cell data_cell_eq(2) [OF d(1) n] data_ok_vals(2) [OF d(1)] n null False d(2) by auto
      then show ?thesis
        using n null False kind assms(4) hist_ok_bump1
        by (simp add: top_row_def Let_def top_holds_def)
    qed
  qed
qed

lemma top_rows_ok:
  assumes "holds_data E r table j d" and "\<forall>n \<in> set ns. unat n < length table"
    and "type_kind (col_Type cd) = type_kind (col_Type (sch_Columns (reader_schema r) ! j))"
    and "top_holds (type_kind (col_Type cd)) j s rows"
  shows "\<exists>s'. foldE (top_row cd d) s ns = Inr s' \<and> t_res s' = t_res s
     \<and> top_holds (type_kind (col_Type cd)) j s' (rows @ map (\<lambda>n. table ! unat n) ns)"
  using assms(2,4)
proof (induction ns arbitrary: s rows)
  case (Cons n ns)
  then obtain s1 where s1: "top_row cd d s n = Inr s1" "t_res s1 = t_res s"
    "top_holds (type_kind (col_Type cd)) j s1 (rows @ [table ! unat n])"
    using top_row_ok [OF assms(1) _ assms(3)] by (metis list.set_intros(1))
  from Cons.IH [OF _ s1(3)] Cons.prems(1) s1 show ?case by auto
qed simp

lemma hist_ok_postings:
  assumes R: "roaring_ok R" and h: "hist_ok h vals" and wf: "postings_wf R m"
    and counts: "\<And>v. card (posting R m v) = count_list new v"
  shows "hist_ok (merge_hist (map (\<lambda>(v, bm). (v, rb_cardinality R bm)) m) h) (vals @ new)"
proof -
  let ?hist = "map (\<lambda>(v, bm). (v, rb_cardinality R bm)) m"
  have pos: "\<forall>(v, n) \<in> set ?hist. 0 < unat n"
    using wf by (auto simp: postings_wf_def rb_cardinality_card [OF R] card_gt_0_iff)
  let ?all = "concat (map (\<lambda>(v, n). replicate (unat n) v) ?hist)"
  have c: "count (mset (concat (map (\<lambda>(v, n). replicate (unat n) v)
      (map (\<lambda>(v, bm). (v, rb_cardinality R bm)) m)))) v = card (posting R m v)"
    if "distinct (map fst m)" for v and m
    using that
  proof (induction m)
    case (Cons p m)
    obtain u bm where p: "p = (u, bm)" by (cases p)
    have "map_of m u = None" using Cons.prems by (simp add: p map_of_eq_None_iff)
    then show ?case using Cons by (simp add: p posting_def rb_cardinality_card [OF R])
  qed (simp add: posting_def)
  have "count (mset ?all) v = count (mset new) v" for v
    using c [of m v] wf counts [of v] unfolding postings_wf_def count_list_mset by metis
  then have "mset (vals @ ?all) = mset (vals @ new)" by (simp add: multiset_eq_iff)
  then show ?thesis by (rule hist_ok_mset [OF hist_ok_merge [OF h pos]])
qed

lemma card_cell_rows:
  assumes "\<And>c. get c = Some v \<longleftrightarrow> c = C v"
  shows "card (cell_rows cells (C v)) = count_list (List.map_filter get cells) v"
proof -
  have "count_list (List.map_filter get cells) v = length (filter (\<lambda>c. get c = Some v) cells)"
    by (induction cells) (auto simp: map_filter_simps split: option.splits)
  then show ?thesis by (simp add: cell_rows_def assms length_filter_conv_card)
qed

lemma column_values_cells: "column_values get j table = List.map_filter get (map (\<lambda>row. row ! j) table)"
  by (induction table) (simp_all add: column_values_def map_filter_simps split: option.split)

lemma int_of_iff: "int_of c = Some v \<longleftrightarrow> c = IntCell v"
  by (cases c) auto

lemma bytes_of_iff: "bytes_of c = Some v \<longleftrightarrow> c = BytesCell v"
  by (cases c) auto

lemma top_fast_ok:
  assumes R: "roaring_ok (en_R E)" and ix: "index_ok E ci k (map (\<lambda>row. row ! j) table)" and "ci_Inverted ci \<noteq> None"
    and "top_holds k j s rows"
  shows "k = KindInt \<Longrightarrow>
      top_holds k j (s\<lparr>t_ints := merge_hist (histogram (en_R E) (ci_Inverted ci)) (t_ints s)\<rparr>) (rows @ table)"
    and "k \<noteq> KindInt \<Longrightarrow>
      top_holds k j (s\<lparr>t_bytes := merge_hist (histogram_bytes (en_R E) (ci_Inverted ci)) (t_bytes s)\<rparr>) (rows @ table)"
proof -
  obtain iv where iv: "ci_Inverted ci = Some iv" using assms(3) by auto
  let ?cells = "map (\<lambda>row. row ! j) table"
  show "top_holds k j (s\<lparr>t_ints := merge_hist (histogram (en_R E) (ci_Inverted ci)) (t_ints s)\<rparr>) (rows @ table)"
    if k: "k = KindInt"
  proof -
    have i: "iv_kind iv = 0" "postings_wf (en_R E) (iv_ints iv)"
      and rows: "lookup_rows (en_R E) (lookup_int (Some iv) v) = cell_rows ?cells (IntCell v)" for v
      using ix k iv by (simp_all add: index_ok_def int_index_exact_def)
    have "card (posting (en_R E) (iv_ints iv) v) = count_list (column_values int_of j table) v" for v
      unfolding lookup_rows_posting(1) [OF i(1), symmetric] rows column_values_cells
      by (rule card_cell_rows) (rule int_of_iff)
    with hist_ok_postings [OF R _ i(2)] assms(4) k i(1) iv show ?thesis
      by (simp add: top_holds_def histogram_def)
  qed
  show "top_holds k j (s\<lparr>t_bytes := merge_hist (histogram_bytes (en_R E) (ci_Inverted ci)) (t_bytes s)\<rparr>) (rows @ table)"
    if k: "k \<noteq> KindInt"
  proof -
    have i: "iv_kind iv = 1" "postings_wf (en_R E) (iv_bytesM iv)"
      and rows: "lookup_rows (en_R E) (lookup_bytes (Some iv) v) = cell_rows ?cells (BytesCell v)" for v
      using ix k iv by (simp_all add: index_ok_def bytes_index_exact_def)
    have "card (posting (en_R E) (iv_bytesM iv) v) = count_list (column_values bytes_of j table) v" for v
      unfolding lookup_rows_posting(2) [OF i(1), symmetric] rows column_values_cells
      by (rule card_cell_rows) (rule bytes_of_iff)
    with hist_ok_postings [OF R _ i(2)] assms(4) k i(1) iv show ?thesis
      by (simp add: top_holds_def histogram_bytes_def)
  qed
qed

lemma top_scan_ok:
  assumes R: "roaring_ok (en_R E)" and f: "file_holds E r tables" and w: "where_ok r w" and i: "i < length tables"
    and j: "j < length (sch_Columns (reader_schema r))" and "cd = sch_Columns (reader_schema r) ! j"
    and s: "top_holds (type_kind (col_Type cd)) j s rows"
  shows "\<exists>s'. top_scan E r w j cd s (new_ctx i (reader_segments r ! i)) = Inr s'
     \<and> q_Columns (t_res s') = q_Columns (t_res s)
     \<and> top_holds (type_kind (col_Type cd)) j s'
         (rows @ matching (en_std E) (reader_schema r) w (tables ! i))"
proof -
  let ?t = "tables ! i" and ?L = "en_std E" and ?sch = "reader_schema r" and ?k = "type_kind (col_Type cd)"
  have seg: "segment_holds E r i ?t" using f i by (simp add: file_holds_def)
  obtain bm c where bm: "eval_segment E r w (new_ctx i (reader_segments r ! i)) = Inr (bm, c)"
    "rb_set (en_R E) bm = {n. n < length ?t \<and> satisfies ?L ?sch w (?t ! n)}" "ctx_ok E r i c"
    by (rule segment_finds [OF R f w i])
  note m = rb_rows_matching [OF R bm(2)]
  show ?thesis
  proof (cases "rb_set (en_R E) bm = {}")
    case True
    then have "rb_rows (en_R E) bm = []" by (simp add: rb_set_def)
    then have "matching ?L ?sch w ?t = []" using m(2) by simp
    then show ?thesis
      using bm(1) True s by (simp add: top_scan_def rb_is_empty_iff [OF R])
  next
    case False
    obtain d where d: "reader_column (en_X E) r i j = Inr d" "holds_data E r ?t j d"
      using segment_data [OF seg j] by blast
    obtain c1 where c1: "ctx_col E r j c = Inr (d, c1)"
      using ctx_col_ok [OF bm(3) d(1)] by blast
    have "\<forall>n \<in> set (rb_rows (en_R E) bm). unat n < length ?t"
      using bm(2) by (auto simp: rb_set_def)
    then obtain s1 where s1: "foldE (top_row cd d) s (rb_rows (en_R E) bm) = Inr s1" "t_res s1 = t_res s"
      "top_holds ?k j s1 (rows @ map (\<lambda>n. ?t ! unat n) (rb_rows (en_R E) bm))"
      using top_rows_ok [OF d(2) _ _ s] assms(6) by blast
    have "map (\<lambda>n. ?t ! unat n) (rb_rows (en_R E) bm) = matching ?L ?sch w ?t"
      using m(2) by (simp add: comp_def)
    then show ?thesis
      using bm(1) False c1 s1 by (simp add: top_scan_def rb_is_empty_iff [OF R])
  qed
qed

lemma top_segment_ok:
  assumes R: "roaring_ok (en_R E)" and f: "file_holds E r tables" and w: "where_ok r w" and i: "i < length tables"
    and j: "j < length (sch_Columns (reader_schema r))" and cd: "cd = sch_Columns (reader_schema r) ! j"
    and s: "top_holds (type_kind (col_Type cd)) j s rows"
  shows "\<exists>s'. top_segment E r w j cd s i = Inr s'
     \<and> q_Columns (t_res s') = q_Columns (t_res s)
     \<and> top_holds (type_kind (col_Type cd)) j s'
         (rows @ matching (en_std E) (reader_schema r) w (tables ! i))"
proof -
  let ?k = "type_kind (col_Type cd)"
  have seg: "segment_holds E r i (tables ! i)" and n: "i < length (reader_segments r)"
    using f i by (simp_all add: file_holds_def)
  note scan = top_scan_ok [OF R f w i j cd s]
  show ?thesis
  proof (cases w)
    case Some
    then show ?thesis using scan n by (simp add: top_segment_def)
  next
    case None
    obtain ci where ci: "reader_index (en_R E) r i j = Inr ci"
      "index_ok E ci ?k (map (\<lambda>row. row ! j) (tables ! i))"
      using segment_holds_column [OF seg j] cd by (auto simp: column_holds_def)
    show ?thesis
    proof (cases "ci_Inverted ci = None")
      case True
      then show ?thesis using scan n None ci(1) by (simp add: top_segment_def)
    next
      case False
      have "matching (en_std E) (reader_schema r) w (tables ! i) = tables ! i"
        by (simp add: None matching_def satisfies_def)
      with top_fast_ok [OF R ci(2) False s] show ?thesis
        using n None ci(1) False by (cases "?k = KindInt") (auto simp: top_segment_def)
    qed
  qed
qed

lemma top_loop_ok:
  assumes R: "roaring_ok (en_R E)" and f: "file_holds E r tables" and w: "where_ok r w" and "k \<le> length tables"
    and j: "j < length (sch_Columns (reader_schema r))" and cd: "cd = sch_Columns (reader_schema r) ! j"
    and s: "top_holds (type_kind (col_Type cd)) j s []"
  shows "\<exists>s'. foldE (top_segment E r w j cd) s [0..<k] = Inr s'
     \<and> q_Columns (t_res s') = q_Columns (t_res s)
     \<and> top_holds (type_kind (col_Type cd)) j s'
         (matching (en_std E) (reader_schema r) w (concat (take k tables)))"
  using assms(4)
proof (induction k)
  case 0
  then show ?case using s by (simp add: matching_def)
next
  case (Suc k)
  then obtain s1 where s1: "foldE (top_segment E r w j cd) s [0..<k] = Inr s1"
    "q_Columns (t_res s1) = q_Columns (t_res s)"
    "top_holds (type_kind (col_Type cd)) j s1 (matching (en_std E) (reader_schema r) w (concat (take k tables)))"
    by auto
  have k: "k < length tables" using Suc.prems by simp
  from top_segment_ok [OF R f w k j cd s1(3)] s1(1,2) show ?case
    by (auto simp: foldE_append concat_take_Suc [OF k])
qed

definition top_text :: "stdlib \<Rightarrow> logical_type \<Rightarrow> int \<Rightarrow> nat \<Rightarrow> cell list list \<Rightarrow> string list list" where
  "top_text L t n j rows =
     (if type_kind t = KindInt then ranking (format_int_val L t) n (column_values int_of j rows)
      else ranking (format_bytes_val L t) n (column_values bytes_of j rows))"

lemma exec_top_ok:
  assumes R: "roaring_ok (en_R E)" and f: "file_holds E r tables" and w: "where_ok r w"
    and j: "schema_index (reader_schema r) (to_bytes (ag_Col ag)) = Some j" and n: "0 < ag_N ag"
  shows "\<exists>res. exec_top E r ag w = Inr res \<and> q_Columns res = [ag_Col ag, ''count'']
     \<and> q_Rows res = top_text (en_std E) (col_Type (sch_Columns (reader_schema r) ! j)) (ag_N ag) j
         (matching (en_std E) (reader_schema r) w (concat tables))"
proof -
  let ?cd = "sch_Columns (reader_schema r) ! j"
  have jl: "j < length (sch_Columns (reader_schema r))" using j by (rule schema_index_bound)
  have at: "column_at (reader_schema r) (ag_Col ag) = Inr (j, ?cd)" using j jl by (simp add: column_at_def)
  let ?s0 = "\<lparr>t_res = (new_result KindTop)\<lparr>q_Columns := [ag_Col ag, ''count'']\<rparr>, t_ints = [], t_bytes = []\<rparr>"
  have "top_holds (type_kind (col_Type ?cd)) j ?s0 []" by (simp add: top_holds_def hist_ok_Nil)
  then obtain s where s: "foldE (top_segment E r w j ?cd) ?s0 [0..<length tables] = Inr s"
    "q_Columns (t_res s) = [ag_Col ag, ''count'']"
    "top_holds (type_kind (col_Type ?cd)) j s (matching (en_std E) (reader_schema r) w (concat tables))"
    using top_loop_ok [OF R f w order_refl jl refl, of ?s0] by auto
  have len: "length (reader_segments r) = length tables" using f by (simp add: file_holds_def)
  show ?thesis
  proof (cases "type_kind (col_Type ?cd) = KindInt")
    case True
    then have "hist_ok (t_ints s) (column_values int_of j (matching (en_std E) (reader_schema r) w (concat tables)))"
      using s(3) by (simp only: top_holds_def if_True)
    from top_items_ok [OF this n, of "format_int_val (en_std E) (col_Type ?cd)"] show ?thesis
      using True s(1,2) len at by (simp add: exec_top_def Let_def top_text_def)
  next
    case False
    then have "hist_ok (t_bytes s) (column_values bytes_of j (matching (en_std E) (reader_schema r) w (concat tables)))"
      using s(3) by (simp only: top_holds_def if_False)
    from top_items_ok [OF this n, of "format_bytes_val (en_std E) (col_Type ?cd)"] show ?thesis
      using False s(1,2) len at by (simp add: exec_top_def Let_def top_text_def)
  qed
qed

end
