(* ===== verification/QueryPrinter.thy ===== *)
theory QueryPrinter
  imports ParserFacts
begin

text \<open>
  A printer for statements, with the precedence of the documented grammar, and the proof
  that parsing what it prints gives the statement back: \<open>AND\<close> binds tighter than \<open>OR\<close>, both
  associate to the left, parentheses override, string literals are unescaped and numbers
  keep their value.
\<close>

section \<open>Printing\<close>

abbreviation kw :: "string \<Rightarrow> token" where "kw s \<equiv> Token TIdent s"
abbreviation pn :: "string \<Rightarrow> token" where "pn s \<equiv> Token TPunct s"

fun value_toks :: "string list \<Rightarrow> token list" where
  "value_toks [] = []"
| "value_toks [v] = [Token TStr v]"
| "value_toks (v # vs) = Token TStr v # pn '','' # value_toks vs"

definition parens :: "bool \<Rightarrow> token list \<Rightarrow> token list" where
  "parens b ts = (if b then pn ''('' # ts @ [pn '')''] else ts)"

text \<open>Level 0 is a disjunction, 1 a conjunction, 2 a factor.\<close>

fun expr_toks :: "nat \<Rightarrow> expr \<Rightarrow> token list" where
  "expr_toks p (Or l r) = parens (0 < p) (expr_toks 0 l @ kw ''OR'' # expr_toks 1 r)"
| "expr_toks p (And l r) = parens (1 < p) (expr_toks 1 l @ kw ''AND'' # expr_toks 2 r)"
| "expr_toks p (Cmp c op vs) =
     (if op = ''in'' then [kw c, kw ''IN'', pn ''(''] @ value_toks vs @ [pn '')'']
      else [kw c, pn op, Token TStr (hd vs)])"

fun ident_toks :: "string list \<Rightarrow> token list" where
  "ident_toks [] = []"
| "ident_toks [c] = [kw c]"
| "ident_toks (c # cs) = kw c # pn '','' # ident_toks cs"

definition select_toks :: "stmt \<Rightarrow> token list" where
  "select_toks st =
     (case s_Aggregate st of
        Some a \<Rightarrow>
          if ag_Func a = ''count'' then [kw ''count'', pn ''('', pn ''*'', pn '')'']
          else [kw ''top'', pn ''('', kw (ag_Col a), pn '','', Token TNum (show_nat (nat (ag_N a))), pn '')'']
      | None \<Rightarrow> if s_Star st then [pn ''*''] else ident_toks (s_Projection st))"

definition where_toks :: "stmt \<Rightarrow> token list" where
  "where_toks st = (case s_Where st of None \<Rightarrow> [] | Some e \<Rightarrow> kw ''WHERE'' # expr_toks 0 e)"

definition limit_toks :: "stmt \<Rightarrow> token list" where
  "limit_toks st =
     (if s_Limit st = 0 then [] else [kw ''LIMIT'', Token TNum (show_nat (nat (s_Limit st)))])"

definition stmt_toks :: "stmt \<Rightarrow> token list" where
  "stmt_toks st =
     kw ''SELECT'' # select_toks st @ [kw ''FROM'', kw ''events''] @ where_toks st @ limit_toks st"

definition stmt_text :: "stmt \<Rightarrow> string" where
  "stmt_text st = tokens_text (stmt_toks st)"

text \<open>What follows an expression must not continue it.\<close>

definition no_kw :: "string \<Rightarrow> token list \<Rightarrow> bool" where
  "no_kw s ts \<longleftrightarrow> ts \<noteq> [] \<and> \<not> (t_kind (hd ts) = TIdent \<and> equal_fold (t_s (hd ts)) s)"

lemma eat_keyword_no: "no_kw s ts \<Longrightarrow> eat_keyword s ts = Inr (False, ts)"
  by (cases ts) (auto simp: no_kw_def eat_keyword_def)

lemma eat_keyword_kw: "equal_fold s t \<Longrightarrow> eat_keyword t (kw s # ts) = Inr (True, ts)"
  by (simp add: eat_keyword_def)

lemma eat_punct_pn [simp]: "eat_punct s (pn t # ts) = (if t = s then Inr (True, ts) else Inr (False, pn t # ts))"
  by (simp add: eat_punct_def)

lemma eat_punct_kw [simp]: "eat_punct s (kw t # ts) = Inr (False, kw t # ts)"
  by (simp add: eat_punct_def)

lemma expect_punct_pn [simp]: "expect_punct s (pn s # ts) = Inr ts"
  by (simp add: expect_punct_def)

lemma folds [simp]:
  "equal_fold ''SELECT'' ''select''" "equal_fold ''FROM'' ''from''" "equal_fold ''WHERE'' ''where''"
  "equal_fold ''LIMIT'' ''limit''" "equal_fold ''OR'' ''or''" "equal_fold ''AND'' ''and''"
  "equal_fold ''IN'' ''in''" "equal_fold ''count'' ''count''" "equal_fold ''top'' ''top''"
  "\<not> equal_fold ''OR'' ''and''" "\<not> equal_fold ''LIMIT'' ''and''" "\<not> equal_fold ''LIMIT'' ''or''"
  "\<not> equal_fold ''top'' ''count''" "\<not> equal_fold ''LIMIT'' ''where''"
  by code_simp+

lemma eat_keyword_pn [simp]: "eat_keyword s (pn t # ts) = Inr (False, pn t # ts)"
  by (simp add: eat_keyword_def)

lemma no_kw_simps [simp]:
  "no_kw s (pn t # ts)" "no_kw s (kw t # ts) \<longleftrightarrow> \<not> equal_fold t s" "no_kw s [Token TEOF t]"
  by (simp_all add: no_kw_def)

section \<open>Expressions\<close>

lemma parse_value_str [simp]: "parse_value (Token TStr v # ts) = Inr (v, ts)"
  by (simp add: parse_value_def)

lemma parse_values_toks:
  "vs \<noteq> [] \<Longrightarrow> parse_values (value_toks vs @ pn '')'' # rest) = Inr (vs, pn '')'' # rest)"
  by (induction vs rule: value_toks.induct) (simp_all add: parse_values.simps)

lemma parse_cmp_toks:
  assumes "expr_wf (Cmp c op vs)"
  shows "parse_cmp (expr_toks p (Cmp c op vs) @ rest) = Inr (Cmp c op vs, rest)"
proof (cases "op = ''in''")
  case True
  moreover from this have "vs \<noteq> []" using assms by auto
  ultimately show ?thesis
    by (simp add: parse_cmp_def eat_keyword_kw parse_values_toks)
next
  case False
  then have op: "comparison_op op" and "length vs = 1" using assms by simp_all
  then obtain v where "vs = [v]" by (auto simp: length_Suc_conv)
  with False op show ?thesis by (simp add: parse_cmp_def)
qed

lemma parse_or_loop_end: "no_kw ''or'' ts \<Longrightarrow> parse_or_loop e ts = Inr (e, ts)"
  by (simp add: parse_or_loop.simps eat_keyword_no)

lemma parse_and_loop_end: "no_kw ''and'' ts \<Longrightarrow> parse_and_loop e ts = Inr (e, ts)"
  by (simp add: parse_and_loop.simps eat_keyword_no)

lemma parse_or_loop_or: "parse_or_loop e (kw ''OR'' # ts)
    = bindE (parse_and ts) (\<lambda>(r, ts'). parse_or_loop (Or e r) ts')"
  by (simp add: parse_or_loop.simps [of e "kw ''OR'' # ts"] eat_keyword_kw)

lemma parse_and_loop_and: "parse_and_loop e (kw ''AND'' # ts)
    = bindE (parse_factor ts) (\<lambda>(r, ts'). parse_and_loop (And e r) ts')"
  by (simp add: parse_and_loop.simps [of e "kw ''AND'' # ts"] eat_keyword_kw)

lemma parse_and_from_factor: "parse_factor ts = Inr (e, rest) \<Longrightarrow> parse_and ts = parse_and_loop e rest"
  by (simp add: parse_and.simps)

lemma parse_or_from_and:
  "parse_and ts = parse_and_loop e rest \<Longrightarrow> no_kw ''and'' rest \<Longrightarrow> parse_or ts = parse_or_loop e rest"
  by (simp add: parse_or.simps parse_and_loop_end)

lemma parse_factor_parens:
  "parse_or (ts @ pn '')'' # rest) = parse_or_loop e (pn '')'' # rest)
     \<Longrightarrow> parse_factor (pn ''('' # ts @ pn '')'' # rest) = Inr (e, rest)"
  by (simp add: parse_factor.simps parse_or_loop_end)

lemma parse_factor_kw: "parse_factor (kw c # ts) = parse_cmp (kw c # ts)"
  by (simp add: parse_factor.simps)

lemma parse_expr_toks:
  "expr_wf e \<Longrightarrow>
     (\<forall>rest. parse_factor (expr_toks 2 e @ rest) = Inr (e, rest))
     \<and> (\<forall>rest. parse_and (expr_toks 1 e @ rest) = parse_and_loop e rest)
     \<and> (\<forall>rest. no_kw ''and'' rest \<longrightarrow> parse_or (expr_toks 0 e @ rest) = parse_or_loop e rest)"
proof (induction e)
  case (And l r)
  then have one: "parse_and (expr_toks 1 (And l r) @ rest) = parse_and_loop (And l r) rest" for rest
    by (simp add: parens_def parse_and_loop_and)
  then have zero: "parse_or (expr_toks 0 (And l r) @ rest) = parse_or_loop (And l r) rest"
    if "no_kw ''and'' rest" for rest
    using that by (intro parse_or_from_and) (simp_all add: parens_def)
  have "parse_factor (expr_toks 2 (And l r) @ rest) = Inr (And l r, rest)" for rest
    using parse_factor_parens [of "expr_toks 0 (And l r)" rest] zero by (simp add: parens_def)
  with one zero show ?case by blast
next
  case (Or l r)
  then have zero: "parse_or (expr_toks 0 (Or l r) @ rest) = parse_or_loop (Or l r) rest"
    if "no_kw ''and'' rest" for rest
    using that by (simp add: parens_def parse_or_loop_or parse_and_loop_end)
  have two: "parse_factor (expr_toks 2 (Or l r) @ rest) = Inr (Or l r, rest)" for rest
    using parse_factor_parens [of "expr_toks 0 (Or l r)" rest] zero by (simp add: parens_def)
  then have "parse_and (expr_toks 1 (Or l r) @ rest) = parse_and_loop (Or l r) rest" for rest
    by (intro parse_and_from_factor) (simp add: parens_def)
  with zero two show ?case by blast
next
  case (Cmp c op vs)
  have two: "parse_factor (expr_toks p (Cmp c op vs) @ rest) = Inr (Cmp c op vs, rest)" for p rest
    using parse_cmp_toks [OF Cmp, of p rest] by (cases "op = ''in''") (simp_all add: parse_factor_kw)
  then show ?case
    using parse_and_from_factor parse_or_from_and by blast
qed

section \<open>Statements\<close>

lemma expect_keyword_kw: "equal_fold s t \<Longrightarrow> expect_keyword t (kw s # ts) = Inr ts"
  by (simp add: expect_keyword_def eat_keyword_kw)

lemma parse_projection_toks:
  "cs \<noteq> [] \<Longrightarrow> parse_projection (ident_toks cs @ kw s # rest) = Inr (cs, kw s # rest)"
  by (induction cs rule: ident_toks.induct) (simp_all add: parse_projection.simps)

lemma ident_toks_hd: "cs \<noteq> [] \<Longrightarrow> \<exists>ts. ident_toks cs = kw (hd cs) # ts"
  by (cases cs rule: ident_toks.cases) simp_all

text \<open>The select list of \<open>st\<close>, before the other clauses are parsed.\<close>

definition select_part :: "stmt \<Rightarrow> stmt" where
  "select_part st = st\<lparr>s_Where := None, s_Limit := 0\<rparr>"

lemma parse_select_list_toks:
  assumes "select_wf st"
  shows "parse_select_list empty_stmt (select_toks st @ kw s # rest) = Inr (select_part st, kw s # rest)"
proof (cases "s_Aggregate st")
  case (Some a)
  then show ?thesis
    using assms atoi_show [of "nat (ag_N a)"]
    by (auto simp: select_wf_def select_toks_def parse_select_list_def parse_top_n_def select_part_def empty_stmt_def)
next
  case None
  show ?thesis
  proof (cases "s_Star st")
    case True
    then show ?thesis
      using assms None by (simp add: select_wf_def select_toks_def parse_select_list_def select_part_def empty_stmt_def)
  next
    case False
    then have cs: "s_Projection st \<noteq> []" and no: "\<not> equal_fold (hd (s_Projection st)) ''count''"
      "\<not> equal_fold (hd (s_Projection st)) ''top''"
      using assms None by (simp_all add: select_wf_def)
    obtain ts where ts: "ident_toks (s_Projection st) = kw (hd (s_Projection st)) # ts"
      using ident_toks_hd [OF cs] by blast
    show ?thesis
      using parse_projection_toks [OF cs, of s rest] None False no ts
      by (simp add: select_toks_def parse_select_list_def select_part_def empty_stmt_def)
  qed
qed

lemma limit_toks_no_kw:
  "no_kw ''and'' (limit_toks st @ [Token TEOF t])" "no_kw ''or'' (limit_toks st @ [Token TEOF t])"
  "no_kw ''where'' (limit_toks st @ [Token TEOF t])"
  by (simp_all add: limit_toks_def)

lemma parse_where_toks:
  assumes "stmt_wf st"
  shows "parse_where (select_part st) (where_toks st @ limit_toks st @ [Token TEOF t])
      = Inr (st\<lparr>s_Limit := 0\<rparr>, limit_toks st @ [Token TEOF t])"
proof (cases "s_Where st")
  case None
  then show ?thesis
    by (simp add: parse_where_def where_toks_def eat_keyword_no limit_toks_no_kw select_part_def)
next
  case (Some e)
  then have "parse_or (expr_toks 0 e @ limit_toks st @ [Token TEOF t]) = Inr (e, limit_toks st @ [Token TEOF t])"
    using assms parse_expr_toks [of e] limit_toks_no_kw by (simp add: stmt_wf_def parse_or_loop_end)
  with Some show ?thesis
    by (simp add: parse_where_def where_toks_def eat_keyword_kw select_part_def)
qed

lemma parse_limit_toks:
  assumes "stmt_wf st"
  shows "parse_limit (st\<lparr>s_Limit := 0\<rparr>) (limit_toks st @ [Token TEOF t]) = Inr (st, [Token TEOF t])"
proof (cases "s_Limit st = 0")
  case True
  then have "st\<lparr>s_Limit := 0\<rparr> = st" by simp
  with True show ?thesis
    by (simp add: parse_limit_def limit_toks_def eat_keyword_no no_kw_simps)
next
  case False
  have lim: "0 \<le> s_Limit st" "s_Limit st < 2 ^ 63" using assms by (simp_all add: stmt_wf_def)
  then have "nat (s_Limit st) < 2 ^ 63" by simp
  then have "atoi (show_nat (nat (s_Limit st))) = Some (s_Limit st)"
    using lim atoi_show by simp
  then show ?thesis
    using False lim by (simp add: parse_limit_def limit_toks_def eat_keyword_kw)
qed

lemma parse_stmt_toks:
  assumes "stmt_wf st"
  shows "parse_stmt (stmt_toks st @ [Token TEOF t]) = Inr st"
proof -
  have "stmt_toks st @ [Token TEOF t]
      = kw ''SELECT'' # select_toks st @ kw ''FROM'' # kw ''events'' # where_toks st @ limit_toks st @ [Token TEOF t]"
    by (simp add: stmt_toks_def)
  moreover have "select_wf st" using assms by (simp add: stmt_wf_def)
  ultimately show ?thesis
    using assms by (simp add: parse_stmt_def expect_keyword_kw parse_select_list_toks parse_where_toks parse_limit_toks)
qed

section \<open>The text\<close>

lemma token_ok_pn [simp]:
  "token_ok (pn ''('')" "token_ok (pn '')'')" "token_ok (pn '','')" "token_ok (pn ''*'')" "token_ok (Token TStr v)"
  "comparison_op op \<Longrightarrow> token_ok (pn op)"
  by (auto simp: token_ok_def is_punct_def comparison_op_def)

lemma token_ok_kw [simp]:
  "token_ok (kw ''SELECT'')" "token_ok (kw ''FROM'')" "token_ok (kw ''events'')" "token_ok (kw ''WHERE'')"
  "token_ok (kw ''LIMIT'')" "token_ok (kw ''OR'')" "token_ok (kw ''AND'')" "token_ok (kw ''IN'')"
  "token_ok (kw ''count'')" "token_ok (kw ''top'')"
  by code_simp+

lemma token_ok_num [simp]: "token_ok (Token TNum (show_nat n))"
  using show_nat_digits [of n] by (cases "show_nat n") (auto simp: token_ok_def num_part_def list_all_iff)

lemma value_toks_ok: "list_all token_ok (value_toks vs)"
  by (induction vs rule: value_toks.induct) simp_all

lemma expr_toks_ok: "expr_wf e \<Longrightarrow> list_all token_ok (expr_toks p e)"
  by (induction e arbitrary: p) (auto simp: parens_def value_toks_ok ident_ok_def)

lemma ident_toks_ok: "list_all ident_ok cs \<Longrightarrow> list_all token_ok (ident_toks cs)"
  by (induction cs rule: ident_toks.induct) (simp_all add: ident_ok_def)

lemma select_toks_ok: "select_wf st \<Longrightarrow> list_all token_ok (select_toks st)"
  by (cases "s_Aggregate st") (auto simp: select_wf_def select_toks_def ident_toks_ok ident_ok_def)

lemma stmt_toks_ok: "stmt_wf st \<Longrightarrow> list_all token_ok (stmt_toks st)"
  by (auto simp: stmt_wf_def stmt_toks_def where_toks_def limit_toks_def select_toks_ok expr_toks_ok split: option.split)

lemma printed_parses:
  assumes "stmt_wf st"
  shows "parse (stmt_text st) = Inr st"
  using lex_tokens [OF stmt_toks_ok [OF assms]] parse_stmt_toks [OF assms]
  by (simp add: parse_def stmt_text_def)

text \<open>
  C27: printing a statement and parsing the text gives the statement back, for every
  well-formed statement: select lists, aggregates, nested conditions with any mixture of
  \<open>AND\<close>, \<open>OR\<close> and parentheses, string literals with quotes inside, and limits.
\<close>

theorem parse_roundtrip:
  assumes "stmt_wf st"
  shows "parse (stmt_text st) = Inr st"
  using assms by (rule printed_parses)

definition sample_stmt :: stmt where
  "sample_stmt = \<lparr>s_Aggregate = None, s_Star = False, s_Projection = [''src_ip'', ''bytes''],
     s_Where = Some (And (Or (Cmp ''user'' ''='' [''o'' @ [quote] @ ''hara'']) (Cmp ''port'' ''in'' [''22'', ''443'']))
        (Cmp ''bytes'' ''>'' [''1024''])), s_Limit = 100\<rparr>"

theorem parse_roundtrip_witness: "parse (stmt_text sample_stmt) = Inr sample_stmt"
proof -
  have "stmt_wf sample_stmt" by code_simp
  then show ?thesis by (rule parse_roundtrip)
qed

end
