(* ===== verification/Queries.thy ===== *)
theory Queries
  imports TopFacts Samples QueryPrinter
begin

text \<open>
  The properties of whole queries, from the text of a query to its result, on files that
  hold known tables, and of the searches; and a file written by the writer for them.
\<close>

section \<open>Statements\<close>

lemma validate_stmt_iff:
  "validate_stmt sch st = Inr () \<longleftrightarrow>
     (\<forall>a. s_Aggregate st = Some a \<and> ag_Func a = ''top'' \<longrightarrow> check_column sch (ag_Col a) = Inr ())
     \<and> check_columns sch (s_Projection st) = Inr ()
     \<and> (\<forall>e. s_Where st = Some e \<longrightarrow> validate_expr sch e = Inr ())"
  by (auto simp: validate_stmt_def res_iff split: option.splits if_splits)

lemma statement_where_ok:
  assumes "validate_stmt (reader_schema r) st = Inr ()" and "stmt_wf st"
  shows "where_ok r (s_Where st)"
  using assms expr_wf_vals by (auto simp: where_ok_def validate_stmt_iff stmt_wf_def split: option.splits)

lemma parsed_wf: "parse q = Inr st \<Longrightarrow> stmt_wf st"
  using parse_outcome [of q] by (auto simp: stmt_outcome_def)

text \<open>The sample file and a condition its second row satisfies.\<close>

definition sample_where :: expr where
  "sample_where = Or (Cmp ''m'' ''='' [''b'']) (Cmp ''m'' ''>'' [''x''])"

definition sample_query :: "agg option \<Rightarrow> stmt" where
  "sample_query a = \<lparr>s_Aggregate = a, s_Star = (a = None), s_Projection = [], s_Where = Some sample_where, s_Limit = 0\<rparr>"

definition sample_count :: agg where "sample_count = \<lparr>ag_Func = ''count'', ag_Col = ''*'', ag_N = 0\<rparr>"
definition sample_top :: agg where "sample_top = \<lparr>ag_Func = ''top'', ag_Col = ''m'', ag_N = 5\<rparr>"

lemma sample_queries:
  "parse (stmt_text (sample_query None)) = Inr (sample_query None)"
  "parse (stmt_text (sample_query (Some sample_count))) = Inr (sample_query (Some sample_count))"
  "parse (stmt_text (sample_query (Some sample_top))) = Inr (sample_query (Some sample_top))"
  "validate_stmt sample_table (sample_query None) = Inr ()"
  "validate_stmt sample_table (sample_query (Some sample_count)) = Inr ()"
  "validate_stmt sample_table (sample_query (Some sample_top)) = Inr ()"
  by (rule printed_parses, code_simp)+ (code_simp+)

lemma sample_held:
  obtains r where "roaring_ok (en_R sample_engine)" and "en_std sample_engine = sample_std" and "reader_schema r = sample_table"
    and "file_holds sample_engine r [[[BytesCell [97]]], [[BytesCell [98]]]]"
  using sample_reader list_roaring_ok by (auto simp: sample_engine_def)

lemma sample_matching:
  "matching sample_std sample_table (Some sample_where) [[BytesCell [97]], [BytesCell [98]]] = [[BytesCell [98]]]"
  by code_simp

lemma sample_query_simps [simp]:
  "s_Aggregate (sample_query a) = a" "s_Where (sample_query a) = Some sample_where"
  by (simp_all add: sample_query_def)

lemma query_count_ok:
  assumes "roaring_ok (en_R E)" and "file_holds E r tables" and "parse q = Inr st"
    and "validate_stmt (reader_schema r) st = Inr ()" and "s_Aggregate st = Some a" and "ag_Func a = ''count''"
  shows "\<exists>res. reader_query E r q = Inr res
    \<and> unat (q_Count res) = length (matching (en_std E) (reader_schema r) (s_Where st) (concat tables))"
proof -
  have "where_ok r (s_Where st)" by (rule statement_where_ok [OF assms(4) parsed_wf [OF assms(3)]])
  from exec_count_ok [OF assms(1,2) this] show ?thesis
    using assms by (simp add: reader_query_def execute_def)
qed

text \<open>
  C11: a counting query on a file that holds given tables succeeds and counts exactly the rows
  that satisfy its condition, whichever of the zone maps, the Bloom filters, the posting
  lists and the scans answer for each comparison in each segment.
\<close>

theorem query_count_exact:
  assumes "roaring_ok (en_R E)" and "file_holds E r tables" and "parse q = Inr st"
    and "validate_stmt (reader_schema r) st = Inr ()" and "s_Aggregate st = Some a" and "ag_Func a = ''count''"
  shows "\<exists>res. reader_query E r q = Inr res
    \<and> unat (q_Count res) = length (matching (en_std E) (reader_schema r) (s_Where st) (concat tables))"
  using assms by (rule query_count_ok)

theorem query_count_exact_witness:
  "\<exists>r res. reader_query sample_engine r (stmt_text (sample_query (Some sample_count))) = Inr res \<and> unat (q_Count res) = 1"
proof -
  obtain r where r: "roaring_ok (en_R sample_engine)" "en_std sample_engine = sample_std" "reader_schema r = sample_table"
    "file_holds sample_engine r [[[BytesCell [97]]], [[BytesCell [98]]]]" by (rule sample_held)
  from query_count_exact [OF r(1,4) sample_queries(2), of sample_count] show ?thesis
    using sample_queries(5) by (auto simp: r(2,3) sample_matching sample_count_def)
qed

text \<open>
  C10: a query for rows succeeds and returns the chosen columns, rendered, of the rows that
  satisfy its condition, in the order of the file and as many as the limit allows.
\<close>

theorem query_rows_exact:
  assumes "roaring_ok (en_R E)" and "file_holds E r tables" and "parse q = Inr st"
    and "validate_stmt (reader_schema r) st = Inr ()" and "s_Aggregate st = None"
  shows "\<exists>res. reader_query E r q = Inr res
    \<and> q_Columns res = map (\<lambda>j. from_bytes (col_Name (sch_Columns (reader_schema r) ! j))) (output_cols (reader_schema r) st)
    \<and> q_Rows res = take (row_limit st)
        (map (render_row (en_std E) (reader_schema r) (output_cols (reader_schema r) st))
           (matching (en_std E) (reader_schema r) (s_Where st) (concat tables)))"
proof -
  have "where_ok r (s_Where st)" by (rule statement_where_ok [OF assms(4) parsed_wf [OF assms(3)]])
  moreover have "check_columns (reader_schema r) (s_Projection st) = Inr ()"
    using assms(4) validate_stmt_iff by blast
  ultimately show ?thesis
    using exec_rows_ok [OF assms(1,2), of st] assms by (simp add: reader_query_def execute_def)
qed

theorem query_rows_exact_witness:
  "\<exists>r res. reader_query sample_engine r (stmt_text (sample_query None)) = Inr res \<and> q_Rows res = [[''b'']]"
proof -
  obtain r where r: "roaring_ok (en_R sample_engine)" "en_std sample_engine = sample_std" "reader_schema r = sample_table"
    "file_holds sample_engine r [[[BytesCell [97]]], [[BytesCell [98]]]]" by (rule sample_held)
  have "take (row_limit (sample_query None)) (map (render_row sample_std sample_table (output_cols sample_table (sample_query None)))
      [[BytesCell [98]]]) = [[''b'']]" by code_simp
  with query_rows_exact [OF r(1,4) sample_queries(1)] show ?thesis
    using sample_queries(4) by (auto simp: r(2,3) sample_matching)
qed

lemma query_top_ok:
  assumes "roaring_ok (en_R E)" and "file_holds E r tables" and "parse q = Inr st"
    and "validate_stmt (reader_schema r) st = Inr ()" and "s_Aggregate st = Some a" and "ag_Func a = ''top''"
  shows "\<exists>res j. reader_query E r q = Inr res \<and> schema_index (reader_schema r) (to_bytes (ag_Col a)) = Some j
    \<and> q_Columns res = [ag_Col a, ''count'']
    \<and> q_Rows res = top_text (en_std E) (col_Type (sch_Columns (reader_schema r) ! j)) (ag_N a) j
        (matching (en_std E) (reader_schema r) (s_Where st) (concat tables))"
proof -
  have w: "where_ok r (s_Where st)" by (rule statement_where_ok [OF assms(4) parsed_wf [OF assms(3)]])
  obtain j where j: "schema_index (reader_schema r) (to_bytes (ag_Col a)) = Some j"
    using assms(4-6) by (auto simp: validate_stmt_iff check_column_iff)
  have n: "0 < ag_N a"
    using parsed_wf [OF assms(3)] assms(5,6) by (auto simp: stmt_wf_def select_wf_def)
  from exec_top_ok [OF assms(1,2) w j n] j show ?thesis
    using assms by (simp add: reader_query_def execute_def)
qed

text \<open>
  C12: a \<open>top\<close> query succeeds and returns the values of its column in the rows that satisfy
  its condition, most frequent first, ties in the order of their texts, with exact counts;
  the answer does not depend on which segments are read from the inverted index.
\<close>

theorem query_top_exact:
  assumes "roaring_ok (en_R E)" and "file_holds E r tables" and "parse q = Inr st"
    and "validate_stmt (reader_schema r) st = Inr ()" and "s_Aggregate st = Some a" and "ag_Func a = ''top''"
  shows "\<exists>res j. reader_query E r q = Inr res \<and> schema_index (reader_schema r) (to_bytes (ag_Col a)) = Some j
    \<and> q_Columns res = [ag_Col a, ''count'']
    \<and> q_Rows res = top_text (en_std E) (col_Type (sch_Columns (reader_schema r) ! j)) (ag_N a) j
        (matching (en_std E) (reader_schema r) (s_Where st) (concat tables))"
  using assms by (rule query_top_ok)

theorem query_top_exact_witness:
  "\<exists>r res. reader_query sample_engine r (stmt_text (sample_query (Some sample_top))) = Inr res \<and> q_Rows res = [[''b'', ''1'']]"
proof -
  obtain r where r: "roaring_ok (en_R sample_engine)" "en_std sample_engine = sample_std" "reader_schema r = sample_table"
    "file_holds sample_engine r [[[BytesCell [97]]], [[BytesCell [98]]]]" by (rule sample_held)
  have "schema_index sample_table (to_bytes (ag_Col sample_top)) = Some 0" by code_simp
  moreover have "top_text sample_std (col_Type (sch_Columns sample_table ! 0)) (ag_N sample_top) 0 [[BytesCell [98]]] = [[''b'', ''1'']]"
    by code_simp
  ultimately show ?thesis
    using query_top_exact [OF r(1,4) sample_queries(3), of sample_top] sample_queries(6)
    by (auto simp: r(2,3) sample_matching sample_top_def)
qed

section \<open>Searches\<close>

lemma to_from_bytes [simp]: "to_bytes (from_bytes b) = b"
  by (induction b) (simp_all add: to_bytes_def from_bytes_def unsigned_less [where 'b = 8, simplified] unsigned_take_bit_eq)

definition search_or :: "string \<Rightarrow> expr \<Rightarrow> string list \<Rightarrow> expr" where
  "search_or value e cols = foldl (\<lambda>e name. Or e (Cmp name ''='' [value])) e cols"

lemma search_where_Cons: "search_where value (name # cols) = Some (search_or value (Cmp name ''='' [value]) cols)"
proof -
  have "fold (\<lambda>name w. let cmp = Cmp name ''='' [value] in Some (case w of None \<Rightarrow> cmp | Some e \<Rightarrow> Or e cmp)) cols (Some e)
     = Some (search_or value e cols)" for e
    by (induction cols arbitrary: e) (simp_all add: search_or_def)
  then show ?thesis by (simp add: search_where_def)
qed

lemma search_or_matches:
  "row_matches L sch row (search_or value e cols) \<longleftrightarrow>
     row_matches L sch row e \<or> (\<exists>name \<in> set cols. row_matches L sch row (Cmp name ''='' [value]))"
  unfolding search_or_def by (induction cols arbitrary: e) auto

lemma search_or_ok:
  assumes "\<forall>name \<in> set cols. check_column sch name = Inr ()" and "validate_expr sch e = Inr ()" and "expr_vals e"
  shows "validate_expr sch (search_or value e cols) = Inr () \<and> expr_vals (search_or value e cols)"
  using assms unfolding search_or_def by (induction cols arbitrary: e) auto

lemma index_loop_member: "c \<in> set cs \<Longrightarrow> \<exists>j. index_loop (col_Name c) i cs = Some j"
  by (induction cs arbitrary: i) auto

lemma resolved_columns:
  assumes "name \<in> set (resolve_search_columns sch field)"
  shows "check_column sch name = Inr ()"
proof -
  have "\<exists>j. schema_index sch (to_bytes name) = Some j"
    using assms index_loop_member
    by (auto simp: resolve_search_columns_def Let_def schema_index_def split: if_splits)
  then show ?thesis by (simp add: check_column_iff)
qed

lemma search_ok:
  assumes "roaring_ok (en_R E)" and "file_holds E r tables" and "resolve_search_columns (reader_schema r) field \<noteq> []"
  shows "\<exists>res. search E r field value limit = Inr res
    \<and> q_Rows res = take (nat (if limit = 0 then 1000 else limit))
        (map (render_row (en_std E) (reader_schema r) [0..<length (sch_Columns (reader_schema r))])
          (filter (\<lambda>row. \<exists>name \<in> set (resolve_search_columns (reader_schema r) field).
              row_matches (en_std E) (reader_schema r) row (Cmp name ''='' [value])) (concat tables)))"
proof -
  let ?sch = "reader_schema r" and ?cols = "resolve_search_columns (reader_schema r) field"
  obtain c cols where cols: "?cols = c # cols" using assms(3) by (cases ?cols) auto
  define st where "st = \<lparr>s_Aggregate = None, s_Star = True, s_Projection = [],
             s_Where = search_where value ?cols, s_Limit = limit\<rparr>"
  have known: "\<forall>name \<in> set ?cols. check_column ?sch name = Inr ()" using resolved_columns by blast
  let ?e = "search_or value (Cmp c ''='' [value]) cols"
  have w: "s_Where st = Some ?e" by (simp add: st_def cols search_where_Cons)
  have ok: "validate_expr ?sch ?e = Inr () \<and> expr_vals ?e"
    using known by (intro search_or_ok) (simp_all add: cols)
  have "where_ok r (s_Where st)" using ok w by (simp add: where_ok_def)
  then obtain res where res: "exec_rows E r st = Inr res"
    "q_Rows res = take (row_limit st) (map (render_row (en_std E) ?sch (output_cols ?sch st))
       (matching (en_std E) ?sch (s_Where st) (concat tables)))"
    using exec_rows_ok [OF assms(1,2), of st] by (auto simp: st_def)
  have "validate_stmt ?sch st = Inr ()"
    using ok w by (simp add: validate_stmt_iff) (simp add: st_def)
  then have "search E r field value limit = Inr res"
    using assms(3) res(1) by (simp add: search_def execute_def st_def Let_def)
  moreover have "satisfies (en_std E) ?sch (s_Where st)
      = (\<lambda>row. \<exists>name \<in> set ?cols. row_matches (en_std E) ?sch row (Cmp name ''='' [value]))"
    unfolding w cols by (rule ext) (auto simp: satisfies_def search_or_matches simp del: row_matches.simps)
  moreover have "output_cols ?sch st = [0..<length (sch_Columns ?sch)]" "row_limit st = nat (if limit = 0 then 1000 else limit)"
    by (simp_all add: output_cols_def row_limit_def st_def DefaultRowLimit_def)
  ultimately show ?thesis using res(2) by (simp add: matching_def)
qed

text \<open>
  C13: a search succeeds whenever the field resolves to columns of the schema, and returns all
  columns of the rows in which one of these columns holds the value, in the order of the
  file and as many as the limit allows; a field that resolves to no column is refused.
\<close>

theorem search_exact:
  assumes "roaring_ok (en_R E)" and "file_holds E r tables" and "resolve_search_columns (reader_schema r) field \<noteq> []"
  shows "\<exists>res. search E r field value limit = Inr res
    \<and> q_Rows res = take (nat (if limit = 0 then 1000 else limit))
        (map (render_row (en_std E) (reader_schema r) [0..<length (sch_Columns (reader_schema r))])
          (filter (\<lambda>row. \<exists>name \<in> set (resolve_search_columns (reader_schema r) field).
              row_matches (en_std E) (reader_schema r) row (Cmp name ''='' [value])) (concat tables)))"
  using assms by (rule search_ok)

theorem search_exact_witness:
  "\<exists>r res. search sample_engine r ''m'' ''a'' 10 = Inr res \<and> q_Rows res = [[''a'']]"
proof -
  obtain r where r: "roaring_ok (en_R sample_engine)" "en_std sample_engine = sample_std" "reader_schema r = sample_table"
    "file_holds sample_engine r [[[BytesCell [97]]], [[BytesCell [98]]]]" by (rule sample_held)
  have c: "resolve_search_columns sample_table ''m'' = [''m'']" by code_simp
  have "take (nat (if 10 = (0 :: int) then 1000 else 10))
        (map (render_row sample_std sample_table [0..<length (sch_Columns sample_table)])
          (filter (\<lambda>row. \<exists>name \<in> set [''m''].
              row_matches sample_std sample_table row (Cmp name ''='' [''a''])) [[BytesCell [97]], [BytesCell [98]]])) = [[''a'']]"
    by code_simp
  with search_exact [OF r(1,4), of "''m''" "''a''" 10] show ?thesis
    by (auto simp: r(2,3) c)
qed

section \<open>Files\<close>



section \<open>Crashes\<close>



end
