(* ===== verification/Facade.thy ===== *)
theory Facade
  imports Queries
begin

text \<open>
  The outer layer of the reader: the display names of types and codecs, the summary of a
  file (\<open>Info\<close> of \<open>pkg/ntcf/reader.go\<close>) and how the commands of \<open>cmd/ntcf\<close> print it and
  the results of queries. The alignment of columns by \<open>text/tabwriter\<close>, the formatting of
  times and of numbers with two decimals are parameters.
\<close>

section \<open>Display names\<close>

definition unknown_name :: "u8 \<Rightarrow> string" where
  "unknown_name x = ''unknown('' @ show_nat (unat x) @ '')''"

definition enc_name :: "enc_id \<Rightarrow> string" where
  "enc_name cid =
     (if cid = Plain then ''plain''
      else if cid = Varint then ''varint''
      else if cid = Delta then ''delta''
      else if cid = DeltaOfDelta then ''delta-of-delta''
      else if cid = RLEInt then ''rle''
      else if cid = Bitpack then ''bitpack-for''
      else if cid = DictInt then ''dict-int''
      else if cid = Raw then ''raw''
      else if cid = DictBytes then ''dict-bytes''
      else if cid = RLEBytes then ''rle-bytes''
      else unknown_name cid)"

definition enc_is_integer :: "enc_id \<Rightarrow> bool" where
  "enc_is_integer cid \<longleftrightarrow> cid < 64"

definition comp_name :: "comp_id \<Rightarrow> string" where
  "comp_name cid =
     (if cid = CompNone then ''none'' else if cid = Zstd then ''zstd'' else if cid = LZ4 then ''lz4''
      else unknown_name cid)"

definition kind_name :: "kind \<Rightarrow> string" where
  "kind_name k = (if k = KindBytes then ''bytes'' else ''int'')"

definition type_name :: "logical_type \<Rightarrow> string" where
  "type_name t =
     (if t = TypeTimestamp then ''timestamp''
      else if t = TypeIP then ''ip''
      else if t = TypeUint then ''uint''
      else if t = TypePort then ''port''
      else if t = TypeEnum then ''enum''
      else if t = TypeString then ''string''
      else if t = TypeBool then ''bool''
      else unknown_name t)"

text \<open>The version banner; the commit and the build date are set at link time.\<close>

definition version_banner :: "string \<Rightarrow> string \<Rightarrow> string \<Rightarrow> string" where
  "version_banner software commit buildDate =
     ''ntcf '' @ software @ '' (format v'' @ show_nat (unat CurrentFormat) @ '', commit '' @ commit @ '', built '' @ buildDate @ '')''"

text \<open>The name of a compression on the command line.\<close>

definition parse_compression :: "string \<Rightarrow> comp_id option" where
  "parse_compression s =
     (let t = map lower s in
      if t = ''none'' then Some CompNone
      else if t = ''zstd'' then Some Zstd
      else if t = ''lz4'' then Some LZ4
      else None)"

section \<open>Summary of a file\<close>

record column_info =
  ci_Name :: bytes
  ci_Type :: string
  ci_Index :: bool

record segment_info =
  si_Rows :: u64
  si_Bytes :: u64
  si_MinTS :: u64
  si_MaxTS :: u64

record file_info =
  fi_FormatVersion :: u16
  fi_SourceType :: bytes
  fi_SchemaName :: bytes
  fi_SchemaID :: u32
  fi_TotalRows :: u64
  fi_FileSize :: nat
  fi_MinTS :: u64
  fi_MaxTS :: u64
  fi_Columns :: "column_info list"
  fi_Segments :: "segment_info list"

definition reader_size :: "reader \<Rightarrow> nat" where
  "reader_size r = length (r_data r)"

definition reader_info :: "reader \<Rightarrow> file_info" where
  "reader_info r =
     (let f = r_footer r; sch = f_Schema f in
      \<lparr>fi_FormatVersion = h_Version (r_header r), fi_SourceType = f_SourceType f, fi_SchemaName = sch_Name sch,
       fi_SchemaID = sch_ID sch, fi_TotalRows = f_TotalRows f, fi_FileSize = reader_size r, fi_MinTS = f_MinTS f,
       fi_MaxTS = f_MaxTS f,
       fi_Columns = map (\<lambda>c. \<lparr>ci_Name = col_Name c, ci_Type = type_name (col_Type c), ci_Index = col_Indexed c\<rparr>) (sch_Columns sch),
       fi_Segments = map (\<lambda>seg. \<lparr>si_Rows = sd_Rows seg, si_Bytes = sd_Length seg, si_MinTS = sd_MinTS seg,
          si_MaxTS = sd_MaxTS seg\<rparr>) (f_Segments f)\<rparr>)"

section \<open>Printing\<close>

definition or_dash :: "string \<Rightarrow> string" where
  "or_dash s = (if s = '''' then ''-'' else s)"

definition column_rows :: "file_info \<Rightarrow> string list list" where
  "column_rows fi = map (\<lambda>c. [from_bytes (ci_Name c), ci_Type c, if ci_Index c then ''yes'' else ''no'']) (fi_Columns fi)"

text \<open>
  What \<open>printTable\<close> writes into the tab writer, and the writer's alignment \<open>tabbed\<close>.
\<close>

definition nl :: string where "nl = [CHR 0x0A]"
definition tab :: string where "tab = [CHR 0x09]"

fun tab_row :: "string list \<Rightarrow> string" where
  "tab_row [] = nl"
| "tab_row [c] = c @ nl"
| "tab_row (c # d # cs) = c @ tab @ tab_row (d # cs)"

definition print_table :: "(string \<Rightarrow> string) \<Rightarrow> string list \<Rightarrow> string list list \<Rightarrow> string" where
  "print_table tabbed hdr rows = tabbed (tab_row hdr @ concat (map tab_row rows))"

definition print_result :: "(string \<Rightarrow> string) \<Rightarrow> qresult \<Rightarrow> string" where
  "print_result tabbed res =
     (case q_Kind res of
        KindCount \<Rightarrow> ''count: '' @ show_nat (unat (q_Count res)) @ nl
      | _ \<Rightarrow> print_table tabbed (q_Columns res) (q_Rows res))
     @ (if 0 < q_Pruned res \<or> 0 < q_Scanned res
        then nl @ ''('' @ show_nat (q_Scanned res) @ '' segment(s) scanned, '' @ show_nat (q_Pruned res) @ '' pruned by index)'' @ nl
        else [])"

text \<open>
  Sizes for people. \<open>ratio2\<close> prints a quotient with two decimals. The loop halves its
  argument ten times a round, and \<open>exp\<close> then indexes the six unit letters.
\<close>

function unit_loop :: "int \<Rightarrow> int \<Rightarrow> nat \<Rightarrow> int \<times> nat" where
  "unit_loop x d e = (if 1024 \<le> x then unit_loop (x div 1024) (d * 1024) (e + 1) else (d, e))"
  by pat_completeness auto
termination by (relation "measure (\<lambda>(x, _). nat x)") auto

declare unit_loop.simps [simp del]

definition show_int :: "int \<Rightarrow> string" where
  "show_int n = (if n < 0 then ''-'' @ show_nat (nat (- n)) else show_nat (nat n))"

definition human_bytes :: "(int \<Rightarrow> int \<Rightarrow> string) \<Rightarrow> int \<Rightarrow> string res" where
  "human_bytes ratio2 n =
     (if n < 1024 then Inr (show_int n @ '' B'')
      else case unit_loop (n div 1024) 1024 0 of
        (d, e) \<Rightarrow> bindE (index_at ''KMGTPE'' e) (\<lambda>u. Inr (ratio2 n d @ '' '' @ [u] @ ''iB'')))"

definition print_info :: "(string \<Rightarrow> string) \<Rightarrow> (int \<Rightarrow> int \<Rightarrow> string) \<Rightarrow> (u64 \<Rightarrow> string) \<Rightarrow> string \<Rightarrow> file_info \<Rightarrow> string res" where
  "print_info tabbed ratio2 rfc3339 path fi =
     bindE (human_bytes ratio2 (int (fi_FileSize fi))) (\<lambda>size. Inr (
       ''File:        '' @ path @ nl
       @ ''Format:      v'' @ show_nat (unat (fi_FormatVersion fi)) @ nl
       @ ''Source:      '' @ or_dash (from_bytes (fi_SourceType fi)) @ nl
       @ ''Schema:      '' @ from_bytes (fi_SchemaName fi) @ '' (id '' @ show_nat (unat (fi_SchemaID fi)) @ '')'' @ nl
       @ ''Rows:        '' @ show_nat (unat (fi_TotalRows fi)) @ nl
       @ ''Size:        '' @ size @ nl
       @ ''Segments:    '' @ show_nat (length (fi_Segments fi)) @ nl
       @ (if fi_MinTS fi \<noteq> 0 \<or> fi_MaxTS fi \<noteq> 0
          then ''Time range:  '' @ rfc3339 (fi_MinTS fi) @ '' .. '' @ rfc3339 (fi_MaxTS fi) @ nl else [])
       @ nl @ ''Columns:'' @ nl
       @ print_table tabbed [''name'', ''type'', ''indexed''] (column_rows fi)))"

section \<open>Facts\<close>

lemma unit_loop_exp: "x < 2 ^ (10 * (k + 1)) \<Longrightarrow> snd (unit_loop x d e) \<le> e + k"
proof (induction k arbitrary: x d e)
  case 0
  then show ?case by (subst unit_loop.simps) simp
next
  case (Suc k)
  have "x div 1024 < 2 ^ (10 * (k + 1))" if "1024 \<le> x"
    using Suc.prems that by (simp add: power_add)
  with Suc.IH [of "x div 1024" "d * 1024" "e + 1"] show ?case by (subst unit_loop.simps) auto
qed

text \<open>Every size of 64 bits is printed: the unit letter is never out of range.\<close>

lemma human_bytes_total:
  assumes "n < 2 ^ 63"
  shows "\<exists>s. human_bytes ratio2 n = Inr s"
proof (cases "n < 1024")
  case False
  obtain d e where de: "unit_loop (n div 1024) 1024 0 = (d, e)" by fastforce
  have "n div 1024 < 2 ^ (10 * (5 + 1))" using assms by simp
  from unit_loop_exp [OF this, of 1024 0] have "e < 6" by (simp add: de)
  then show ?thesis using False by (simp add: human_bytes_def de index_at_def)
qed (simp add: human_bytes_def)

lemma parse_comp_name: "cid \<in> {CompNone, Zstd, LZ4} \<Longrightarrow> parse_compression (comp_name cid) = Some cid"
  by (auto simp: comp_name_def parse_compression_def lower_def)

section \<open>The summary is that of the content\<close>

text \<open>
  The summary of a file that holds given tables has their number of rows, in total and
  segment by segment, and the names, types and index flags of the schema, in order.
\<close>

theorem reader_info_exact:
  assumes "file_holds E r tables"
  shows "unat (fi_TotalRows (reader_info r)) = length (concat tables)
    \<and> map (\<lambda>s. unat (si_Rows s)) (fi_Segments (reader_info r)) = map length tables
    \<and> map ci_Name (fi_Columns (reader_info r)) = map col_Name (sch_Columns (reader_schema r))
    \<and> column_rows (reader_info r) = map (\<lambda>c. [from_bytes (col_Name c), type_name (col_Type c), if col_Indexed c then ''yes'' else ''no''])
        (sch_Columns (reader_schema r))"
proof (intro conjI)
  have len: "length tables = length (reader_segments r)" using assms by (simp add: file_holds_def)
  have "unat (sd_Rows (reader_segments r ! i)) = length (tables ! i)" if "i < length tables" for i
    using assms that by (simp add: file_holds_def segment_holds_def Let_def)
  then show "map (\<lambda>s. unat (si_Rows s)) (fi_Segments (reader_info r)) = map length tables"
    using len by (intro nth_equalityI) (simp_all add: reader_info_def Let_def)
  show "unat (fi_TotalRows (reader_info r)) = length (concat tables)"
    using assms by (simp add: reader_info_def Let_def file_holds_def)
qed (simp_all add: reader_info_def Let_def reader_schema_def column_rows_def)

theorem reader_info_exact_witness:
  "\<exists>r. unat (fi_TotalRows (reader_info r)) = 2 \<and> map (\<lambda>s. unat (si_Rows s)) (fi_Segments (reader_info r)) = [1, 1]
     \<and> column_rows (reader_info r) = [[''m'', ''string'', ''no'']]"
proof -
  obtain r where r: "reader_schema r = sample_table" "file_holds sample_engine r [[[BytesCell [97]]], [[BytesCell [98]]]]"
    by (rule sample_held)
  have "map (\<lambda>c. [from_bytes (col_Name c), type_name (col_Type c), if col_Indexed c then ''yes'' else ''no''])
      (sch_Columns sample_table) = [[''m'', ''string'', ''no'']]" by code_simp
  then show ?thesis using reader_info_exact [OF r(2)] r(1) by (intro exI [of _ r]) simp
qed

end
