(* ===== verification/Tail.thy ===== *)
theory Tail
  imports Prelude "HOL-Library.Sublist"
begin

text \<open>
  The follower of a growing file, \<open>internal/ingest/tail.go\<close>. Time is the count of polls:
  \<open>files k\<close> is the content of the file at the k-th poll (\<open>None\<close> when reading fails) and
  \<open>stop k\<close> says whether the context is done after it. \<open>Read\<close> may poll forever, so it is a
  partial function to options.
\<close>

section \<open>The follower\<close>

datatype read_end = ReadOk | ReadEOF | ReadFailed

record tailer =
  tl_pos :: nat
  tl_poll :: nat
  tl_interval :: nat

definition new_tailer :: "string option \<Rightarrow> bool \<Rightarrow> int \<Rightarrow> tailer option" where
  "new_tailer content fromEnd interval =
     (case content of
        None \<Rightarrow> None
      | Some f \<Rightarrow> Some \<lparr>tl_pos = (if fromEnd then length f else 0), tl_poll = 0,
          tl_interval = (if interval \<le> 0 then 200000000 else nat interval)\<rparr>)"

text \<open>\<open>os.File.Read\<close> into a buffer of \<open>m\<close> bytes.\<close>

definition os_read :: "string option \<Rightarrow> nat \<Rightarrow> nat \<Rightarrow> string \<times> read_end" where
  "os_read content m pos =
     (case content of
        None \<Rightarrow> ([], ReadFailed)
      | Some f \<Rightarrow> if m = 0 then ([], ReadOk)
          else if length f \<le> pos then ([], ReadEOF)
          else (take m (drop pos f), ReadOk))"

partial_function (option) tail_read :: "(nat \<Rightarrow> string option) \<Rightarrow> (nat \<Rightarrow> bool) \<Rightarrow> nat \<Rightarrow> tailer
    \<Rightarrow> (string \<times> read_end \<times> tailer) option" where
  "tail_read files stop m t =
     (case os_read (files (tl_poll t)) m (tl_pos t) of
        (p, err) \<Rightarrow>
          let t1 = t\<lparr>tl_pos := tl_pos t + length p, tl_poll := tl_poll t + 1\<rparr> in
          if p \<noteq> [] then Some (p, ReadOk, t1)
          else if err = ReadFailed then Some ([], ReadFailed, t1)
          else if stop (tl_poll t) then Some ([], ReadEOF, t1)
          else tail_read files stop m t1)"

section \<open>When a read returns\<close>

text \<open>A poll that ends the wait.\<close>

definition wakes :: "(nat \<Rightarrow> string option) \<Rightarrow> (nat \<Rightarrow> bool) \<Rightarrow> nat \<Rightarrow> nat \<Rightarrow> nat \<Rightarrow> bool" where
  "wakes files stop m pos k \<longleftrightarrow> fst (os_read (files k) m pos) \<noteq> [] \<or> files k = None \<or> stop k"

lemma os_read_failed [simp]: "snd (os_read content m pos) = ReadFailed \<longleftrightarrow> content = None"
  by (simp add: os_read_def split: option.split)

lemma os_read_length: "length (fst (os_read content m pos)) \<le> m"
  by (simp add: os_read_def split: option.split)

definition woken :: "(nat \<Rightarrow> string option) \<Rightarrow> nat \<Rightarrow> tailer \<Rightarrow> nat \<Rightarrow> string \<times> read_end \<times> tailer" where
  "woken files m t k =
     (let p = fst (os_read (files k) m (tl_pos t)) in
      (p, (if p \<noteq> [] then ReadOk else if files k = None then ReadFailed else ReadEOF),
       t\<lparr>tl_pos := tl_pos t + length p, tl_poll := k + 1\<rparr>))"

lemma tail_read_now:
  assumes "wakes files stop m (tl_pos t) (tl_poll t)"
  shows "tail_read files stop m t = Some (woken files m t (tl_poll t))"
proof -
  obtain p err where rd: "os_read (files (tl_poll t)) m (tl_pos t) = (p, err)" by fastforce
  have "err = ReadFailed \<longleftrightarrow> files (tl_poll t) = None"
    using os_read_failed [of "files (tl_poll t)" m "tl_pos t"] by (simp add: rd del: os_read_failed)
  then show ?thesis using assms rd by (subst tail_read.simps) (auto simp: wakes_def woken_def Let_def)
qed

lemma tail_read_later:
  assumes "\<not> wakes files stop m (tl_pos t) (tl_poll t)"
  shows "tail_read files stop m t = tail_read files stop m (t\<lparr>tl_poll := tl_poll t + 1\<rparr>)"
proof -
  obtain p err where rd: "os_read (files (tl_poll t)) m (tl_pos t) = (p, err)" by fastforce
  have "err = ReadFailed \<longleftrightarrow> files (tl_poll t) = None"
    using os_read_failed [of "files (tl_poll t)" m "tl_pos t"] by (simp add: rd del: os_read_failed)
  then have "p = []" "err \<noteq> ReadFailed" "\<not> stop (tl_poll t)" using assms rd by (simp_all add: wakes_def)
  then show ?thesis using rd by (subst tail_read.simps) (simp add: Let_def)
qed

lemma tail_read_wakes:
  assumes "wakes files stop m (tl_pos t) (tl_poll t + n)" and "\<forall>i < n. \<not> wakes files stop m (tl_pos t) (tl_poll t + i)"
  shows "tail_read files stop m t = Some (woken files m t (tl_poll t + n))"
  using assms
proof (induction n arbitrary: t)
  case 0
  then show ?case by (simp add: tail_read_now)
next
  case (Suc n)
  let ?t1 = "t\<lparr>tl_poll := tl_poll t + 1\<rparr>"
  have "\<not> wakes files stop m (tl_pos t) (tl_poll t + 0)" using Suc.prems(2) by blast
  then have step: "tail_read files stop m t = tail_read files stop m ?t1" by (simp add: tail_read_later)
  have "wakes files stop m (tl_pos ?t1) (tl_poll ?t1 + n)" using Suc.prems(1) by simp
  moreover have "\<forall>i < n. \<not> wakes files stop m (tl_pos ?t1) (tl_poll ?t1 + i)"
  proof (intro allI impI)
    fix i assume "i < n"
    then have "\<not> wakes files stop m (tl_pos t) (tl_poll t + Suc i)" using Suc.prems(2) by blast
    then show "\<not> wakes files stop m (tl_pos ?t1) (tl_poll ?t1 + i)" by simp
  qed
  ultimately have "tail_read files stop m ?t1 = Some (woken files m ?t1 (tl_poll ?t1 + n))" by (rule Suc.IH)
  then show ?case using step by (simp add: woken_def Let_def)
qed

lemma tail_read_sleeps:
  assumes "tail_read files stop m t = Some res"
  shows "\<exists>n. wakes files stop m (tl_pos t) (tl_poll t + n)"
proof (rule tail_read.raw_induct [OF _ assms, where P = "\<lambda>files stop m t res. \<exists>n. wakes files stop m (tl_pos t) (tl_poll t + n)"])
  fix rec files stop m t res
  assume IH: "\<And>files stop m t res. rec files stop m t = Some res \<Longrightarrow> \<exists>n. wakes files stop m (tl_pos t) (tl_poll t + n)"
    and body: "(case os_read (files (tl_poll t)) m (tl_pos t) of
        (p, err) \<Rightarrow>
          let t1 = t\<lparr>tl_pos := tl_pos t + length p, tl_poll := tl_poll t + 1\<rparr> in
          if p \<noteq> [] then Some (p, ReadOk, t1)
          else if err = ReadFailed then Some ([], ReadFailed, t1)
          else if stop (tl_poll t) then Some ([], ReadEOF, t1)
          else rec files stop m t1) = Some res"
  show "\<exists>n. wakes files stop m (tl_pos t) (tl_poll t + n)"
  proof (cases "wakes files stop m (tl_pos t) (tl_poll t)")
    case True
    then show ?thesis by (intro exI [of _ 0]) simp
  next
    case False
    obtain p err where rd: "os_read (files (tl_poll t)) m (tl_pos t) = (p, err)" by fastforce
    have "err = ReadFailed \<longleftrightarrow> files (tl_poll t) = None"
      using os_read_failed [of "files (tl_poll t)" m "tl_pos t"] by (simp add: rd del: os_read_failed)
    then have "rec files stop m (t\<lparr>tl_poll := tl_poll t + 1\<rparr>) = Some res"
      using False rd body by (auto simp: wakes_def Let_def)
    from IH [OF this] obtain n where "wakes files stop m (tl_pos t) (tl_poll t + Suc n)" by auto
    then show ?thesis by blast
  qed
qed

lemma tail_read_outcome:
  "tail_read files stop m t =
     (if \<exists>n. wakes files stop m (tl_pos t) (tl_poll t + n)
      then Some (woken files m t (tl_poll t + (LEAST n. wakes files stop m (tl_pos t) (tl_poll t + n)))) else None)"
proof (cases "\<exists>n. wakes files stop m (tl_pos t) (tl_poll t + n)")
  case True
  let ?n = "LEAST n. wakes files stop m (tl_pos t) (tl_poll t + n)"
  have "wakes files stop m (tl_pos t) (tl_poll t + ?n)" using True by (rule LeastI_ex)
  moreover have "\<forall>i < ?n. \<not> wakes files stop m (tl_pos t) (tl_poll t + i)" using not_less_Least by blast
  ultimately show ?thesis using True tail_read_wakes by simp
next
  case False
  then show ?thesis using tail_read_sleeps [of files stop m t] by (cases "tail_read files stop m t") auto
qed

text \<open>
  C31: a read returns if and only if some poll from now on finds data, fails or finds the
  context done, and then with the outcome of the first such poll: data whenever there is
  some, end of file only when the context is done.
\<close>

theorem tail_read_returns:
  "tail_read files stop m t =
     (if \<exists>n. wakes files stop m (tl_pos t) (tl_poll t + n)
      then Some (woken files m t (tl_poll t + (LEAST n. wakes files stop m (tl_pos t) (tl_poll t + n)))) else None)"
  by (rule tail_read_outcome)

section \<open>What successive reads deliver\<close>

text \<open>The bytes of \<open>n\<close> reads in a row, and the follower after them.\<close>

fun tail_reads :: "(nat \<Rightarrow> string option) \<Rightarrow> (nat \<Rightarrow> bool) \<Rightarrow> nat \<Rightarrow> nat \<Rightarrow> tailer \<Rightarrow> (string \<times> tailer) option" where
  "tail_reads files stop m 0 t = Some ([], t)"
| "tail_reads files stop m (Suc n) t =
     (case tail_read files stop m t of
        None \<Rightarrow> None
      | Some (p, _, t1) \<Rightarrow> map_option (\<lambda>(q, t2). (p @ q, t2)) (tail_reads files stop m n t1))"

text \<open>A file that is only appended to.\<close>

definition appended :: "(nat \<Rightarrow> string option) \<Rightarrow> bool" where
  "appended files \<longleftrightarrow> (\<forall>i j. i \<le> j \<longrightarrow> (case (files i, files j) of (Some f, Some g) \<Rightarrow> prefix f g | _ \<Rightarrow> True))"

lemma tail_read_delivers:
  assumes "tail_read files stop m t = Some (p, e, t1)" and "appended files" and "files k = Some f" and "tl_poll t1 \<le> Suc k"
  shows "p = take (length p) (drop (tl_pos t) f) \<and> tl_pos t1 = tl_pos t + length p \<and> tl_poll t < tl_poll t1"
proof -
  obtain n where w: "(p, e, t1) = woken files m t (tl_poll t + n)"
    using assms(1) tail_read_outcome [of files stop m t] by (metis option.distinct(1) option.inject)
  have p: "p = fst (os_read (files (tl_poll t + n)) m (tl_pos t))" and t1: "t1 = t\<lparr>tl_pos := tl_pos t + length p, tl_poll := tl_poll t + n + 1\<rparr>"
    using w by (simp_all add: woken_def Let_def)
  have "p = take (length p) (drop (tl_pos t) f)"
  proof (cases "files (tl_poll t + n)")
    case (Some g)
    have "tl_poll t + n \<le> k" using assms(4) t1 by simp
    then have "prefix g f" using assms(2,3) Some by (fastforce simp: appended_def)
    then obtain h where f: "f = g @ h" by (auto simp: prefix_def)
    have "p = take m (drop (tl_pos t) g)" using p Some by (simp add: os_read_def split: if_splits)
    then show ?thesis by (simp add: f min_def)
  qed (use p in \<open>simp add: os_read_def\<close>)
  then show ?thesis using t1 by simp
qed

lemma tail_reads_poll: "tail_reads files stop m n t = Some (q, t') \<Longrightarrow> tl_poll t \<le> tl_poll t'"
proof (induction n arbitrary: t q)
  case (Suc n)
  then obtain p e t1 q1 where r: "tail_read files stop m t = Some (p, e, t1)" "tail_reads files stop m n t1 = Some (q1, t')"
    by (auto split: option.splits)
  have "tl_poll t \<le> tl_poll t1"
    using r(1) tail_read_outcome [of files stop m t] by (auto simp: woken_def Let_def split: if_splits)
  then show ?case using Suc.IH [OF r(2)] by simp
qed simp

text \<open>
  Following a file that is only appended to, the bytes of any number of reads in a row
  are exactly the bytes of the file from the position the follower had: nothing is lost,
  repeated or reordered, however the file grows between the polls.
\<close>

lemma tail_reads_deliver:
  assumes "tail_reads files stop m n t = Some (q, t')" and "appended files" and "files k = Some f" and "tl_poll t' \<le> Suc k"
  shows "q = take (length q) (drop (tl_pos t) f) \<and> tl_pos t' = tl_pos t + length q"
  using assms(1,4)
proof (induction n arbitrary: t q)
  case (Suc n)
  then obtain p e t1 q1 where r: "tail_read files stop m t = Some (p, e, t1)" "tail_reads files stop m n t1 = Some (q1, t')"
    "q = p @ q1" by (auto split: option.splits)
  have k: "tl_poll t1 \<le> Suc k" using tail_reads_poll [OF r(2)] Suc.prems(2) by simp
  have p: "p = take (length p) (drop (tl_pos t) f)" "tl_pos t1 = tl_pos t + length p"
    using tail_read_delivers [OF r(1) assms(2,3) k] by simp_all
  have q: "q1 = take (length q1) (drop (tl_pos t1) f)" "tl_pos t' = tl_pos t1 + length q1"
    using Suc.IH [OF r(2) Suc.prems(2)] by simp_all
  have "take (length p + length q1) (drop (tl_pos t) f) = p @ q1"
    using p q(1) by (metis add.commute drop_drop take_add)
  then show ?case using p(2) q(2) r(3) by simp
qed simp

end
