(* ===== verification/Pack.thy ===== *)
theory Pack
  imports Ingest Facade Tail
begin

text \<open>
  The inputs of an ingestion: the scanner that cuts them into lines, the concatenation of
  several files, and the work of the command \<open>pack\<close> of \<open>cmd/ntcf\<close>. The scanner is
  \<open>bufio.Scanner\<close> with its limit on the length of a line.
\<close>

section \<open>Lines\<close>

definition newline :: char where "newline = CHR 0x0A"

definition drop_cr :: "string \<Rightarrow> string" where
  "drop_cr l = (if l \<noteq> [] \<and> last l = CHR 0x0D then butlast l else l)"

text \<open>The lines scanned from a text and whether the scanner gave up on one too long.\<close>

function scan_lines :: "nat \<Rightarrow> string \<Rightarrow> string list \<times> bool" where
  "scan_lines lim s =
     (if s = [] then ([], False)
      else let l = takeWhile (\<lambda>c. c \<noteq> newline) s in
        if lim \<le> length l then ([], True)
        else case scan_lines lim (drop (length l + 1) s) of (ls, long) \<Rightarrow> (drop_cr l # ls, long))"
  by pat_completeness auto
termination by (relation "measure (\<lambda>(_, s). length s)") auto

declare scan_lines.simps [simp del]

definition DefaultMaxLineBytes :: int where "DefaultMaxLineBytes = 4 * 2 ^ 20"

text \<open>The scanner starts with a buffer of 64 KiB, so a smaller limit has no effect.\<close>

definition line_limit :: "int \<Rightarrow> nat" where
  "line_limit maxLine = max (nat (if maxLine \<le> 0 then DefaultMaxLineBytes else maxLine)) (64 * 2 ^ 10)"

section \<open>Inputs\<close>

text \<open>The files that can be opened, each followed by a newline; \<open>None\<close> is one that cannot.\<close>

fun concat_inputs :: "string option list \<Rightarrow> string option" where
  "concat_inputs [] = Some []"
| "concat_inputs (None # fs) = None"
| "concat_inputs (Some c # fs) = map_option (\<lambda>r. c @ [newline] @ r) (concat_inputs fs)"

text \<open>Without arguments the standard input is read, as it is.\<close>

definition open_inputs :: "string \<Rightarrow> string option list \<Rightarrow> string option" where
  "open_inputs stdin files = (if files = [] then Some stdin else concat_inputs files)"

definition background :: "string \<Rightarrow> line_event" where
  "background l = \<lparr>le_Done = None, le_Line = l, le_Due = False\<rparr>"

text \<open>\<open>Run\<close> on a text, with a context that is never done; \<open>readErr\<close> is an error of the input at its end.\<close>

definition ingest_text :: "'bm wenv \<Rightarrow> 'f source_env \<Rightarrow> ingest_options \<Rightarrow> int \<Rightarrow> bool \<Rightarrow> string
    \<Rightarrow> ingest_stats \<times> run_error option \<times> writer option" where
  "ingest_text V S opts maxLine readErr input =
     (case scan_lines (line_limit maxLine) input of
        (ls, long) \<Rightarrow> ingest_run V S opts (long \<or> readErr) (map background ls))"

datatype pack_error = BadCompression | NoInput | NoOutput | NotCreated | RunFailed run_error | NotSynced

record pack_flags =
  pf_Source :: string
  pf_Out :: string
  pf_Compression :: string
  pf_ZstdLevel :: int
  pf_SegmentRows :: int
  pf_Inverted :: bool

definition pack_options :: "pack_flags \<Rightarrow> comp_id \<Rightarrow> ingest_options" where
  "pack_options fl cid = \<lparr>io_Source = pf_Source fl, io_Compression = cid, io_ZstdLevel = pf_ZstdLevel fl,
     io_SegmentRows = pf_SegmentRows fl, io_BuildInverted = pf_Inverted fl, io_Checkpoint = 0\<rparr>"

text \<open>
  The command \<open>pack\<close>: its statistics and the writer, with the bytes of the output file;
  \<open>created\<close> and \<open>synced\<close> are whether \<open>os.Create\<close> and \<open>Sync\<close> succeed on it.
\<close>

definition pack :: "'bm wenv \<Rightarrow> 'f source_env \<Rightarrow> pack_flags \<Rightarrow> bool \<Rightarrow> bool \<Rightarrow> string \<Rightarrow> string option list \<Rightarrow> pack_error + ingest_stats \<times> writer option" where
  "pack V S fl created synced stdin files =
     (case parse_compression (pf_Compression fl) of
        None \<Rightarrow> Inl BadCompression
      | Some cid \<Rightarrow>
          (case open_inputs stdin files of
             None \<Rightarrow> Inl NoInput
           | Some input \<Rightarrow>
               if pf_Out fl = '''' then Inl NoOutput
               else if \<not> created then Inl NotCreated
               else case ingest_text V S (pack_options fl cid) 0 False input of
                 (st, Some e, _) \<Rightarrow> Inl (RunFailed e)
               | (st, None, wo) \<Rightarrow> if synced then Inr (st, wo) else Inl NotSynced))"

section \<open>Several files\<close>

lemma scan_lines_Nil [simp]: "scan_lines lim [] = ([], False)"
  by (simp add: scan_lines.simps)

lemma scan_line:
  assumes "newline \<notin> set l" and "length l < lim"
  shows "scan_lines lim (l @ newline # s) = (drop_cr l # fst (scan_lines lim s), snd (scan_lines lim s))"
proof -
  have "takeWhile (\<lambda>c. c \<noteq> newline) (l @ newline # s) = l" using assms(1) by (rule takeWhile_stop)
  then show ?thesis using assms(2) by (subst scan_lines.simps) (simp add: Let_def split: prod.split)
qed

text \<open>The texts whose lines all fit.\<close>

definition lines_fit :: "nat \<Rightarrow> string \<Rightarrow> bool" where
  "lines_fit lim s \<longleftrightarrow> \<not> snd (scan_lines lim s)"

lemma scan_append:
  assumes "lines_fit lim a" and "0 < lim"
  shows "\<exists>blank. set blank \<subseteq> {[]} \<and> scan_lines lim (a @ newline # s)
    = (fst (scan_lines lim a) @ blank @ fst (scan_lines lim s), snd (scan_lines lim s))"
  using assms(1)
proof (induction "length a" arbitrary: a rule: less_induct)
  case less
  show ?case
  proof (cases "a = []")
    case True
    then show ?thesis using scan_line [of "[]" lim s] assms(2)
      by (intro exI [of _ "[[]]"]) (simp add: drop_cr_def)
  next
    case False
    let ?l = "takeWhile (\<lambda>c. c \<noteq> newline) a"
    have l: "newline \<notin> set ?l" by (auto dest: set_takeWhileD)
    have short: "length ?l < lim"
      using less.prems False by (subst (asm) lines_fit_def, subst (asm) scan_lines.simps) (auto simp: Let_def split: if_splits)
    show ?thesis
    proof (cases "dropWhile (\<lambda>c. c \<noteq> newline) a")
      case Nil
      then have a: "a = ?l" by (metis append_Nil2 takeWhile_dropWhile_id)
      then have "scan_lines lim a = ([drop_cr a], False)"
        using False short by (subst scan_lines.simps) (simp add: Let_def)
      then show ?thesis using scan_line [OF l short, of s] a by (intro exI [of _ "[]"]) simp
    next
      case (Cons c b)
      then have "c = newline" by (metis (mono_tags, lifting) dropWhile_eq_Cons_conv)
      then have a: "a = ?l @ newline # b" using Cons by (metis takeWhile_dropWhile_id)
      have sa: "scan_lines lim a = (drop_cr ?l # fst (scan_lines lim b), snd (scan_lines lim b))"
        using scan_line [OF l short, of b] a by simp
      have "lines_fit lim b" using less.prems sa by (simp add: lines_fit_def)
      moreover have "length b < length a" using a by (metis add_Suc_right length_Cons length_append less_add_Suc2 add.commute)
      ultimately obtain blank where "set blank \<subseteq> {[]}" "scan_lines lim (b @ newline # s)
          = (fst (scan_lines lim b) @ blank @ fst (scan_lines lim s), snd (scan_lines lim s))"
        using less.hyps by blast
      moreover have "scan_lines lim (a @ newline # s)
          = (drop_cr ?l # fst (scan_lines lim (b @ newline # s)), snd (scan_lines lim (b @ newline # s)))"
        using scan_line [OF l short, of "b @ newline # s"] a by (metis append.assoc append_Cons)
      ultimately show ?thesis using sa by auto
    qed
  qed
qed

lemma empty_line_skipped: "get_adapter name = Some ad \<Longrightarrow> ad_Decode ad S [] = None"
  by (auto simp: get_adapter_cases adapter_defs generic_flow_decode_def honeypot_decode_def web_access_decode_def
      json_event_def trim_space_def split: if_splits)

definition text_records :: "(string \<Rightarrow> row_record option) \<Rightarrow> nat \<Rightarrow> string \<Rightarrow> row_record list" where
  "text_records decode lim s = List.map_filter decode (fst (scan_lines lim s))"

lemma decoded_background: "decoded decode (map background ls) = List.map_filter decode ls"
  by (induction ls) (simp_all add: decoded_def lines_read_def background_def map_filter_simps split: option.split)

lemma map_filter_append: "List.map_filter f (xs @ ys) = List.map_filter f xs @ List.map_filter f ys"
  by (induction xs) (simp_all add: map_filter_simps split: option.split)

lemma map_filter_blank: "decode [] = None \<Longrightarrow> set blank \<subseteq> {[]} \<Longrightarrow> List.map_filter decode blank = []"
  by (induction blank) (simp_all add: map_filter_simps)

text \<open>The records of several inputs are those of each input in turn.\<close>

lemma concat_inputs_records:
  assumes "decode [] = None" and "0 < lim" and "list_all (lines_fit lim) cs"
  shows "\<exists>input. concat_inputs (map Some cs) = Some input \<and> lines_fit lim input
    \<and> text_records decode lim input = concat (map (text_records decode lim) cs)"
  using assms(3)
proof (induction cs)
  case (Cons c cs)
  then obtain input where i: "concat_inputs (map Some cs) = Some input" "lines_fit lim input"
    "text_records decode lim input = concat (map (text_records decode lim) cs)" by auto
  obtain blank where b: "set blank \<subseteq> {[]}" "scan_lines lim (c @ newline # input)
      = (fst (scan_lines lim c) @ blank @ fst (scan_lines lim input), snd (scan_lines lim input))"
    using scan_append [of lim c input] Cons.prems assms(2) by auto
  show ?case
    using i b map_filter_blank [of decode blank] assms(1)
    by (simp add: lines_fit_def) (simp add: text_records_def map_filter_append)
qed (simp add: lines_fit_def text_records_def map_filter_simps)

text \<open>The texts a pack reads.\<close>

definition sources :: "string \<Rightarrow> string list \<Rightarrow> string list" where
  "sources stdin inputs = (if inputs = [] then [stdin] else inputs)"

lemma open_inputs_records:
  assumes "decode [] = None" and "0 < lim" and "list_all (lines_fit lim) (sources stdin inputs)"
  shows "\<exists>input. open_inputs stdin (map Some inputs) = Some input \<and> lines_fit lim input
    \<and> text_records decode lim input = concat (map (text_records decode lim) (sources stdin inputs))"
  using concat_inputs_records [of decode lim inputs] assms by (simp add: open_inputs_def sources_def split: if_splits)

section \<open>The file of a pack\<close>

lemma ingest_ops_background: "ingest_ops decode 0 (map background ls) = map OpAppend (List.map_filter decode ls)"
  by (induction ls) (simp_all add: ingest_ops_def lines_read_def background_def event_ops_def map_filter_simps split: option.split)

lemma final_background: "final_error b (map background ls) = (if b then Some ScanErr else None)"
proof -
  have "dropWhile (\<lambda>e. le_Done e = None) (map background ls) = []"
    by (induction ls) (simp_all add: background_def)
  then show ?thesis unfolding final_error_def by (simp only: list.case)
qed

lemma line_limit_pos: "0 < line_limit maxLine"
  by (simp add: line_limit_def)

text \<open>
  The segments a file with these records has, and the condition that the codecs carry them.
\<close>

definition records_storable :: "'bm wenv \<Rightarrow> comp_id \<Rightarrow> writer_options \<Rightarrow> schema \<Rightarrow> row_record list \<Rightarrow> bool" where
  "records_storable V cid wo sch recs \<longleftrightarrow> list_all (table_storable (we_X V) cid (sch_Columns sch))
     (segments_of (wo_SegmentRows wo) (sch_Columns sch) (map OpAppend recs))"

lemma ingest_text_file:
  fixes S :: "'f source_env"
  assumes "env_ok V E" and "get_adapter (io_Source opts) = Some ad" and "io_Checkpoint opts = 0"
    and "writer_codec V (clamp_options (ingest_writer_options opts)) = Inr cid"
    and "lines_fit (line_limit maxLine) input"
    and "records_storable V cid (clamp_options (ingest_writer_options opts)) (ad_Schema ad)
        (text_records (ad_Decode ad S) (line_limit maxLine) input)"
  shows "\<exists>st w. ingest_text V S opts maxLine False input = (st, None, Some w)
    \<and> is_Records st = length (text_records (ad_Decode ad S) (line_limit maxLine) input)
    \<and> (readable w \<and> is_Records st < 2 ^ 64 \<longrightarrow>
        (\<exists>rd tables. new_reader (w_out w) = Inr rd \<and> reader_schema rd = ad_Schema ad \<and> file_holds E rd tables
          \<and> concat tables = map (record_cells (sch_Columns (ad_Schema ad)))
              (text_records (ad_Decode ad S) (line_limit maxLine) input)))"
proof -
  obtain ls where ls: "scan_lines (line_limit maxLine) input = (ls, False)"
    using assms(5) by (cases "scan_lines (line_limit maxLine) input") (simp add: lines_fit_def)
  have recs: "text_records (ad_Decode ad S) (line_limit maxLine) input = List.map_filter (ad_Decode ad S) ls"
    by (simp add: text_records_def ls)
  have "list_all (table_storable (we_X V) cid (sch_Columns (ad_Schema ad)))
        (segments_of (wo_SegmentRows (clamp_options (ingest_writer_options opts))) (sch_Columns (ad_Schema ad))
          (ingest_ops (ad_Decode ad S) (io_Checkpoint opts) (map background ls)))"
    using assms(6) by (simp add: records_storable_def recs assms(3) ingest_ops_background)
  from ingest_run_file [OF assms(1,2,4) this, of False] show ?thesis
    by (simp add: ingest_text_def ls final_background decoded_background recs) blast
qed

lemma pack_ok:
  fixes S :: "'f source_env"
  assumes "env_ok V E" and "get_adapter (pf_Source fl) = Some ad" and "parse_compression (pf_Compression fl) = Some cid"
    and "pf_Out fl \<noteq> []"
    and "writer_codec V (clamp_options (ingest_writer_options (pack_options fl cid))) = Inr cid1"
    and "list_all (lines_fit (line_limit 0)) (sources stdin inputs)"
    and "records_storable V cid1 (clamp_options (ingest_writer_options (pack_options fl cid))) (ad_Schema ad)
        (concat (map (text_records (ad_Decode ad S) (line_limit 0)) (sources stdin inputs)))"
  shows "\<exists>st w. pack V S fl True True stdin (map Some inputs) = Inr (st, Some w)
    \<and> is_Records st = length (concat (map (text_records (ad_Decode ad S) (line_limit 0)) (sources stdin inputs)))
    \<and> (readable w \<and> is_Records st < 2 ^ 64 \<longrightarrow>
        (\<exists>rd tables. new_reader (w_out w) = Inr rd \<and> reader_schema rd = ad_Schema ad \<and> file_holds E rd tables
          \<and> concat tables = map (record_cells (sch_Columns (ad_Schema ad)))
              (concat (map (text_records (ad_Decode ad S) (line_limit 0)) (sources stdin inputs)))))"
proof -
  obtain input where i: "open_inputs stdin (map Some inputs) = Some input" "lines_fit (line_limit 0) input"
    "text_records (ad_Decode ad S) (line_limit 0) input = concat (map (text_records (ad_Decode ad S) (line_limit 0)) (sources stdin inputs))"
    using open_inputs_records [of "ad_Decode ad S" "line_limit 0" stdin inputs, OF empty_line_skipped [OF assms(2)] line_limit_pos assms(6)]
    by blast
  have "get_adapter (io_Source (pack_options fl cid)) = Some ad" "io_Checkpoint (pack_options fl cid) = 0"
    using assms(2) by (simp_all add: pack_options_def)
  from ingest_text_file [OF assms(1) this assms(5) i(2), of S] assms(7)
  obtain st w where r: "ingest_text V S (pack_options fl cid) 0 False input = (st, None, Some w)"
    "is_Records st = length (text_records (ad_Decode ad S) (line_limit 0) input)"
    "readable w \<and> is_Records st < 2 ^ 64 \<longrightarrow>
        (\<exists>rd tables. new_reader (w_out w) = Inr rd \<and> reader_schema rd = ad_Schema ad \<and> file_holds E rd tables
          \<and> concat tables = map (record_cells (sch_Columns (ad_Schema ad))) (text_records (ad_Decode ad S) (line_limit 0) input))"
    unfolding i(3) by blast
  have "pack V S fl True True stdin (map Some inputs) = Inr (st, Some w)"
    using r(1) by (simp add: pack_def assms(3,4) i(1))
  then show ?thesis using r(2,3) i(3) by auto
qed


definition sample_flags :: pack_flags where
  "sample_flags = \<lparr>pf_Source = ''web-access'', pf_Out = ''x.ntcf'', pf_Compression = ''None'', pf_ZstdLevel = 0,
     pf_SegmentRows = 0, pf_Inverted = False\<rparr>"

lemma sample_flags_facts:
  "get_adapter (pf_Source sample_flags) = Some web_access" "parse_compression (pf_Compression sample_flags) = Some CompNone"
  "pf_Out sample_flags \<noteq> []" "pack_options sample_flags CompNone = sample_ingest"
proof -
  have "parse_compression ''None'' = Some CompNone" by code_simp
  then show "parse_compression (pf_Compression sample_flags) = Some CompNone" by (simp add: sample_flags_def)
qed (simp_all add: sample_flags_def get_adapter_cases pack_options_def sample_ingest_def)

abbreviation sample_record :: row_record where
  "sample_record \<equiv> [int_val 5, null_val, bytes_val [71, 69, 84], bytes_val [47], int_val 200, int_val 7, null_val, null_val]"

lemma sample_scans:
  "scan_lines (line_limit 0) '' '' = ([[CHR '' '']], False)"
  "scan_lines (line_limit 0) ''# c'' = ([''# c''], False)"
  "scan_lines (line_limit 0) web_line = ([web_line], False)"
  "scan_lines (line_limit 0) (web_line @ [newline]) = ([web_line], False)"
  by (simp_all add: scan_lines.simps line_limit_def DefaultMaxLineBytes_def newline_def drop_cr_def web_line_def Let_def)

lemma sample_text_records:
  "text_records (web_access_decode sample_source) (line_limit 0) '' '' = []"
  "text_records (web_access_decode sample_source) (line_limit 0) ''# c'' = []"
  "text_records (web_access_decode sample_source) (line_limit 0) web_line = [sample_record]"
  "text_records (web_access_decode sample_source) (line_limit 0) (web_line @ [newline]) = [sample_record]"
  by (simp_all add: text_records_def sample_scans map_filter_simps sample_skipped sample_decoded)

lemma sample_records_storable: "records_storable sample_env CompNone (clamp_options (ingest_writer_options sample_ingest))
    web_access_schema [sample_record, sample_record]"
proof -
  have "table_fits (sch_Columns web_access_schema)
      [record_cells (sch_Columns web_access_schema) sample_record, record_cells (sch_Columns web_access_schema) sample_record]"
    by (simp add: table_fits_def column_fits_def web_access_schema_def record_cells_def value_cell_def column_def
      cell_text_bytes_def int_val_def bytes_val_def null_val_def upt_rec)
  then show ?thesis
    using uncompressed_storable by (simp add: records_storable_def sample_ingest_options segments_of_def sample_env_def)
qed

lemma sample_pack_readable:
  "\<exists>st w. pack sample_env sample_source sample_flags True True [] (map Some ['' '', ''# c'']) = Inr (st, Some w)
     \<and> is_Records st = 0 \<and> readable w"
proof -
  have "\<exists>st w. pack sample_env sample_source sample_flags True True [] (map Some ['' '', ''# c'']) = Inr (st, Some w) \<and> is_Records st = 0"
    using pack_ok [OF sample_env_ok sample_flags_facts(1-3), unfolded sample_flags_facts(4), OF sample_ingest_codec,
        where S = sample_source and stdin = "[]" and inputs = "['' '', ''# c'']"]
    by (simp add: web_access_def sources_def lines_fit_def sample_scans sample_text_records records_storable_def segments_of_def)
       blast
  then obtain st w where p: "pack sample_env sample_source sample_flags True True [] (map Some ['' '', ''# c'']) = Inr (st, Some w)"
    "is_Records st = 0" by blast
  obtain input where i: "open_inputs [] (map Some ['' '', ''# c'']) = Some input" "lines_fit (line_limit 0) input"
    "text_records (web_access_decode sample_source) (line_limit 0) input = []"
    using open_inputs_records [of "web_access_decode sample_source" "line_limit 0" "[]" "['' '', ''# c'']"]
      empty_line_skipped [OF sample_web, of sample_source] line_limit_pos [of 0]
    by (auto simp: web_access_def sources_def lines_fit_def sample_scans sample_text_records)
  obtain ls where ls: "scan_lines (line_limit 0) input = (ls, False)"
    using i(2) by (cases "scan_lines (line_limit 0) input") (simp add: lines_fit_def)
  have "ingest_ops (web_access_decode sample_source) 0 (map background ls) = []"
    using i(3) ls by (simp add: ingest_ops_background text_records_def)
  moreover have "\<exists>e. ingest_run sample_env sample_source sample_ingest False (map background ls) = (st, e, Some w)"
    using p(1) i(1) ls by (simp add: pack_def sample_flags_facts ingest_text_def split: prod.splits option.splits)
  ultimately have "readable w" using sample_empty_file by blast
  then show ?thesis using p by blast
qed


end
