(* ===== verification/Datagen.thy ===== *)
theory Datagen
  imports Pack
begin

text \<open>
  The generator of synthetic telemetry, \<open>internal/datagen/datagen.go\<close>. The pseudo-random
  numbers of \<open>math/rand\<close>, the floating-point square of \<open>zipfIdx\<close> and the formatting of
  times are the parameter record \<open>rng\<close>; everything the generator does with them, in the order
  in which Go evaluates the arguments of \<open>Fprintf\<close>, is written out. An index out of range
  and \<open>Intn\<close> of 0 panic.
\<close>

section \<open>The state of the generator\<close>

text \<open>
  \<open>rn_intn\<close> is \<open>Intn\<close>, \<open>rn_float\<close> is \<open>Float64\<close>, \<open>rn_square\<close> is \<open>int(x * x * float64(n))\<close>, \<open>rn_format\<close>
  is \<open>Time.Format\<close> of nanoseconds since 1970, in UTC.
\<close>

record ('g, 'f) rng =
  rn_intn :: "nat \<Rightarrow> 'g \<Rightarrow> nat \<times> 'g"
  rn_float :: "'g \<Rightarrow> 'f \<times> 'g"
  rn_square :: "'f \<Rightarrow> nat \<Rightarrow> nat"
  rn_format :: "string \<Rightarrow> int \<Rightarrow> string"

record 'g gen =
  gn_rand :: 'g
  gn_srcIPs :: "string list"
  gn_asns :: "nat list"
  gn_asnCC :: "string list"
  gn_ts :: int

type_synonym ('g, 'a) gm = "'g gen \<Rightarrow> ('a \<times> 'g gen) res"

definition bindG :: "('g, 'a) gm \<Rightarrow> ('a \<Rightarrow> ('g, 'b) gm) \<Rightarrow> ('g, 'b) gm" where
  "bindG m f = (\<lambda>g. bindE (m g) (\<lambda>(a, g1). f a g1))"

definition returnG :: "'a \<Rightarrow> ('g, 'a) gm" where
  "returnG a = (\<lambda>g. Inr (a, g))"

definition getG :: "('g gen \<Rightarrow> 'a) \<Rightarrow> ('g, 'a) gm" where
  "getG f = (\<lambda>g. Inr (f g, g))"

definition intn :: "('g, 'f) rng \<Rightarrow> nat \<Rightarrow> ('g, nat) gm" where
  "intn R n g =
     (if n = 0 then Inl Panic
      else case rn_intn R n (gn_rand g) of (v, r) \<Rightarrow> Inr (v, g\<lparr>gn_rand := r\<rparr>))"

definition zipf_idx :: "('g, 'f) rng \<Rightarrow> nat \<Rightarrow> ('g, nat) gm" where
  "zipf_idx R n g = (case rn_float R (gn_rand g) of (x, r) \<Rightarrow> Inr (rn_square R x n, g\<lparr>gn_rand := r\<rparr>))"

definition at_index :: "'a list \<Rightarrow> nat \<Rightarrow> ('g, 'a) gm" where
  "at_index xs i = (\<lambda>g. bindE (index_at xs i) (\<lambda>x. Inr (x, g)))"

text \<open>\<open>xs[g.zipfIdx(len(xs))]\<close> and \<open>xs[g.r.Intn(len(xs))]\<close>.\<close>

definition zipf_pick :: "('g, 'f) rng \<Rightarrow> 'a list \<Rightarrow> ('g, 'a) gm" where
  "zipf_pick R xs = bindG (zipf_idx R (length xs)) (at_index xs)"

definition even_pick :: "('g, 'f) rng \<Rightarrow> 'a list \<Rightarrow> ('g, 'a) gm" where
  "even_pick R xs = bindG (intn R (length xs)) (at_index xs)"

definition src_ip :: "('g, 'f) rng \<Rightarrow> ('g, string) gm" where
  "src_ip R = bindG (getG gn_srcIPs) (zipf_pick R)"

definition pick_asn :: "('g, 'f) rng \<Rightarrow> ('g, nat \<times> string) gm" where
  "pick_asn R =
     bindG (getG gn_asns) (\<lambda>asns. bindG (getG gn_asnCC) (\<lambda>ccs.
     bindG (zipf_idx R (length asns)) (\<lambda>i.
     bindG (at_index asns i) (\<lambda>a. bindG (at_index ccs i) (\<lambda>cc. returnG (a, cc))))))"

definition next_ts :: "('g, 'f) rng \<Rightarrow> ('g, int) gm" where
  "next_ts R = bindG (intn R 2000000) (\<lambda>d g.
     let t = gn_ts g + int (d + 100000) in Inr (t, g\<lparr>gn_ts := t\<rparr>))"

fun repeatG :: "nat \<Rightarrow> ('g, 'a) gm \<Rightarrow> ('g, 'a list) gm" where
  "repeatG 0 m = returnG []"
| "repeatG (Suc n) m = bindG m (\<lambda>x. bindG (repeatG n m) (\<lambda>xs. returnG (x # xs)))"

definition dotted :: "nat \<Rightarrow> nat \<Rightarrow> nat \<Rightarrow> nat \<Rightarrow> string" where
  "dotted a b c d = show_nat a @ ''.'' @ show_nat b @ ''.'' @ show_nat c @ ''.'' @ show_nat d"

definition random_ip :: "('g, 'f) rng \<Rightarrow> ('g, string) gm" where
  "random_ip R =
     bindG (intn R 180) (\<lambda>a. bindG (intn R 256) (\<lambda>b. bindG (intn R 256) (\<lambda>c. bindG (intn R 254) (\<lambda>d.
       returnG (dotted (45 + a) b c (1 + d))))))"

definition asn_pairs :: "(nat \<times> string) list" where
  "asn_pairs = [(4134, ''CN''), (4837, ''CN''), (14061, ''US''), (16509, ''US''), (15169, ''US''),
     (13335, ''US''), (8075, ''US''), (24940, ''DE''), (16276, ''FR''), (12389, ''RU''),
     (8359, ''RU''), (9009, ''GB''), (45102, ''CN''), (37963, ''CN''), (3462, ''TW'')]"

text \<open>The clock starts on 2024-06-01 at 00:00 UTC.\<close>

definition new_gen :: "('g, 'f) rng \<Rightarrow> 'g \<Rightarrow> 'g gen res" where
  "new_gen R r =
     (let g0 = \<lparr>gn_rand = r, gn_srcIPs = [], gn_asns = [], gn_asnCC = [], gn_ts = 1717200000 * 10 ^ 9\<rparr> in
      bindE (repeatG 400 (random_ip R) g0) (\<lambda>(ips, g1). Inr (g1\<lparr>gn_srcIPs := ips,
        gn_asns := map fst asn_pairs, gn_asnCC := map snd asn_pairs\<rparr>)))"

section \<open>JSON lines\<close>

datatype json_field = Text string | Number nat

fun field_text :: "json_field \<Rightarrow> string" where
  "field_text (Text s) = [CHR 0x22] @ s @ [CHR 0x22]"
| "field_text (Number n) = show_nat n"

definition pair_text :: "string \<times> json_field \<Rightarrow> string" where
  "pair_text kv = [CHR 0x22] @ fst kv @ [CHR 0x22] @ '':'' @ field_text (snd kv)"

fun pairs_text :: "(string \<times> json_field) list \<Rightarrow> string" where
  "pairs_text [] = []"
| "pairs_text [kv] = pair_text kv"
| "pairs_text (kv # kvs) = pair_text kv @ '','' @ pairs_text kvs"

definition json_object :: "(string \<times> json_field) list \<Rightarrow> string" where
  "json_object kvs = ''{'' @ pairs_text kvs @ ''}''"

definition rfc3339_nano :: string where "rfc3339_nano = ''2006-01-02T15:04:05.999999999Z07:00''"

section \<open>The three sources\<close>

definition flow_fields :: "('g, 'f) rng \<Rightarrow> ('g, (string \<times> json_field) list) gm" where
  "flow_fields R =
     bindG (pick_asn R) (\<lambda>(asn, cc).
     bindG (next_ts R) (\<lambda>t.
     bindG (src_ip R) (\<lambda>src.
     bindG (intn R 256) (\<lambda>a. bindG (intn R 256) (\<lambda>b. bindG (intn R 254) (\<lambda>c.
     bindG (intn R 64000) (\<lambda>sport.
     bindG (zipf_pick R [443, 80, 53, 22, 3389, 8080, 25, 123]) (\<lambda>dport.
     bindG (even_pick R [''tcp'', ''tcp'', ''tcp'', ''udp'']) (\<lambda>proto.
     bindG (zipf_pick R [''flow'', ''flow'', ''flow'', ''scan'', ''rejected'']) (\<lambda>ev.
     bindG (intn R 60000) (\<lambda>n.
     bindG (intn R 40) (\<lambda>k.
       returnG [(''timestamp'', Text (rn_format R rfc3339_nano t)), (''srcip'', Text src),
         (''dstip'', Text (dotted 10 a b (1 + c))), (''srcport'', Number (1024 + sport)), (''dstport'', Number dport),
         (''protocol'', Text proto), (''asn'', Number asn), (''country'', Text cc), (''eventtype'', Text ev),
         (''bytes'', Number (40 + n)), (''packets'', Number (1 + k))]))))))))))))"

definition flow_line :: "('g, 'f) rng \<Rightarrow> ('g, string) gm" where
  "flow_line R = bindG (flow_fields R) (\<lambda>fs. returnG (json_object fs))"

definition services :: "(string \<times> nat) list" where
  "services = [(''ssh'', 22), (''rdp'', 3389), (''telnet'', 23), (''smtp'', 25), (''smb'', 445), (''mssql'', 1433)]"

definition honeypot_fields :: "('g, 'f) rng \<Rightarrow> ('g, (string \<times> json_field) list) gm" where
  "honeypot_fields R =
     bindG (zipf_pick R services) (\<lambda>(proto, port).
     bindG (pick_asn R) (\<lambda>(asn, cc).
     bindG (zipf_pick R [''login.failed'', ''login.failed'', ''login.failed'', ''login.failed'', ''scan'', ''login.success'']) (\<lambda>ev.
     bindG (next_ts R) (\<lambda>t.
     bindG (src_ip R) (\<lambda>src.
     bindG (intn R 64000) (\<lambda>sport.
       let fs = [(''timestamp'', Text (rn_format R rfc3339_nano t)), (''srcip'', Text src), (''srcport'', Number (1024 + sport)),
         (''dstport'', Number port), (''protocol'', Text proto), (''eventtype'', Text ev), (''asn'', Number asn),
         (''country'', Text cc)] in
       if ev \<noteq> ''scan'' then
         bindG (zipf_pick R [''root'', ''admin'', ''user'', ''test'', ''oracle'', ''ubuntu'', ''guest'', ''postgres'', ''git'',
           ''administrator'']) (\<lambda>user.
         bindG (zipf_pick R [''123456'', ''password'', ''admin'', ''root'', ''12345678'', ''qwerty'', ''1qaz2wsx'', ''letmein'',
           ''P@ssw0rd'']) (\<lambda>pass.
           returnG (fs @ [(''username'', Text user), (''password'', Text pass)])))
       else returnG fs))))))"

definition honeypot_line :: "('g, 'f) rng \<Rightarrow> ('g, string) gm" where
  "honeypot_line R = bindG (honeypot_fields R) (\<lambda>fs. returnG (json_object fs))"

definition web_text :: "string \<Rightarrow> string \<Rightarrow> string \<Rightarrow> string \<Rightarrow> nat \<Rightarrow> nat \<Rightarrow> string \<Rightarrow> string" where
  "web_text ip ts verb path status n ua =
     ip @ '' - - ['' @ ts @ ''] '' @ [CHR 0x22] @ verb @ '' '' @ path @ '' HTTP/1.1'' @ [CHR 0x22] @ '' '' @ show_nat status
       @ '' '' @ show_nat n @ '' '' @ [CHR 0x22] @ ''-'' @ [CHR 0x22] @ '' '' @ [CHR 0x22] @ ua @ [CHR 0x22]"

definition web_gen_line :: "('g, 'f) rng \<Rightarrow> ('g, string) gm" where
  "web_gen_line R =
     bindG (src_ip R) (\<lambda>ip.
     bindG (next_ts R) (\<lambda>t.
     bindG (even_pick R [''GET'', ''GET'', ''GET'', ''GET'', ''POST'', ''HEAD'']) (\<lambda>verb.
     bindG (zipf_pick R [''/'', ''/index.html'', ''/login'', ''/wp-login.php'', ''/admin'', ''/api/v1/users'', ''/favicon.ico'',
       ''/static/app.js'', ''/.env'', ''/phpmyadmin'']) (\<lambda>path.
     bindG (zipf_pick R [200, 200, 200, 304, 404, 403, 301, 500]) (\<lambda>status.
     bindG (intn R 50000) (\<lambda>n.
     bindG (zipf_pick R [''Mozilla/5.0 (Windows NT 10.0; Win64; x64) AppleWebKit/537.36'',
       ''Mozilla/5.0 (X11; Linux x86_64) Gecko/20100101 Firefox/115.0'', ''curl/7.88.1'', ''python-requests/2.31.0'',
       ''Googlebot/2.1'']) (\<lambda>ua.
       returnG (web_text ip (rn_format R clf_time t) verb path status n ua))))))))"

text \<open>\<open>Generate\<close>: the text written; \<open>None\<close> for an unknown source.\<close>

definition source_line :: "('g, 'f) rng \<Rightarrow> string \<Rightarrow> ('g, string) gm option" where
  "source_line R source =
     (if source = ''generic-flow'' then Some (flow_line R)
      else if source = ''honeypot'' then Some (honeypot_line R)
      else if source = ''web-access'' then Some (web_gen_line R)
      else None)"

definition generate :: "('g, 'f) rng \<Rightarrow> string \<Rightarrow> nat \<Rightarrow> 'g \<Rightarrow> string res option" where
  "generate R source n r =
     map_option (\<lambda>line. bindE (new_gen R r) (\<lambda>g. bindE (repeatG n line g) (\<lambda>(ls, _). Inr (concat (map (\<lambda>l. l @ [newline]) ls)))))
       (source_line R source)"

end
