(* ===== verification/DatagenFacts.thy ===== *)
theory DatagenFacts
  imports Datagen
begin

text \<open>
  What the generator promises: it never panics, and each line it writes is one that the
  adapter of the same source decodes into a complete record. \<open>yields\<close> is the contract of a
  step of the generator: from a state with one property to a result and a state with
  another.
\<close>

section \<open>Contracts of generator steps\<close>

text \<open>What is assumed of the random numbers: values in range.\<close>

definition rng_ok :: "('g, 'f) rng \<Rightarrow> bool" where
  "rng_ok R \<longleftrightarrow> (\<forall>n r. 0 < n \<longrightarrow> fst (rn_intn R n r) < n)
     \<and> (\<forall>n r. 0 < n \<longrightarrow> rn_square R (fst (rn_float R r)) n < n)"

definition is_dotted :: "string \<Rightarrow> bool" where
  "is_dotted s \<longleftrightarrow> (\<exists>a b c d. a < 256 \<and> b < 256 \<and> c < 256 \<and> d < 256 \<and> s = dotted a b c d)"

lemma dotted_ok: "a < 256 \<Longrightarrow> b < 256 \<Longrightarrow> c < 256 \<Longrightarrow> d < 256 \<Longrightarrow> is_dotted (dotted a b c d)"
  by (auto simp: is_dotted_def)

definition yields :: "('g gen \<Rightarrow> bool) \<Rightarrow> ('g, 'a) gm \<Rightarrow> ('g gen \<Rightarrow> bool) \<Rightarrow> ('a \<Rightarrow> bool) \<Rightarrow> bool" where
  "yields I m J Q \<longleftrightarrow> (\<forall>g. I g \<longrightarrow> (\<exists>a g1. m g = Inr (a, g1) \<and> J g1 \<and> Q a))"

lemma yields_bind:
  assumes "yields I m J P" and "\<And>a. P a \<Longrightarrow> yields J (f a) K Q"
  shows "yields I (bindG m f) K Q"
  unfolding yields_def
proof (intro allI impI)
  fix g assume "I g"
  then obtain a g1 where "m g = Inr (a, g1)" "J g1" "P a" using assms(1) by (auto simp: yields_def)
  moreover then obtain b g2 where "f a g1 = Inr (b, g2)" "K g2" "Q b" using assms(2) by (fastforce simp: yields_def)
  ultimately show "\<exists>b g2. bindG m f g = Inr (b, g2) \<and> K g2 \<and> Q b" by (simp add: bindG_def)
qed

lemma yields_return: "Q a \<Longrightarrow> yields I (returnG a) I Q"
  by (simp add: yields_def returnG_def)

lemma yields_get: "(\<And>g. I g \<Longrightarrow> Q (f g)) \<Longrightarrow> yields I (getG f) I Q"
  by (simp add: yields_def getG_def)

lemma yields_index: "i < length xs \<Longrightarrow> (\<And>x. x \<in> set xs \<Longrightarrow> Q x) \<Longrightarrow> yields I (at_index xs i) I Q"
  by (simp add: yields_def at_index_def index_at_def)

lemma yields_repeat:
  assumes "\<And>k. k < n \<Longrightarrow> yields (I k) m (I (Suc k)) Q"
  shows "yields (I 0) (repeatG n m) (I n) (\<lambda>xs. length xs = n \<and> list_all Q xs)"
proof -
  have "yields (I j) (repeatG k m) (I (j + k)) (\<lambda>xs. length xs = k \<and> list_all Q xs)" if "j + k \<le> n" for j k
    using that
  proof (induction k arbitrary: j)
    case (Suc k)
    have "yields (I (Suc j)) (repeatG k m) (I (j + Suc k)) (\<lambda>xs. length xs = k \<and> list_all Q xs)"
      using Suc.IH [of "Suc j"] Suc.prems by simp
    with assms [of j] Suc.prems show ?case
      by (auto intro!: yields_bind [where J = "I (Suc j)" and P = Q]
          yields_bind [where J = "I (j + Suc k)" and P = "\<lambda>xs. length xs = k \<and> list_all Q xs"] yields_return)
  qed (simp add: yields_return)
  from this [of 0 n] show ?thesis by simp
qed

text \<open>A property that does not look at the random state.\<close>

definition stable :: "('g gen \<Rightarrow> bool) \<Rightarrow> bool" where
  "stable I \<longleftrightarrow> (\<forall>g r. I g \<longrightarrow> I (g\<lparr>gn_rand := r\<rparr>))"

lemma yields_intn:
  assumes "rng_ok R" and "stable I" and "0 < n"
  shows "yields I (intn R n) I (\<lambda>v. v < n)"
  unfolding yields_def
proof (intro allI impI)
  fix g assume "I g"
  obtain v r where v: "rn_intn R n (gn_rand g) = (v, r)" by fastforce
  have "v < n" using assms(1,3) v by (metis fst_conv rng_ok_def)
  moreover have "I (g\<lparr>gn_rand := r\<rparr>)" using assms(2) \<open>I g\<close> by (simp add: stable_def)
  ultimately show "\<exists>a g1. intn R n g = Inr (a, g1) \<and> I g1 \<and> a < n" using assms(3) v by (simp add: intn_def)
qed

lemma yields_zipf:
  assumes "rng_ok R" and "stable I" and "0 < n"
  shows "yields I (zipf_idx R n) I (\<lambda>v. v < n)"
  unfolding yields_def
proof (intro allI impI)
  fix g assume "I g"
  obtain x r where x: "rn_float R (gn_rand g) = (x, r)" by fastforce
  have "rn_square R x n < n" using assms(1,3) x by (metis fst_conv rng_ok_def)
  moreover have "I (g\<lparr>gn_rand := r\<rparr>)" using assms(2) \<open>I g\<close> by (simp add: stable_def)
  ultimately show "\<exists>a g1. zipf_idx R n g = Inr (a, g1) \<and> I g1 \<and> a < n" using x by (simp add: zipf_idx_def)
qed

lemma yields_zipf_pick:
  assumes "rng_ok R" and "stable I" and "xs \<noteq> []" and "list_all Q xs"
  shows "yields I (zipf_pick R xs) I Q"
  unfolding zipf_pick_def
  by (rule yields_bind [OF yields_zipf [OF assms(1,2)]]) (use assms(3,4) in \<open>auto intro!: yields_index simp: list_all_iff\<close>)

lemma yields_even_pick:
  assumes "rng_ok R" and "stable I" and "xs \<noteq> []" and "list_all Q xs"
  shows "yields I (even_pick R xs) I Q"
  unfolding even_pick_def
  by (rule yields_bind [OF yields_intn [OF assms(1,2)]]) (use assms(3,4) in \<open>auto intro!: yields_index simp: list_all_iff\<close>)

section \<open>The invariant\<close>

abbreviation start_ts :: int where "start_ts \<equiv> 1717200000 * 10 ^ 9"

text \<open>After \<open>k\<close> lines the clock has advanced by at most \<open>k\<close> times 2.1 ms.\<close>

definition gen_ok :: "nat \<Rightarrow> 'g gen \<Rightarrow> bool" where
  "gen_ok k g \<longleftrightarrow> gn_srcIPs g \<noteq> [] \<and> (\<forall>ip \<in> set (gn_srcIPs g). is_dotted ip)
     \<and> gn_asns g = map fst asn_pairs \<and> gn_asnCC g = map snd asn_pairs
     \<and> start_ts \<le> gn_ts g \<and> gn_ts g \<le> start_ts + int k * 2100000"

lemma stable_gen_ok: "stable (gen_ok k)"
  by (simp add: stable_def gen_ok_def)

definition time_range :: "int \<Rightarrow> bool" where
  "time_range t \<longleftrightarrow> 0 \<le> t \<and> t < 2 ^ 63"

lemma yields_src_ip:
  assumes "rng_ok R"
  shows "yields (gen_ok k) (src_ip R) (gen_ok k) is_dotted"
  unfolding src_ip_def
  by (rule yields_bind [OF yields_get [where Q = "\<lambda>ips. ips \<noteq> [] \<and> list_all is_dotted ips"]])
     (auto intro!: yields_zipf_pick [OF assms stable_gen_ok] simp: gen_ok_def list_all_iff)

lemma yields_next_ts:
  assumes "rng_ok R" and "k < 2 ^ 32"
  shows "yields (gen_ok k) (next_ts R) (gen_ok (Suc k)) time_range"
  unfolding next_ts_def
proof (rule yields_bind [OF yields_intn [OF assms(1) stable_gen_ok]])
  fix d :: nat assume d: "d < 2000000"
  have "int k < 2 ^ 32" using assms(2) by simp
  then show "yields (gen_ok k) (\<lambda>g. let t = gn_ts g + int (d + 100000) in Inr (t, g\<lparr>gn_ts := t\<rparr>)) (gen_ok (Suc k)) time_range"
    using d by (auto simp: yields_def Let_def gen_ok_def time_range_def algebra_simps)
qed simp

definition asn_ok :: "nat \<times> string \<Rightarrow> bool" where
  "asn_ok ac \<longleftrightarrow> fst ac < 10 ^ 5 \<and> snd ac \<in> set (map snd asn_pairs)"

lemma yields_asn:
  assumes "rng_ok R"
  shows "yields (gen_ok k) (pick_asn R) (gen_ok k) asn_ok"
  unfolding pick_asn_def
proof (rule yields_bind [OF yields_get [where Q = "\<lambda>as. as = map fst asn_pairs"]])
  fix as :: "nat list" assume as: "as = map fst asn_pairs"
  have small: "\<forall>a \<in> set as. a < 10 ^ 5" by (simp add: as asn_pairs_def)
  show "yields (gen_ok k) (bindG (getG gn_asnCC) (\<lambda>ccs. bindG (zipf_idx R (length as)) (\<lambda>i.
      bindG (at_index as i) (\<lambda>a. bindG (at_index ccs i) (\<lambda>cc. returnG (a, cc)))))) (gen_ok k) asn_ok"
  proof (rule yields_bind [OF yields_get [where Q = "\<lambda>ccs. ccs = map snd asn_pairs"]])
    fix ccs :: "string list" assume ccs: "ccs = map snd asn_pairs"
    show "yields (gen_ok k) (bindG (zipf_idx R (length as)) (\<lambda>i.
        bindG (at_index as i) (\<lambda>a. bindG (at_index ccs i) (\<lambda>cc. returnG (a, cc))))) (gen_ok k) asn_ok"
    proof (rule yields_bind [OF yields_zipf [OF assms stable_gen_ok]])
      show "0 < length as" by (simp add: as asn_pairs_def)
      fix i assume "i < length as"
      then have i: "i < length as" "i < length ccs" by (simp_all add: as ccs)
      show "yields (gen_ok k) (bindG (at_index as i) (\<lambda>a. bindG (at_index ccs i) (\<lambda>cc. returnG (a, cc)))) (gen_ok k) asn_ok"
      proof (rule yields_bind [OF yields_index [OF i(1), where Q = "\<lambda>a. a < 10 ^ 5"]])
        fix a :: nat assume "a < 10 ^ 5"
        then show "yields (gen_ok k) (bindG (at_index ccs i) (\<lambda>cc. returnG (a, cc))) (gen_ok k) asn_ok"
          using ccs by (intro yields_bind [OF yields_index [OF i(2), where Q = "\<lambda>cc. cc \<in> set ccs"]])
            (simp_all add: yields_return asn_ok_def)
      qed (use small in blast)
    qed
  qed (simp add: gen_ok_def)
qed (simp add: gen_ok_def)

lemma new_gen_ok:
  assumes "rng_ok R"
  shows "\<exists>g. new_gen R r = Inr g \<and> gen_ok 0 g"
proof -
  let ?g0 = "\<lparr>gn_rand = r, gn_srcIPs = [], gn_asns = [], gn_asnCC = [], gn_ts = start_ts\<rparr>"
  let ?I = "\<lambda>g. gn_ts g = start_ts"
  have I: "stable ?I" by (simp add: stable_def)
  have "yields ?I (random_ip R) ?I is_dotted"
    unfolding random_ip_def
    by (rule yields_bind [OF yields_intn [OF assms I]], simp, rule yields_bind [OF yields_intn [OF assms I]], simp,
        rule yields_bind [OF yields_intn [OF assms I]], simp, rule yields_bind [OF yields_intn [OF assms I]], simp,
        rule yields_return, rule dotted_ok) simp_all
  then have "yields ?I (repeatG 400 (random_ip R)) ?I (\<lambda>ips. length ips = 400 \<and> list_all is_dotted ips)"
    using yields_repeat [where I = "\<lambda>_. ?I"] by blast
  then obtain ips g1 where "repeatG 400 (random_ip R) ?g0 = Inr (ips, g1)" "gn_ts g1 = start_ts" "length ips = 400"
    "list_all is_dotted ips" unfolding yields_def by (metis gen.select_convs(5))
  then show ?thesis by (auto simp: new_gen_def gen_ok_def list_all_iff)
qed

section \<open>Texts\<close>

text \<open>A text without quotes, backslashes or control characters, at most 64 characters long.\<close>

definition plain_char :: "char \<Rightarrow> bool" where
  "plain_char c \<longleftrightarrow> (32 :: nat) \<le> of_char c \<and> of_char c < (127 :: nat) \<and> c \<noteq> CHR 0x22 \<and> c \<noteq> CHR 0x5C"

definition plain :: "string \<Rightarrow> bool" where
  "plain s \<longleftrightarrow> list_all plain_char s \<and> length s \<le> 64"

lemma digit_plain: "is_digit c \<Longrightarrow> plain_char c \<and> c \<noteq> CHR '' '' \<and> c \<noteq> CHR ''['' \<and> c \<noteq> CHR 0x23"
  by (auto simp: is_digit_def plain_char_def less_eq_char_def)

lemma length_show_nat: "n < 10 ^ k \<Longrightarrow> 0 < k \<Longrightarrow> length (show_nat n) \<le> k"
proof (induction n arbitrary: k rule: show_nat.induct)
  case (1 n)
  show ?case
  proof (cases "n < 10")
    case False
    moreover have "k \<noteq> 1" using False 1(2) by auto
    ultimately obtain j where j: "k = Suc j" "0 < j" using 1(3) by (cases k) auto
    then have "length (show_nat (n div 10)) \<le> j" using 1(1) [OF False, of j] 1(2) by simp
    then show ?thesis using False j by (subst show_nat.simps) simp
  qed (use 1(3) in \<open>subst show_nat.simps, simp\<close>)
qed

lemma show_nat_chars: "c \<in> set (show_nat n) \<Longrightarrow> is_digit c"
  using show_nat_digits [of n] by (auto simp: list_all_iff)

lemma dotted_facts:
  assumes "is_dotted s"
  shows "plain s" and "s \<noteq> []" and "c \<in> set s \<Longrightarrow> c \<noteq> CHR '' ''" and "is_digit (hd s)" and "length s \<le> 15"
proof -
  obtain a b c d where s: "s = dotted a b c d" and r: "a < 256" "b < 256" "c < 256" "d < 256"
    using assms by (auto simp: is_dotted_def)
  have len: "length (show_nat a) \<le> 3" "length (show_nat b) \<le> 3" "length (show_nat c) \<le> 3" "length (show_nat d) \<le> 3"
    using r by (auto intro!: length_show_nat)
  then show "length s \<le> 15" by (simp add: s dotted_def)
  then show "plain s"
    using digit_plain show_nat_chars by (auto simp: plain_def s dotted_def list_all_iff plain_char_def)
  show "s \<noteq> []" by (simp add: s dotted_def)
  show "x \<noteq> CHR '' ''" if "x \<in> set s" for x
    using that digit_plain show_nat_chars by (auto simp: s dotted_def)
  have "show_nat a \<noteq> []" using show_nat_digits by blast
  then show "is_digit (hd s)" using show_nat_chars [of "hd (show_nat a)" a] by (simp add: s dotted_def)
qed

section \<open>JSON lines\<close>

definition field_ok :: "json_field \<Rightarrow> bool" where
  "field_ok f \<longleftrightarrow> (case f of Text s \<Rightarrow> plain s | Number n \<Rightarrow> n < 10 ^ 5)"

definition fields_ok :: "(string \<times> json_field) list \<Rightarrow> bool" where
  "fields_ok kvs \<longleftrightarrow> kvs \<noteq> [] \<and> distinct (map fst kvs) \<and> length kvs \<le> 16
     \<and> list_all (\<lambda>kv. plain (fst kv) \<and> field_ok (snd kv)) kvs"

lemma plain_newline: "plain_char c \<Longrightarrow> c \<noteq> newline"
  by (auto simp: newline_def plain_char_def)

lemma field_text_facts:
  assumes "field_ok f"
  shows "length (field_text f) \<le> 66 \<and> newline \<notin> set (field_text f)"
proof (cases f)
  case (Text s)
  then have s: "list_all plain_char s" "length s \<le> 64" using assms by (simp_all add: field_ok_def plain_def)
  have "newline \<notin> set s" using s(1) plain_newline by (auto simp: list_all_iff)
  then show ?thesis using Text s(2) by (simp add: newline_def)
next
  case (Number n)
  then have "length (show_nat n) \<le> 5" using assms by (intro length_show_nat) (simp_all add: field_ok_def)
  moreover have "newline \<notin> set (show_nat n)" using show_nat_chars digit_plain plain_newline by blast
  ultimately show ?thesis using Number by simp
qed

lemma pairs_text_facts:
  assumes "list_all (\<lambda>kv. plain (fst kv) \<and> field_ok (snd kv)) kvs"
  shows "length (pairs_text kvs) \<le> 200 * length kvs" and "newline \<notin> set (pairs_text kvs)"
proof -
  have pair: "length (pair_text kv) \<le> 140 \<and> newline \<notin> set (pair_text kv)" if "plain (fst kv)" "field_ok (snd kv)" for kv
  proof -
    have "newline \<notin> set (fst kv)" using that(1) plain_newline by (auto simp: plain_def list_all_iff)
    then show ?thesis using that(1) field_text_facts [OF that(2)] by (simp add: pair_text_def plain_def) (simp add: newline_def)
  qed
  have "length (pairs_text kvs) \<le> 200 * length kvs \<and> newline \<notin> set (pairs_text kvs)"
    using assms by (induction kvs rule: pairs_text.induct) (auto simp: newline_def dest!: pair)
  then show "length (pairs_text kvs) \<le> 200 * length kvs" and "newline \<notin> set (pairs_text kvs)" by simp_all
qed

text \<open>A line of text the scanner gives back as it is.\<close>

definition line_ok :: "string \<Rightarrow> bool" where
  "line_ok l \<longleftrightarrow> newline \<notin> set l \<and> l \<noteq> [] \<and> last l \<noteq> CHR 0x0D \<and> length l < 4096"

lemma object_line_ok: "fields_ok kvs \<Longrightarrow> line_ok (json_object kvs)"
  using pairs_text_facts [of kvs] by (auto simp: line_ok_def json_object_def fields_ok_def newline_def)

section \<open>The standard library on these texts\<close>

text \<open>
  What is assumed: formatted times are plain texts that parse back, exactly in the format
  with nanoseconds; dotted quads are addresses; a flat object is decoded to the map of its
  members, with numbers as floating-point numbers that are exact for integers below 2^53.
\<close>

definition times_parse :: "('g, 'f) rng \<Rightarrow> stdlib \<Rightarrow> bool" where
  "times_parse R L \<longleftrightarrow> (\<forall>t. time_range t \<longrightarrow>
     (\<forall>l \<in> {rfc3339_nano, clf_time}. plain (rn_format R l t) \<and> rn_format R l t \<noteq> [] \<and> CHR '']'' \<notin> set (rn_format R l t))
     \<and> parse_time L rfc3339_nano (rn_format R rfc3339_nano t) = Some (word_of_int t)
     \<and> parse_time L clf_time (rn_format R clf_time t) \<noteq> None)"

definition addresses_parse :: "stdlib \<Rightarrow> bool" where
  "addresses_parse L \<longleftrightarrow> (\<forall>s. is_dotted s \<longrightarrow> (\<exists>b. parse_addr L s = Some b \<and> length b = 16))"

fun json_value :: "(nat \<Rightarrow> 'f) \<Rightarrow> json_field \<Rightarrow> 'f json" where
  "json_value num (Text s) = JString s"
| "json_value num (Number n) = JNumber (num n)"

definition json_parses :: "(nat \<Rightarrow> 'f) \<Rightarrow> 'f source_env \<Rightarrow> bool" where
  "json_parses num S \<longleftrightarrow>
     (\<forall>kvs. fields_ok kvs \<longrightarrow> se_json S (json_object kvs) = Some (map_of (map (\<lambda>kv. (fst kv, json_value num (snd kv))) kvs)))
     \<and> (\<forall>n < 2 ^ 53. \<not> se_neg S (num n) \<and> se_u64 S (num n) = of_nat n)"

definition std_ok :: "('g, 'f) rng \<Rightarrow> (nat \<Rightarrow> 'h) \<Rightarrow> 'h source_env \<Rightarrow> bool" where
  "std_ok R num S \<longleftrightarrow> times_parse R (se_std S) \<and> addresses_parse (se_std S) \<and> json_parses num S"

section \<open>Lines decode\<close>

text \<open>Values are missing only where the schema allows it, and short.\<close>

definition complete :: "column_def list \<Rightarrow> row_record \<Rightarrow> bool" where
  "complete cols r \<longleftrightarrow> list_all2 (\<lambda>c v. (v_Null v \<longrightarrow> col_Nullable c) \<and> length (v_Bytes v) \<le> 64) cols r"

definition good_line :: "'h source_env \<Rightarrow> 'h adapter \<Rightarrow> string \<Rightarrow> bool" where
  "good_line S ad l \<longleftrightarrow> line_ok l \<and> (\<exists>r. ad_Decode ad S l = Some r \<and> complete (sch_Columns (ad_Schema ad)) r)"

lemma object_not_blank: "length (trim_space (json_object kvs)) \<noteq> 0"
  by (simp add: trim_space_def json_object_def is_space_def)

lemma json_event_object:
  assumes "json_parses num S" and "fields_ok kvs" and "kvs = (''timestamp'', Text s) # rest" and "parse_time_nanos S s = Some t"
  shows "json_event S (''timestamp'' # keys) (json_object kvs)
    = Some (map_of (map (\<lambda>kv. (fst kv, json_value num (snd kv))) kvs), t)"
  using assms object_not_blank [of kvs] by (simp add: json_event_def json_parses_def)

lemma parse_time_format:
  "times_parse R (se_std S) \<Longrightarrow> time_range t \<Longrightarrow> parse_time_nanos S (rn_format R rfc3339_nano t) = Some (word_of_int t)"
  by (simp add: parse_time_nanos_def adapter_layouts_def times_parse_def flip: rfc3339_nano_def)

lemma null_simps [simp]: "v_Null null_val" "\<not> v_Null (int_val v)" "\<not> v_Null (bytes_val b)"
  "v_Bytes null_val = []" "v_Bytes (int_val v) = []" "v_Bytes (bytes_val b) = b"
  by (simp_all add: null_val_def int_val_def bytes_val_def)

lemma length_texts [simp]: "length (to_bytes s) = length s" "length (upper_country s) = length s"
  by (simp_all add: to_bytes_def upper_country_def)

lemma plain_length: "plain s \<Longrightarrow> length s \<le> 64"
  by (simp add: plain_def)

lemmas decode_simps = ip_value_def normalize_ip_def uint_value_def enum_value_def str_value_def complete_def column_def

definition word_ok :: "string \<Rightarrow> bool" where
  "word_ok s \<longleftrightarrow> plain s \<and> s \<noteq> [] \<and> CHR '' '' \<notin> set s"

lemma flow_line_decodes:
  assumes std: "std_ok R num S" and t: "time_range t" and "is_dotted src" "is_dotted dst" and "asn_ok (asn, cc)"
    and "plain proto" "plain ev" "sport < 10 ^ 5" "dport < 10 ^ 5" "n < 10 ^ 5" "k < 10 ^ 5"
  shows "good_line S generic_flow (json_object [(''timestamp'', Text (rn_format R rfc3339_nano t)), (''srcip'', Text src),
         (''dstip'', Text dst), (''srcport'', Number sport), (''dstport'', Number dport),
         (''protocol'', Text proto), (''asn'', Number asn), (''country'', Text cc), (''eventtype'', Text ev),
         (''bytes'', Number n), (''packets'', Number k)])" (is "good_line S _ (json_object ?kvs)")
proof -
  have cc: "plain cc" and asn: "asn < 10 ^ 5" using assms(5) by (auto simp: asn_ok_def asn_pairs_def plain_def plain_char_def)
  have ts: "plain (rn_format R rfc3339_nano t)" and std': "times_parse R (se_std S)" "json_parses num S" "addresses_parse (se_std S)"
    using std t by (auto simp: std_ok_def times_parse_def)
  have keys: "list_all plain (map fst ?kvs)" "distinct (map fst ?kvs)"
    by (simp_all add: plain_def plain_char_def)
  have ok: "fields_ok ?kvs"
    using keys assms(6-) cc asn ts dotted_facts(1) [OF assms(3)] dotted_facts(1) [OF assms(4)]
    by (simp add: fields_ok_def field_ok_def)
  note ev = json_event_object [OF std'(2) ok refl parse_time_format [OF std'(1) t]]
  have nums: "\<not> se_neg S (num m) \<and> se_u64 S (num m) = of_nat m" if "m < 10 ^ 5" for m
    using std'(2) that by (simp add: json_parses_def)
  obtain b1 b2 where ips: "parse_addr (se_std S) src = Some b1" "length b1 = 16" "parse_addr (se_std S) dst = Some b2" "length b2 = 16"
    using std'(3) assms(3,4) unfolding addresses_parse_def by blast
  note lens = plain_length [OF assms(6)] plain_length [OF assms(7)] plain_length [OF cc]
  have "\<exists>r. generic_flow_decode S (json_object ?kvs) = Some r \<and> complete (sch_Columns generic_flow_schema) r"
    using ips lens nums [OF assms(8)] nums [OF assms(9)] nums [OF assms(10)] nums [OF assms(11)] nums [OF asn]
    by (auto simp: generic_flow_decode_def ev decode_simps generic_flow_schema_def)
  then show ?thesis using object_line_ok [OF ok] by (simp add: good_line_def generic_flow_def)
qed

lemma honeypot_line_decodes:
  assumes std: "std_ok R num S" and t: "time_range t" and "is_dotted src" and "asn_ok (asn, cc)"
    and "plain proto" "plain ev" "sport < 10 ^ 5" "dport < 10 ^ 5"
    and extra: "rest = [] \<or> (\<exists>u p. plain u \<and> plain p \<and> rest = [(''username'', Text u), (''password'', Text p)])"
  shows "good_line S honeypot (json_object ([(''timestamp'', Text (rn_format R rfc3339_nano t)), (''srcip'', Text src),
         (''srcport'', Number sport), (''dstport'', Number dport), (''protocol'', Text proto), (''eventtype'', Text ev),
         (''asn'', Number asn), (''country'', Text cc)] @ rest))" (is "good_line S _ (json_object ?kvs)")
proof -
  have cc: "plain cc" and asn: "asn < 10 ^ 5" using assms(4) by (auto simp: asn_ok_def asn_pairs_def plain_def plain_char_def)
  have ts: "plain (rn_format R rfc3339_nano t)" and std': "times_parse R (se_std S)" "json_parses num S" "addresses_parse (se_std S)"
    using std t by (auto simp: std_ok_def times_parse_def)
  have keys: "list_all plain (map fst ?kvs)" "distinct (map fst ?kvs)"
    using extra by (auto simp: plain_def plain_char_def)
  have ok: "fields_ok ?kvs"
    using keys assms(5-8) cc asn ts dotted_facts(1) [OF assms(3)] extra by (auto simp: fields_ok_def field_ok_def)
  have kvs: "?kvs = (''timestamp'', Text (rn_format R rfc3339_nano t)) # tl ?kvs" by simp
  note ev = json_event_object [OF std'(2) ok kvs parse_time_format [OF std'(1) t]]
  have nums: "\<not> se_neg S (num m) \<and> se_u64 S (num m) = of_nat m" if "m < 10 ^ 5" for m
    using std'(2) that by (simp add: json_parses_def)
  obtain b where ips: "parse_addr (se_std S) src = Some b" "length b = 16"
    using std'(3) assms(3) unfolding addresses_parse_def by blast
  note lens = plain_length [OF assms(5)] plain_length [OF assms(6)] plain_length [OF cc]
  have "\<exists>r. honeypot_decode S (json_object ?kvs) = Some r \<and> complete (sch_Columns honeypot_schema) r"
    using extra
  proof (elim disjE exE conjE)
    assume r: "rest = []"
    show ?thesis
      using ips lens nums [OF assms(7)] nums [OF assms(8)] nums [OF asn]
      unfolding r append_Cons append_Nil
      by (auto simp: honeypot_decode_def ev [unfolded r append_Cons append_Nil] decode_simps honeypot_schema_def)
  next
    fix u p assume up: "plain u" "plain p" and r: "rest = [(''username'', Text u), (''password'', Text p)]"
    show ?thesis
      using plain_length [OF up(1)] plain_length [OF up(2)] ips lens nums [OF assms(7)] nums [OF assms(8)] nums [OF asn]
      unfolding r append_Cons append_Nil
      by (auto simp: honeypot_decode_def ev [unfolded r append_Cons append_Nil] decode_simps honeypot_schema_def)
  qed
  then show ?thesis using object_line_ok [OF ok] by (simp add: good_line_def honeypot_def)
qed

section \<open>Access-log lines\<close>

lemma split_clf_last: "CHR 0x22 \<notin> set s \<Longrightarrow> split_clf ([CHR 0x22] @ s @ [CHR 0x22]) = [s]"
  using takeWhile_stop [of "CHR 0x22" s "[]"] dropWhile_stop [of "CHR 0x22" s "[]"]
  by (subst split_clf.simps) (simp add: span_end_def split_clf.simps [of "[]"])

lemma number_token: "clf_ok (Bare (show_nat n))"
  using show_nat_digits [of n] show_nat_chars [of "hd (show_nat n)" n] digit_plain show_nat_chars by (fastforce simp: plain_char_def)

lemma web_text_layout:
  "web_text ip ts verb path status n ua = clf_line [Bare ip, Bare ''-'', Bare ''-'', Bracketed ts,
     Quoted (verb @ '' '' @ path @ '' HTTP/1.1''), Bare (show_nat status), Bare (show_nat n), Quoted ''-'']
     @ [CHR 0x22] @ ua @ [CHR 0x22]"
  by (simp add: web_text_def)

lemma split_clf_append: "list_all clf_ok ts \<Longrightarrow> split_clf (clf_line ts @ s) = map clf_content ts @ split_clf s"
  using split_clf_token by (induction ts) simp_all

lemma request_parts_words:
  assumes "word_ok verb" and "word_ok path"
  shows "request_parts (verb @ '' '' @ path @ '' HTTP/1.1'') = Some (verb, path)"
  using assms takeWhile_stop [of "CHR '' ''" verb] dropWhile_stop [of "CHR '' ''" verb] takeWhile_stop [of "CHR '' ''" path]
  by (simp add: request_parts_def word_ok_def)

lemma web_line_decodes:
  assumes std: "std_ok R num S" and t: "time_range t" and ip: "is_dotted ip"
    and "word_ok verb" "word_ok path" "plain ua" "status < 10 ^ 5" "n < 10 ^ 5"
  shows "good_line S web_access (web_text ip (rn_format R clf_time t) verb path status n ua)" (is "good_line S _ ?l")
proof -
  let ?ts = "rn_format R clf_time t"
  have ts: "plain ?ts" "CHR '']'' \<notin> set ?ts" "parse_time (se_std S) clf_time ?ts \<noteq> None" 
    using std t by (auto simp: std_ok_def times_parse_def)
  obtain b where b: "parse_addr (se_std S) ip = Some b" "length b = 16"
    using std ip unfolding std_ok_def addresses_parse_def by blast
  have no_quote: "CHR 0x22 \<notin> set s" if "plain s" for s using that by (auto simp: plain_def plain_char_def list_all_iff)
  have "CHR '' '' \<notin> set ip" using dotted_facts(3) [OF ip] by blast
  moreover have "hd ip \<noteq> CHR 0x22" "hd ip \<noteq> CHR ''[''" "hd ip \<noteq> CHR 0x23" "\<not> is_space (hd ip)"
    using dotted_facts(4) [OF ip] digit_plain [of "hd ip"] by (auto simp: plain_char_def is_space_def)
  moreover note dotted_facts(2) [OF ip]
  ultimately have hd: "clf_ok (Bare ip)" "\<exists>c cs. ?l = c # cs \<and> \<not> is_space c \<and> c \<noteq> CHR 0x23"
    by (cases ip; simp add: web_text_def)+
  have toks: "list_all clf_ok [Bare ip, Bare ''-'', Bare ''-'', Bracketed ?ts, Quoted (verb @ '' '' @ path @ '' HTTP/1.1''),
      Bare (show_nat status), Bare (show_nat n), Quoted ''-'']"
    using hd(1) ts(2) number_token [of status] number_token [of n] no_quote assms(4,5) by (simp add: word_ok_def)
  have split: "split_clf ?l = [ip, ''-'', ''-'', ?ts, verb @ '' '' @ path @ '' HTTP/1.1'', show_nat status, show_nat n, ''-'', ua]"
    unfolding web_text_layout using split_clf_append [OF toks] split_clf_last [OF no_quote [OF assms(6)]] by simp
  have trim: "trim_space ?l = ?l"
  proof -
    have "dropWhile is_space ?l = ?l" using hd(2) by auto
    moreover have "dropWhile is_space (rev ?l) = rev ?l" by (simp add: web_text_def is_space_def)
    ultimately show ?thesis by (simp add: trim_space_def)
  qed
  have "\<exists>r. web_access_decode S ?l = Some r \<and> complete (sch_Columns web_access_schema) r"
  proof -
    have start: "?l \<noteq> []" "hd ?l \<noteq> CHR 0x23" using hd(2) by auto
    have num: "parse_uint (show_nat m) = Some m" if "m < 10 ^ 5" for m
      using that by (simp add: parse_uint_def digits_value_show)
    obtain v where v: "parse_time (se_std S) clf_time ?ts = Some v" using ts(3) by blast
    have "show_nat n \<noteq> ''-''" using show_nat_chars [of "CHR ''-''" n] by (auto simp: is_digit_def less_eq_char_def)
    then have "web_access_decode S ?l = Some [int_val v, bytes_val b, bytes_val (to_bytes verb), bytes_val (to_bytes path),
        int_val (of_nat status), int_val (of_nat n), null_val, optional_text ua]"
      using start num [OF assms(7)] num [OF assms(8)] request_parts_words [OF assms(4,5)]
      by (simp add: web_access_decode_def trim split Let_def v normalize_ip_def b optional_text_def)
    moreover have "length verb \<le> 64" "length path \<le> 64" "length (v_Bytes (optional_text ua)) \<le> 64"
      using assms(4-6) by (simp_all add: word_ok_def plain_def optional_text_def)
    ultimately show ?thesis using b(2) by (simp add: complete_def web_access_schema_def column_def)
  qed
  moreover have "line_ok ?l"
  proof -
    have nonl: "newline \<notin> set s" if "plain s" for s using that plain_newline by (auto simp: plain_def list_all_iff)
    have "length (show_nat status) \<le> 5" "length (show_nat n) \<le> 5" using assms(7,8) by (auto intro!: length_show_nat)
    then have "length ?l < 4096"
      using ts(1) assms(4-6) dotted_facts(5) [OF ip] by (simp add: web_text_def word_ok_def plain_def)
    moreover have "newline \<notin> set ?l"
      using nonl [OF ts(1)] nonl [OF assms(6)] nonl [OF dotted_facts(1) [OF ip]] nonl [of verb] nonl [of path] assms(4,5)
        show_nat_chars digit_plain plain_newline
      by (auto simp: web_text_def word_ok_def) (auto simp: newline_def)
    ultimately show ?thesis by (simp add: line_ok_def web_text_def)
  qed
  ultimately show ?thesis by (simp add: good_line_def web_access_def)
qed

section \<open>The three sources\<close>

lemma yields_object: "yields I m J (\<lambda>fs. Q (json_object fs)) \<Longrightarrow> yields I (bindG m (\<lambda>fs. returnG (json_object fs))) J Q"
  by (erule yields_bind) (rule yields_return)

lemma flow_line_yields:
  assumes R: "rng_ok R" and k: "k < 2 ^ 32" and std: "std_ok R num S"
  shows "yields (gen_ok k) (flow_line R) (gen_ok (Suc k)) (good_line S generic_flow)"
proof -
  note intn = yields_bind [OF yields_intn [OF R stable_gen_ok]]
  show ?thesis
    unfolding flow_line_def flow_fields_def
    by (rule yields_object, rule yields_bind [OF yields_asn [OF R]], simp only: split_paired_all prod.case,
        rule yields_bind [OF yields_next_ts [OF R k]], rule yields_bind [OF yields_src_ip [OF R]],
        rule intn, simp, rule intn, simp, rule intn, simp, rule intn, simp,
        rule yields_bind [OF yields_zipf_pick [OF R stable_gen_ok, where Q = "\<lambda>p. p < 10 ^ 5"]], simp, simp,
        rule yields_bind [OF yields_even_pick [OF R stable_gen_ok, where Q = plain]], simp, simp add: plain_def plain_char_def,
        rule yields_bind [OF yields_zipf_pick [OF R stable_gen_ok, where Q = plain]], simp, simp add: plain_def plain_char_def,
        rule intn, simp, rule intn, simp, rule yields_return, rule flow_line_decodes [OF std])
       (simp_all add: dotted_ok)
qed

lemma honeypot_line_yields:
  assumes R: "rng_ok R" and k: "k < 2 ^ 32" and std: "std_ok R num S"
  shows "yields (gen_ok k) (honeypot_line R) (gen_ok (Suc k)) (good_line S honeypot)"
proof -
  note pick = yields_bind [OF yields_zipf_pick [OF R stable_gen_ok, where Q = plain]]
  show ?thesis
    unfolding honeypot_line_def honeypot_fields_def
  proof (rule yields_object, rule yields_bind [OF yields_zipf_pick [OF R stable_gen_ok, where Q = "\<lambda>s. plain (fst s) \<and> snd s < 10 ^ 5"]],
      simp add: services_def, simp add: services_def plain_def plain_char_def, simp only: split_paired_all prod.case fst_conv snd_conv,
      rule yields_bind [OF yields_asn [OF R]], simp only: split_paired_all prod.case,
      rule pick, simp, simp add: plain_def plain_char_def,
      rule yields_bind [OF yields_next_ts [OF R k]], rule yields_bind [OF yields_src_ip [OF R]],
      rule yields_bind [OF yields_intn [OF R stable_gen_ok]], simp)
    fix proto port asn cc ev t src sport
    assume a: "plain proto \<and> port < (10 :: nat) ^ 5" "asn_ok (asn, cc)" "plain ev" "time_range t" "is_dotted src" "sport < (64000 :: nat)"
    have good: "good_line S honeypot (json_object ([(''timestamp'', Text (rn_format R rfc3339_nano t)), (''srcip'', Text src),
         (''srcport'', Number (1024 + sport)), (''dstport'', Number port), (''protocol'', Text proto), (''eventtype'', Text ev),
         (''asn'', Number asn), (''country'', Text cc)] @ rest))"
      if "rest = [] \<or> (\<exists>u p. plain u \<and> plain p \<and> rest = [(''username'', Text u), (''password'', Text p)])" for rest
      by (rule honeypot_line_decodes [OF std]) (use a that in simp_all)
    show "yields (gen_ok (Suc k)) (let fs = [(''timestamp'', Text (rn_format R rfc3339_nano t)), (''srcip'', Text src),
         (''srcport'', Number (1024 + sport)), (''dstport'', Number port), (''protocol'', Text proto), (''eventtype'', Text ev),
         (''asn'', Number asn), (''country'', Text cc)] in
       if ev \<noteq> ''scan'' then
         bindG (zipf_pick R [''root'', ''admin'', ''user'', ''test'', ''oracle'', ''ubuntu'', ''guest'', ''postgres'', ''git'',
           ''administrator'']) (\<lambda>user.
         bindG (zipf_pick R [''123456'', ''password'', ''admin'', ''root'', ''12345678'', ''qwerty'', ''1qaz2wsx'', ''letmein'',
           ''P@ssw0rd'']) (\<lambda>pass.
           returnG (fs @ [(''username'', Text user), (''password'', Text pass)])))
       else returnG fs) (gen_ok (Suc k)) (\<lambda>fs. good_line S honeypot (json_object fs))"
    proof (cases "ev = ''scan''")
      case True
      then show ?thesis using good [of "[]"] by (simp add: yields_return)
    next
      case False
      show ?thesis unfolding Let_def if_P [OF False]
        by (rule pick, simp, simp add: plain_def plain_char_def, rule pick, simp, simp add: plain_def plain_char_def,
            rule yields_return, rule good) blast
    qed
  qed
qed

lemma web_line_yields:
  assumes R: "rng_ok R" and k: "k < 2 ^ 32" and std: "std_ok R num S"
  shows "yields (gen_ok k) (web_gen_line R) (gen_ok (Suc k)) (good_line S web_access)"
  unfolding web_gen_line_def
  by (rule yields_bind [OF yields_src_ip [OF R]], rule yields_bind [OF yields_next_ts [OF R k]],
      rule yields_bind [OF yields_even_pick [OF R stable_gen_ok, where Q = word_ok]], simp, simp add: word_ok_def plain_def plain_char_def,
      rule yields_bind [OF yields_zipf_pick [OF R stable_gen_ok, where Q = word_ok]], simp, simp add: word_ok_def plain_def plain_char_def,
      rule yields_bind [OF yields_zipf_pick [OF R stable_gen_ok, where Q = "\<lambda>p. p < 10 ^ 5"]], simp, simp,
      rule yields_bind [OF yields_intn [OF R stable_gen_ok]], simp,
      rule yields_bind [OF yields_zipf_pick [OF R stable_gen_ok, where Q = plain]], simp, simp add: plain_def plain_char_def,
      rule yields_return, rule web_line_decodes [OF std]) simp_all

lemma source_line_yields:
  assumes "rng_ok R" and "k < 2 ^ 32" and "std_ok R num S" and "get_adapter source = Some ad"
  shows "\<exists>line. source_line R source = Some line \<and> yields (gen_ok k) line (gen_ok (Suc k)) (good_line S ad)"
  using assms(4) flow_line_yields [OF assms(1-3)] honeypot_line_yields [OF assms(1-3)] web_line_yields [OF assms(1-3)]
  by (auto simp: source_line_def get_adapter_cases split: if_splits)

section \<open>The text generated\<close>

lemma scan_joined:
  assumes "list_all line_ok ls" and "4096 \<le> lim"
  shows "scan_lines lim (concat (map (\<lambda>l. l @ [newline]) ls)) = (ls, False)"
  using assms(1)
proof (induction ls)
  case (Cons l ls)
  then have "newline \<notin> set l" "length l < lim" "drop_cr l = l" using assms(2) by (auto simp: line_ok_def drop_cr_def)
  then show ?case using Cons scan_line [of l lim "concat (map (\<lambda>l. l @ [newline]) ls)"] by simp
qed simp

lemma generate_lines:
  assumes "rng_ok R" and "std_ok R num S" and "get_adapter source = Some ad" and "n \<le> 2 ^ 32"
  shows "\<exists>ls. generate R source n r = Some (Inr (concat (map (\<lambda>l. l @ [newline]) ls))) \<and> length ls = n \<and> list_all (good_line S ad) ls"
proof -
  obtain line where line: "source_line R source = Some line"
    "\<And>k. k < 2 ^ 32 \<Longrightarrow> yields (gen_ok k) line (gen_ok (Suc k)) (good_line S ad)"
    using source_line_yields [OF assms(1) _ assms(2,3)] by (metis option.inject zero_less_numeral zero_less_power)
  obtain g where g: "new_gen R r = Inr g" "gen_ok 0 g" using new_gen_ok [OF assms(1)] by blast
  have "yields (gen_ok 0) (repeatG n line) (gen_ok n) (\<lambda>ls. length ls = n \<and> list_all (good_line S ad) ls)"
    by (rule yields_repeat) (use line(2) assms(4) in simp)
  then obtain ls g1 where "repeatG n line g = Inr (ls, g1)" "length ls = n" "list_all (good_line S ad) ls"
    using g(2) unfolding yields_def by blast
  then show ?thesis using line(1) g(1) by (auto simp: generate_def)
qed

lemma good_lines_records:
  assumes "list_all (good_line S ad) ls" and "4096 \<le> lim"
  shows "lines_fit lim (concat (map (\<lambda>l. l @ [newline]) ls))
    \<and> text_records (ad_Decode ad S) lim (concat (map (\<lambda>l. l @ [newline]) ls)) = map (the \<circ> ad_Decode ad S) ls
    \<and> list_all (complete (sch_Columns (ad_Schema ad))) (map (the \<circ> ad_Decode ad S) ls)"
proof -
  have "list_all line_ok ls" using assms(1) by (auto simp: good_line_def list_all_iff)
  note scan = scan_joined [OF this assms(2)]
  have "List.map_filter (ad_Decode ad S) ls = map (the \<circ> ad_Decode ad S) ls"
    using assms(1) by (induction ls) (auto simp: map_filter_simps good_line_def)
  moreover have "list_all (complete (sch_Columns (ad_Schema ad))) (map (the \<circ> ad_Decode ad S) ls)"
    using assms(1) by (fastforce simp: good_line_def list_all_iff)
  ultimately show ?thesis by (simp add: lines_fit_def text_records_def scan)
qed

text \<open>
  C30: for every source and any number of records up to 2^32, the generator never fails, and
  of the text it writes the scanner and the adapter of the same source make exactly that
  many records: no line is skipped, and no value is missing where the schema asks for one, or longer than 64 bytes.
\<close>

theorem generated_text_decodes:
  assumes "rng_ok R" and "std_ok R num S" and "get_adapter source = Some ad" and "n \<le> 2 ^ 32"
  shows "\<exists>text. generate R source n r = Some (Inr text) \<and> lines_fit (line_limit maxLine) text
    \<and> length (text_records (ad_Decode ad S) (line_limit maxLine) text) = n
    \<and> list_all (complete (sch_Columns (ad_Schema ad))) (text_records (ad_Decode ad S) (line_limit maxLine) text)"
proof -
  obtain ls where ls: "generate R source n r = Some (Inr (concat (map (\<lambda>l. l @ [newline]) ls)))" "length ls = n"
    "list_all (good_line S ad) ls" using generate_lines [OF assms] by blast
  have "4096 \<le> line_limit maxLine" by (simp add: line_limit_def)
  from good_lines_records [OF ls(3) this] show ?thesis using ls(1,2) by auto
qed

section \<open>A library that satisfies the assumptions\<close>

text \<open>Times as numbers of nanoseconds, and a decoder of flat objects.\<close>

definition scan_value :: "string \<Rightarrow> json_field \<times> string" where
  "scan_value r =
     (if take 1 r = [CHR 0x22]
      then let v = takeWhile (\<lambda>c. c \<noteq> CHR 0x22) (drop 1 r) in (Text v, drop (length v + 2) r)
      else let v = takeWhile is_digit r in (Number (the (digits_value v)), drop (length v) r))"

lemma scan_value_length: "length (snd (scan_value r)) \<le> length r"
  by (simp add: scan_value_def Let_def)

function read_pairs :: "string \<Rightarrow> (string \<times> json_field) list" where
  "read_pairs s =
     (if s = [] then []
      else let k = takeWhile (\<lambda>c. c \<noteq> CHR 0x22) (drop 1 s) in
        case scan_value (drop (length k + 3) s) of
          (v, rest) \<Rightarrow> (k, v) # (if take 1 rest = '','' then read_pairs (drop 1 rest) else []))"
  by pat_completeness auto
termination
proof (relation "measure length")
  fix s k :: string and v rest
  assume "s \<noteq> []" and "(v, rest) = scan_value (drop (length k + 3) s)"
  then have "length rest \<le> length (drop (length k + 3) s)" using scan_value_length by (metis snd_conv)
  then show "(drop 1 rest, s) \<in> measure length" using \<open>s \<noteq> []\<close> by (cases s) auto
qed simp

declare read_pairs.simps [simp del]

lemma scan_value_text:
  assumes "field_ok f" and "rest = [] \<or> \<not> is_digit (hd rest)"
  shows "scan_value (field_text f @ rest) = (f, rest)"
proof (cases f)
  case (Text s)
  then have "CHR 0x22 \<notin> set s" using assms(1) by (auto simp: field_ok_def plain_def plain_char_def list_all_iff)
  then show ?thesis using Text takeWhile_stop [of "CHR 0x22" s rest] by (simp add: scan_value_def)
next
  case (Number n)
  have "takeWhile is_digit (show_nat n @ rest) = show_nat n"
    using show_nat_digits [of n] assms(2) by (cases rest) (auto simp: takeWhile_append list_all_iff)
  moreover have "take 1 (show_nat n @ rest) \<noteq> [CHR 0x22]"
    using show_nat_digits [of n] show_nat_chars [of "CHR 0x22" n] by (cases "show_nat n") (auto simp: is_digit_def less_eq_char_def)
  ultimately show ?thesis using Number by (simp add: scan_value_def digits_value_show)
qed

lemma read_pair:
  assumes "plain k" and "field_ok f" and "rest = [] \<or> \<not> is_digit (hd rest)"
  shows "read_pairs (pair_text (k, f) @ rest) = (k, f) # (if take 1 rest = '','' then read_pairs (drop 1 rest) else [])"
proof -
  have "CHR 0x22 \<notin> set k" using assms(1) by (auto simp: plain_def plain_char_def list_all_iff)
  then have "takeWhile (\<lambda>c. c \<noteq> CHR 0x22) (drop 1 (pair_text (k, f) @ rest)) = k"
    using takeWhile_stop [of "CHR 0x22" k "'':'' @ field_text f @ rest"] by (simp add: pair_text_def)
  moreover have "drop (length k + 3) (pair_text (k, f) @ rest) = field_text f @ rest"
    by (simp add: pair_text_def numeral_3_eq_3)
  ultimately show ?thesis using scan_value_text [OF assms(2,3)] by (subst read_pairs.simps) (simp add: pair_text_def Let_def)
qed

lemma read_pairs_text:
  assumes "list_all (\<lambda>kv. plain (fst kv) \<and> field_ok (snd kv)) kvs" and "kvs \<noteq> []"
  shows "read_pairs (pairs_text kvs @ ''}'') = kvs"
  using assms
proof (induction kvs rule: pairs_text.induct)
  case (2 kv)
  then show ?case using read_pair [of "fst kv" "snd kv" "''}''"] by (simp add: is_digit_def less_eq_char_def)
next
  case (3 kv kw kvs)
  then show ?case using read_pair [of "fst kv" "snd kv" "'','' @ pairs_text (kw # kvs) @ ''}''"]
    by (simp add: is_digit_def less_eq_char_def)
qed simp

definition flat_source :: "nat source_env" where
  "flat_source = \<lparr>se_std = \<lparr>parse_time = (\<lambda>l s. map_option of_nat (digits_value s)), format_time = (\<lambda>v. ''t''),
       parse_addr = (\<lambda>s. Some (replicate 16 0)), addr_text = (\<lambda>b. ''a'')\<rparr>,
     se_json = (\<lambda>s. Some (map_of (map (\<lambda>kv. (fst kv, json_value id (snd kv))) (read_pairs (drop 1 s))))),
     se_fmt = show_nat, se_neg = (\<lambda>n. False), se_u64 = of_nat, se_i64 = of_nat, se_parse_float = (\<lambda>s. None)\<rparr>"

definition flat_rng :: "(nat, nat) rng" where
  "flat_rng = \<lparr>rn_intn = (\<lambda>n r. ((r + 1) mod n, (r + 7) mod 1000)), rn_float = (\<lambda>r. (r, (r + 3) mod 1000)),
     rn_square = (\<lambda>x n. x mod n), rn_format = (\<lambda>l t. show_nat (nat t))\<rparr>"

lemma flat_rng_ok: "rng_ok flat_rng"
  by (simp add: rng_ok_def flat_rng_def)

lemma flat_std_ok: "std_ok flat_rng id flat_source"
proof -
  have "plain (show_nat (nat t)) \<and> show_nat (nat t) \<noteq> [] \<and> CHR '']'' \<notin> set (show_nat (nat t))" if "time_range t" for t
  proof -
    have "nat t < 2 ^ 63" using that by (auto simp: time_range_def)
    then have "nat t < 10 ^ 64" by simp
    then have "length (show_nat (nat t)) \<le> 64" by (rule length_show_nat) simp
    moreover have "\<not> is_digit (CHR '']'')" by (simp add: is_digit_def less_eq_char_def)
    ultimately show ?thesis using show_nat_digits [of "nat t"] digit_plain show_nat_chars by (auto simp: plain_def list_all_iff)
  qed
  moreover have "of_nat (nat t) = (word_of_int t :: u64)" if "time_range t" for t
    using that by (simp add: time_range_def of_nat_nat)
  ultimately have "times_parse flat_rng (se_std flat_source)"
    by (simp add: times_parse_def flat_rng_def flat_source_def digits_value_show)
  moreover have "json_parses id flat_source"
    using read_pairs_text by (simp add: json_parses_def flat_source_def json_object_def fields_ok_def)
  ultimately show ?thesis by (simp add: std_ok_def addresses_parse_def flat_source_def)
qed

theorem generated_text_decodes_witness:
  "\<exists>text. generate flat_rng ''honeypot'' 1000 0 = Some (Inr text)
     \<and> length (text_records (honeypot_decode flat_source) (line_limit 0) text) = 1000"
  using generated_text_decodes [OF flat_rng_ok flat_std_ok, of "''honeypot''" honeypot 1000 0 0]
  by (auto simp: get_adapter_cases honeypot_def)

end
