(* ===== verification/Sizes.thy ===== *)
theory Sizes
  imports Samples
begin

text \<open>
  How large the files of a writer become: bounds on payloads, chunks, indexes and footers. For
  records of bounded size they discharge the conditions \<open>table_storable\<close> and \<open>readable\<close> that
  the ceilings of the reader put on a file.
\<close>

section \<open>Payloads\<close>

lemma encode_raw_size: "\<forall>v \<in> set vals. length v \<le> m \<Longrightarrow> length (encode_raw vals) \<le> length vals * (m + 10)"
proof (induction vals)
  case (Cons v vals)
  have "length (put_value v) \<le> m + 10"
    using Cons.prems length_put_uvarint_le10 [of "of_nat (length v)"] by (simp add: put_value_def)
  then show ?case using Cons by (simp add: encode_raw_def)
qed (simp add: encode_raw_def)

lemma encode_ints_size:
  assumes "encode_ints_auto vals = Inr (cid, b)"
  shows "length b \<le> 8 * length vals"
proof (cases "vals = []")
  case False
  then obtain st where "select_ints vals st = (cid, b)" using assms by (auto simp: encode_ints_auto_def res_iff)
  then show ?thesis using select_ints_length(1) [of vals st] by (simp add: length_encode_plain)
qed (use assms in \<open>simp add: encode_ints_auto_def\<close>)

lemma encode_semantic_size:
  assumes "builder_ok b" and "\<forall>v \<in> set (b_bytes b). length v \<le> m"
  obtains e encoded where "encode_semantic b = Inr (e, encoded)" and "length encoded \<le> b_rows b * (m + 10)"
proof (cases "b_kind b = KindInt")
  case True
  obtain e encoded where e: "encode_ints_auto (b_ints b) = Inr (e, encoded)"
    by (metis encode_ints_auto_total obj_sumE prod.exhaust)
  have "length encoded \<le> 8 * b_rows b" using encode_ints_size [OF e] assms(1) True by (simp add: builder_ok_def)
  then have "length encoded \<le> b_rows b * (m + 10)" by (simp add: algebra_simps)
  then show ?thesis using that e True by (simp add: encode_semantic_def)
next
  case False
  have "length (snd (encode_bytes_auto (b_bytes b))) \<le> b_rows b * (m + 10)"
    using encode_bytes_auto_length [of "b_bytes b"] encode_raw_size [OF assms(2)] assms(1) False
    by (auto simp: builder_ok_def)
  then show ?thesis using that False by (cases "encode_bytes_auto (b_bytes b)") (simp add: encode_semantic_def)
qed

section \<open>Tables that can be stored\<close>

text \<open>An entropy codec on sources of at most \<open>n\<close> bytes: it is undone, and shrinks them at most 256 times.\<close>

definition codec_fits :: "externals \<Rightarrow> comp_id \<Rightarrow> nat \<Rightarrow> bool" where
  "codec_fits X cid n \<longleftrightarrow> (\<forall>src. length src \<le> n \<longrightarrow>
     inverts X cid src \<and> (cid = CompNone \<or> compress X cid src = [] \<or> length src \<le> 256 * length (compress X cid src)))"

lemma none_fits [simp]: "codec_fits X CompNone n"
  by (simp add: codec_fits_def inverts_def)

text \<open>What the codecs compress to 256 bytes or less needs no bound on the ratio.\<close>

lemma short_fits: "\<forall>src. inverts X cid src \<Longrightarrow> n \<le> 256 \<Longrightarrow> codec_fits X cid n"
  unfolding codec_fits_def
proof (intro allI impI conjI)
  fix src :: bytes assume "\<forall>src. inverts X cid src" and "n \<le> 256" and "length src \<le> n"
  then show "cid = CompNone \<or> compress X cid src = [] \<or> length src \<le> 256 * length (compress X cid src)"
    by (cases "compress X cid src") auto
qed simp

lemma stored_within_limits:
  assumes "codec_fits X cid n" and "length encoded \<le> n" and "n \<le> 2 ^ 30"
  shows "within_limits (snd (entropy_stage X (Some cid) encoded)) encoded"
proof -
  have "length encoded div length c \<le> 256" if "length encoded \<le> 256 * length c" "c \<noteq> []" for c :: bytes
  proof -
    have "length encoded div length c \<le> 256 * length c div length c" by (rule div_le_mono [OF that(1)])
    then show ?thesis using that(2) by simp
  qed
  moreover have "length encoded div length encoded \<le> 256" by (cases "length encoded = 0") simp_all
  moreover have "cid = CompNone \<or> compress X cid encoded = [] \<or> length encoded \<le> 256 * length (compress X cid encoded)"
    using assms(1,2) by (simp add: codec_fits_def)
  ultimately show ?thesis
    using assms(2,3) by (auto simp: within_limits_def entropy_stage_def Let_def)
qed

text \<open>Cells whose bytes are at most \<open>m\<close> long, in columns that take them.\<close>

definition small_cell :: "nat \<Rightarrow> cell \<Rightarrow> bool" where
  "small_cell m c \<longleftrightarrow> (case c of BytesCell v \<Rightarrow> length v \<le> m | _ \<Rightarrow> True)"

definition small_row :: "nat \<Rightarrow> column_def list \<Rightarrow> cell list \<Rightarrow> bool" where
  "small_row m cols row \<longleftrightarrow>
     length row = length cols \<and> (\<forall>j < length cols. small_cell m (row ! j) \<and> cell_fits (type_kind (col_Type (cols ! j))) (row ! j))"

lemma column_builder_append: "column_builder k (cells @ [c]) = append_cell c (column_builder k cells)"
  by (simp add: column_builder_def)

lemma column_builder_ok:
  assumes "k = KindInt \<or> k = KindBytes" and "\<forall>c \<in> set cells. cell_fits k c"
  shows "builder_ok (column_builder k cells) \<and> b_kind (column_builder k cells) = k \<and> builder_cells (column_builder k cells) = cells"
  using assms(2)
proof (induction cells rule: rev_induct)
  case Nil
  show ?case using builder_ok_new [OF assms(1)] by (simp add: column_builder_def builder_cells_def) (simp add: new_builder_def)
next
  case (snoc c cells)
  have IH: "builder_ok (column_builder k cells) \<and> b_kind (column_builder k cells) = k \<and> builder_cells (column_builder k cells) = cells"
    using snoc by simp
  from append_cell_ok [of "column_builder k cells" c] IH snoc.prems show ?case by (simp add: column_builder_append)
qed

lemma append_cell_values: "set (b_bytes (append_cell c b)) \<subseteq> {v. v = [] \<or> c = BytesCell v} \<union> set (b_bytes b)"
  by (cases c) (auto simp: append_null_def append_int_def append_bytes_def Let_def split: option.splits)

lemma column_builder_values: "v \<in> set (b_bytes (column_builder k cells)) \<Longrightarrow> v = [] \<or> BytesCell v \<in> set cells"
proof (induction cells rule: rev_induct)
  case Nil
  then show ?case by (simp add: column_builder_def) (simp add: new_builder_def)
next
  case (snoc c cells)
  then show ?case using append_cell_values [of c "column_builder k cells"] by (auto simp: column_builder_append)
qed

lemma dict_values_small:
  assumes "\<forall>v \<in> set vals. length v \<le> m" and "length vals \<le> n" and "n \<le> 2 ^ 24" and "m \<le> 2 ^ 24" and "n * m \<le> 2 ^ 30"
  shows "dict_bytes_ok vals"
proof -
  let ?dict = "sort (dict_collect vals)"
  have "set ?dict \<subseteq> set vals" by simp
  have "sum_list (map length ?dict) \<le> sum_list (map (\<lambda>_. m) ?dict)"
    by (rule sum_list_mono) (use assms(1) in simp)
  also have "... = length ?dict * m" by (simp add: sum_list_triv)
  also have "... \<le> n * m" using length_dict_collect [of vals] assms(2) by (intro mult_right_mono) simp_all
  finally have "table_size ?dict \<le> unat MaxStringTableBytes" using assms(5) by (simp add: table_size_def limit_defs)
  then show ?thesis
    using assms(1-4) by (auto simp: dict_bytes_ok_def list_all_iff value_ok_def limit_defs)
qed

text \<open>The columns of a table of small rows.\<close>

lemma small_column:
  assumes "\<forall>row \<in> set table. small_row m cols row" and j: "j < length cols"
  defines "b \<equiv> column_builder (type_kind (col_Type (cols ! j))) (map (\<lambda>row. row ! j) table)"
  shows "builder_ok b" and "b_kind b = type_kind (col_Type (cols ! j))" and "b_rows b = length table"
    and "\<forall>v \<in> set (b_bytes b). length v \<le> m"
proof -
  let ?k = "type_kind (col_Type (cols ! j))" and ?cells = "map (\<lambda>row. row ! j) table"
  have "\<forall>c \<in> set ?cells. cell_fits ?k c" using assms(1) j by (auto simp: small_row_def)
  from column_builder_ok [OF type_kind_cases this]
  have b: "builder_ok b" "b_kind b = ?k" "builder_cells b = ?cells" by (simp_all add: b_def)
  show "builder_ok b" "b_kind b = ?k" by (rule b)+
  have "length (builder_cells b) = b_rows b" by (simp add: builder_cells_def)
  then show "b_rows b = length table" using b(3) by simp
  show "\<forall>v \<in> set (b_bytes b). length v \<le> m"
  proof
    fix v assume "v \<in> set (b_bytes b)"
    from column_builder_values [OF this [unfolded b_def]] have "v = [] \<or> BytesCell v \<in> set ?cells" .
    then obtain row where "v = [] \<or> row \<in> set table \<and> row ! j = BytesCell v" by force
    then show "length v \<le> m" using assms(1) j by (auto simp: small_row_def small_cell_def dest!: bspec spec [of _ j])
  qed
qed

lemma small_table_storable:
  assumes rows: "\<forall>row \<in> set table. small_row m cols row" and n: "length table \<le> n" "n \<le> 2 ^ 24" "m \<le> 2 ^ 24"
    and size: "n * (m + 10) \<le> 2 ^ 30" and codec: "codec_fits X cid (n * (m + 10))"
  shows "table_storable X cid cols table"
  unfolding table_storable_def list_all_iff
proof
  fix j assume "j \<in> set [0..<length cols]"
  then have j: "j < length cols" by simp
  let ?b = "column_builder (type_kind (col_Type (cols ! j))) (map (\<lambda>row. row ! j) table)"
  note b = small_column [OF rows j]
  obtain e encoded where e: "encode_semantic ?b = Inr (e, encoded)" "length encoded \<le> length table * (m + 10)"
    using encode_semantic_size [OF b(1,4)] b(3) by metis
  have "length table * (m + 10) \<le> n * (m + 10)" using n(1) by (rule mult_right_mono) simp
  with e(2) have len: "length encoded \<le> n * (m + 10)" by (rule order.trans)
  have "n * m \<le> 2 ^ 30" using size by (simp add: algebra_simps)
  then have "dict_bytes_ok (b_bytes ?b)" if "b_kind ?b = KindBytes"
    using dict_values_small [OF b(4) _ n(2,3)] b(1,3) n(1) that by (simp add: builder_ok_def)
  then have "values_ok ?b" using b(3) n(1,2) by (simp add: values_ok_def)
  moreover have "inverts X cid encoded" using codec len by (simp add: codec_fits_def)
  ultimately show "column_ready X cid ?b"
    using stored_within_limits [OF codec len size] e(1) by (simp add: column_ready_def)
qed

section \<open>Chunks and indexes\<close>

lemma chunk_size:
  assumes "builder_ok b" and "encode_semantic b = Inr (e, encoded)" and "builder_encode X (Some cid) b = Inr (chunk, st)"
  shows "length chunk \<le> length encoded + b_rows b + 100"
proof -
  obtain c stored where s: "entropy_stage X (Some cid) encoded = (c, stored)" by fastforce
  have short: "length stored \<le> length encoded" using s by (auto simp: entropy_stage_def Let_def split: if_splits)
  have chunk: "encode_chunk_bytes X (b_kind b) e c b (length encoded) stored = Inr chunk"
    using assms(2,3) s by (auto simp: builder_encode_def res_iff)
  have v: "length (put_uvarint v) \<le> 10" for v by (rule length_put_uvarint_le10)
  show ?thesis
  proof (cases "b_present b")
    case None
    then show ?thesis
      using chunk short v [of "of_nat (b_rows b)"] v [of "of_nat (length encoded)"] v [of "of_nat (length stored)"]
      by (auto simp: encode_chunk_bytes_def Let_def)
  next
    case (Some p)
    then have "length p = b_rows b" using assms(1) by (auto simp: builder_ok_def)
    from fill_bitmap_ok [OF this] obtain bm where bm: "fill_bitmap p (b_rows b) = Inr bm"
      "length (bm_bits bm) = (b_rows b + 7) div 8" by blast
    then have "length (bm_bits bm) \<le> b_rows b + 7" by simp
    then show ?thesis
      using chunk short bm(1) Some v [of "of_nat (b_rows b)"] v [of "of_nat (length encoded)"] v [of "of_nat (length stored)"]
        v [of "of_nat (length (bm_bits bm))"]
      by (auto simp: encode_chunk_bytes_def Let_def)
  qed
qed

lemma filter_blob_size:
  assumes "length (bl_bits bl) \<le> 2 ^ 28"
  shows "length (append_index R \<lparr>ci_Bloom = Some bl, ci_Inverted = None\<rparr>) \<le> 2 ^ 32"
  using assms length_put_uvarint_le10 [of "of_nat (length (bl_bits bl))"] length_concat_bound [of "bl_bits bl" le64 8]
  by (simp add: append_index_def append_bloom_def)

lemma index_size:
  assumes "sizing_ok (we_S V)" and "builder_ok b" and "b_kind b = type_kind (col_Type col)" and "b_rows b \<le> 2 ^ 24"
    and "index_blob V False col b = Inr blob"
  shows "length blob \<le> 2 ^ 32"
proof (cases "type_kind (col_Type col) = KindInt")
  case True
  then have "length (b_ints b) \<le> 2 ^ 24" using assms(2-4) by (simp add: builder_ok_def)
  then obtain bl where "build_filter (we_S V) (bloom_add_u64 (we_X V)) (b_ints b) (Some (present_at b)) = Inr bl"
    "length (bl_bits bl) \<le> 2 ^ 28"
    using int_adder.build_filter_ok [of "we_S V" "we_X V" "b_ints b" "Some (present_at b)"] new_bloom_length [OF assms(1)]
    by (metis order.trans)
  then show ?thesis using assms(5) True filter_blob_size by (auto simp: index_blob_def build_int_column_def)
next
  case False
  then have "length (b_bytes b) \<le> 2 ^ 24" using assms(2-4) by (auto simp: builder_ok_def)
  then obtain bl where "build_filter (we_S V) (bloom_add (we_X V)) (b_bytes b) (Some (present_at b)) = Inr bl"
    "length (bl_bits bl) \<le> 2 ^ 28"
    using bytes_adder.build_filter_ok [of "we_S V" "we_X V" "b_bytes b" "Some (present_at b)"] new_bloom_length [OF assms(1)]
    by (metis order.trans)
  then show ?thesis using assms(5) False filter_blob_size by (auto simp: index_blob_def build_bytes_column_def)
qed

section \<open>Flushes\<close>

definition small_dir :: "nat \<Rightarrow> column_dir \<Rightarrow> bool" where
  "small_dir m cd \<longleftrightarrow> length (cd_MinBytes cd) \<le> m \<and> length (cd_MaxBytes cd) \<le> m"

text \<open>A builder with at most \<open>n\<close> rows of at most \<open>m\<close> bytes each.\<close>

definition small_builder :: "nat \<Rightarrow> nat \<Rightarrow> builder \<Rightarrow> bool" where
  "small_builder n m b \<longleftrightarrow> builder_ok b \<and> b_rows b \<le> n \<and> (\<forall>v \<in> set (b_bytes b). length v \<le> m)"

lemma stats_dir_small:
  assumes "small_builder n m b" and "b_kind b = type_kind (col_Type col)" and "builder_stats b = Inr st"
  shows "small_dir m (stats_dir col st)"
proof (cases "b_kind b = KindInt")
  case False
  then have "b_kind b = KindBytes" using assms(1) by (auto simp: small_builder_def builder_ok_def)
  then have "length (cs_MinBytes st) \<le> m \<and> length (cs_MaxBytes st) \<le> m"
    using assms(1,3) by (intro stats_bytes_bound) (auto simp: small_builder_def)
  then show ?thesis by (simp add: small_dir_def stats_dir_def Let_def)
qed (use assms(2) in \<open>simp add: small_dir_def stats_dir_def\<close>)

lemma flush_column_size:
  assumes V: "reliable V" "sizing_ok (we_S V)" and b: "small_builder n m b" "b_kind b = type_kind (col_Type col)"
    and n: "n \<le> 2 ^ 24" "n * (m + 10) \<le> 2 ^ 30" and opts: "\<not> wo_BuildInverted (w_opts w)"
    and run: "flush_column V col b w = (Inr cd, w')"
  shows "\<exists>p. w' = grow p w \<and> length p \<le> 2 ^ 33" and "small_dir m cd"
proof -
  have ok: "builder_ok b" "b_rows b \<le> n" "\<forall>v \<in> set (b_bytes b). length v \<le> m" using b(1) by (simp_all add: small_builder_def)
  obtain e encoded where e: "encode_semantic b = Inr (e, encoded)" "length encoded \<le> b_rows b * (m + 10)"
    by (rule encode_semantic_size [OF ok(1,3)])
  have "b_rows b * (m + 10) \<le> n * (m + 10)" using ok(2) by (rule mult_right_mono) simp
  then have enc: "length encoded \<le> 2 ^ 30" using e(2) n(2) by linarith
  obtain st where st: "builder_stats b = Inr st" using run by (cases "builder_stats b") (auto simp: flush_column_def)
  obtain chunk st' where chunk: "builder_encode (we_X V) (Some (w_codec w)) b = Inr (chunk, st')"
    using run st by (cases "builder_encode (we_X V) (Some (w_codec w)) b") (auto simp: flush_column_def)
  have len: "length chunk \<le> 2 ^ 32" using chunk_size [OF ok(1) e(1) chunk] enc ok(2) n(1) by simp
  let ?cd = "(stats_dir col st)\<lparr>cd_ChunkOffset := w_pos w, cd_ChunkLength := of_nat (length chunk)\<rparr>"
  have dir: "small_dir m (stats_dir col st)" by (rule stats_dir_small [OF b st])
  have "(\<exists>p. w' = grow p w \<and> length p \<le> 2 ^ 33) \<and> small_dir m cd"
  proof (cases "col_Indexed col")
    case False
    then have "w' = grow chunk w" "cd = ?cd"
      using run st chunk by (simp_all add: flush_column_def writer_write_ok [OF V(1)] Let_def)
    then show ?thesis using len dir by (auto simp: small_dir_def)
  next
    case True
    obtain blob where blob: "index_blob V False col b = Inr blob"
      using run st chunk opts True
      by (cases "index_blob V False col b") (auto simp: flush_column_def writer_write_ok [OF V(1)] Let_def)
    have "length blob \<le> 2 ^ 32" by (rule index_size [OF V(2) ok(1) b(2) _ blob]) (use ok(2) n(1) in simp)
    moreover have "w' = grow blob (grow chunk w)"
      "cd = ?cd\<lparr>cd_IndexOffset := w_pos (grow chunk w), cd_IndexLength := of_nat (length blob)\<rparr>"
      using run st chunk opts True blob by (simp_all add: flush_column_def writer_write_ok [OF V(1)] Let_def)
    ultimately show ?thesis using len dir by (intro conjI exI [of _ "chunk @ blob"]) (auto simp: small_dir_def)
  qed
  then show "\<exists>p. w' = grow p w \<and> length p \<le> 2 ^ 33" "small_dir m cd" by blast+
qed

lemma flush_columns_size:
  assumes V: "reliable V" "sizing_ok (we_S V)" and n: "n \<le> 2 ^ 24" "n * (m + 10) \<le> 2 ^ 30"
    and "\<not> wo_BuildInverted (w_opts w)" and "list_all2 (\<lambda>c b. small_builder n m b \<and> b_kind b = type_kind (col_Type c)) cols bs"
    and "flush_columns V cols bs w = (Inr cds, w')"
  shows "\<exists>p. w' = grow p w \<and> length p \<le> length cols * 2 ^ 33 \<and> list_all (small_dir m) cds"
  using assms(6,5,7)
proof (induction cols bs arbitrary: w cds rule: list_all2_induct)
  case Nil
  then show ?case by (intro exI [of _ "[]"]) simp
next
  case (Cons c cols b bs)
  obtain cd w1 where c: "flush_column V c b w = (Inr cd, w1)"
    using Cons.prems(2) by (auto simp: bindW_def split: prod.splits sum.splits)
  then obtain cds' where cds: "flush_columns V cols bs w1 = (Inr cds', w')" "cds = cd # cds'"
    using Cons.prems(2) by (auto simp: bindW_def split: prod.splits sum.splits)
  have size: "\<exists>p. w1 = grow p w \<and> length p \<le> 2 ^ 33" "small_dir m cd"
    using flush_column_size [OF V _ _ n Cons.prems(1) c] Cons.hyps(1) by blast+
  then obtain p where p: "w1 = grow p w" "length p \<le> 2 ^ 33" by blast
  obtain q where q: "w' = grow q w1" "length q \<le> length cols * 2 ^ 33" "list_all (small_dir m) cds'"
    using Cons.IH [of w1 cds'] cds(1) Cons.prems(1) p(1) by auto
  have "w' = grow (p @ q) w" using p(1) q(1) by simp
  moreover have "length (p @ q) \<le> length (c # cols) * 2 ^ 33" using p(2) q(2) by simp
  ultimately show ?case using size(2) q(3) cds(2) by auto
qed

section \<open>Runs\<close>

text \<open>
  What \<open>k\<close> operations leave: at most \<open>k\<close> segments with short bounds, and a stream of at most
  \<open>2^46\<close> bytes for each of them and the header.
\<close>

definition sized :: "nat \<Rightarrow> nat \<Rightarrow> writer \<Rightarrow> bool" where
  "sized m k w \<longleftrightarrow> length (w_segments w) \<le> k \<and> (\<forall>sd \<in> set (w_segments w). list_all (small_dir m) (sd_Columns sd))
     \<and> length (w_out w) \<le> Suc k * 2 ^ 46"

lemma sized_mono: "sized m k w \<Longrightarrow> sized m (Suc k) w"
  by (simp add: sized_def)

lemma sized_grow:
  "sized m k w \<Longrightarrow> length p \<le> 2 ^ 46 \<Longrightarrow> sized m (Suc k) ((grow p w)\<lparr>w_dirty := b\<rparr>)"
  by (simp add: sized_def)

lemma sized_flush:
  assumes V: "reliable V" "sizing_ok (we_S V)" and n: "n \<le> 2 ^ 24" "n * (m + 10) \<le> 2 ^ 30"
    and opts: "\<not> wo_BuildInverted (w_opts w)" and cols: "length (sch_Columns (w_schema w)) \<le> 4096"
    and bs: "list_all2 (\<lambda>c b. small_builder n m b \<and> b_kind b = type_kind (col_Type c)) (sch_Columns (w_schema w)) (w_builders w)"
    and w: "sized m k w" and run: "flush_segment V w = (Inr (), w')"
  shows "sized m (Suc k) w' \<and> length (w_out w') \<le> length (w_out w) + 2 ^ 45"
proof (cases "index_at (w_builders w) 0")
  case (Inr b0)
  show ?thesis
  proof (cases "b_rows b0 = 0")
    case True
    then show ?thesis using Inr run w sized_mono by (auto simp: flush_segment_def)
  next
    case False
    obtain cds w1 where c: "flush_columns V (sch_Columns (w_schema w)) (w_builders w) w = (Inr cds, w1)"
      using run Inr False by (auto simp: flush_segment_def bindW_def split: prod.splits sum.splits)
    from flush_columns_size [OF V n opts bs this] obtain p where p: "w1 = grow p w"
      "length p \<le> length (sch_Columns (w_schema w)) * 2 ^ 33" "list_all (small_dir m) cds" by blast
    have "length (sch_Columns (w_schema w)) * 2 ^ 33 \<le> 4096 * 2 ^ 33" using cols by (rule mult_right_mono) simp
    then have len: "length p \<le> 2 ^ 45" using p(2) by simp
    obtain ts where "segment_times w1 = Inr ts" using run Inr False c by (cases "segment_times w1") (auto simp: flush_segment_def)
    then obtain seg where "w_out w' = w_out w @ p" "w_segments w' = w_segments w @ [seg]" "sd_Columns seg = cds"
      using run Inr False c p(1) by (auto simp: flush_segment_def Let_def)
    then show ?thesis using w len p(3) by (auto simp: sized_def)
  qed
qed (use run in \<open>simp add: flush_segment_def\<close>)

section \<open>Footers\<close>

text \<open>The footer of \<open>k\<close> segments stays within the ceiling.\<close>

definition footer_room :: "nat \<Rightarrow> nat \<Rightarrow> schema \<Rightarrow> bool" where
  "footer_room m k sch \<longleftrightarrow>
     length (append_descriptor sch) + 4200 + k * (60 + length (sch_Columns sch) * (70 + 2 * m)) \<le> 2 ^ 28"

lemma column_dir_size: "small_dir m cd \<Longrightarrow> length (append_column_dir k cd) \<le> 70 + 2 * m"
  using length_put_uvarint_le10 [of "cd_NonNull cd"] length_put_uvarint_le10 [of "of_nat (length (cd_MinBytes cd))"]
    length_put_uvarint_le10 [of "of_nat (length (cd_MaxBytes cd))"]
  by (simp add: append_column_dir_def put_string_def small_dir_def)

lemma column_dirs_size: "list_all (small_dir m) cds \<Longrightarrow> length (column_dirs_bytes cols cds) \<le> length cols * (70 + 2 * m)"
proof (induction cols cds rule: column_dirs_bytes.induct)
  case (1 d ds cd cds)
  then show ?case using column_dir_size [of m cd "type_kind (col_Type d)"] by simp
qed simp_all

lemma segment_bytes_size:
  "list_all (small_dir m) (sd_Columns sd) \<Longrightarrow> length (segment_bytes sch sd) \<le> 60 + length (sch_Columns sch) * (70 + 2 * m)"
  using length_put_uvarint_le10 [of "sd_Rows sd"] length_put_uvarint_le10 [of "of_nat (length (sd_Columns sd))"]
    column_dirs_size [of m "sd_Columns sd" "sch_Columns sch"]
  by (simp add: segment_bytes_def)

lemma footer_body_size:
  assumes "sized m k w" and "length (wo_SourceType (w_opts w)) \<le> 4096" and "footer_room m k (w_schema w)"
  shows "length (footer_body (writer_footer w)) \<le> 2 ^ 28"
proof -
  let ?s = "60 + length (sch_Columns (w_schema w)) * (70 + 2 * m)"
  have "length (concat (map (segment_bytes (w_schema w)) (w_segments w))) \<le> ?s * length (w_segments w)"
    using assms(1) segment_bytes_size by (intro length_concat_bound) (auto simp: sized_def)
  also have "... \<le> k * ?s" using assms(1) by (subst mult.commute) (rule mult_right_mono, auto simp: sized_def)
  finally have "length (concat (map (segment_bytes (w_schema w)) (w_segments w))) \<le> k * ?s" .
  then show ?thesis
    using assms(2,3) length_put_uvarint_le10 [of "of_nat (length (wo_SourceType (w_opts w)))"]
      length_put_uvarint_le10 [of "of_nat (length (w_segments w))"]
    unfolding footer_room_def by (simp add: footer_body_def writer_footer_def put_string_def)
qed

lemma sized_readable:
  assumes "sized m k w" and "validate (w_schema w) = Inr ()" and "names_fit (w_schema w)"
    and "length (wo_SourceType (w_opts w)) \<le> 4096" and "footer_room m k (w_schema w)" and "k \<le> 2 ^ 15"
  shows "readable w"
proof -
  have "Suc k * 2 ^ 46 \<le> (2 ^ 15 + 1) * 2 ^ 46" using assms(6) by (intro mult_right_mono) simp_all
  then have "length (w_out w) \<le> (2 ^ 15 + 1) * 2 ^ 46" using assms(1) unfolding sized_def by linarith
  moreover have "length (w_segments w) \<le> unat MaxSegments" using assms(1,6) by (simp add: sized_def limit_defs)
  ultimately show ?thesis
    using assms(2-4) footer_body_size [OF assms(1,4,5)] by (simp add: readable_def)
qed

section \<open>Files of small records\<close>

text \<open>A writer whose file can take \<open>k\<close> segments of values of at most \<open>m\<close> bytes.\<close>

definition small_writer :: "nat \<Rightarrow> nat \<Rightarrow> writer \<Rightarrow> bool" where
  "small_writer m k w \<longleftrightarrow> \<not> wo_BuildInverted (w_opts w) \<and> validate (w_schema w) = Inr () \<and> names_fit (w_schema w)
     \<and> length (wo_SourceType (w_opts w)) \<le> 4096 \<and> footer_room m k (w_schema w) \<and> k \<le> 2 ^ 15"

lemma small_writer_same: "same_file w w' \<Longrightarrow> small_writer m k w' \<longleftrightarrow> small_writer m k w"
  by (auto simp: small_writer_def same_file_def)

lemma small_writer_columns: "small_writer m k w \<Longrightarrow> length (sch_Columns (w_schema w)) \<le> 4096"
  by (simp add: small_writer_def validate_iff limit_defs word_le_nat_alt)

lemma small_writer_readable:
  assumes "small_writer m n w" and "sized m k w" and "k \<le> n"
  shows "readable w"
proof -
  have "k * (60 + length (sch_Columns (w_schema w)) * (70 + 2 * m)) \<le> n * (60 + length (sch_Columns (w_schema w)) * (70 + 2 * m))"
    using assms(3) by (rule mult_right_mono) simp
  then have "footer_room m k (w_schema w)" using assms(1) unfolding small_writer_def footer_room_def by linarith
  then show ?thesis using assms by (intro sized_readable [OF assms(2)]) (simp_all add: small_writer_def)
qed

lemma held_builders_small:
  assumes "run_holds E w tables buf" and rows: "\<forall>row \<in> set buf. small_row m (sch_Columns (w_schema w)) row" and "length buf \<le> n"
  shows "list_all2 (\<lambda>c b. small_builder n m b \<and> b_kind b = type_kind (col_Type c)) (sch_Columns (w_schema w)) (w_builders w)"
proof -
  have are: "builders_are (sch_Columns (w_schema w)) (w_builders w) buf" using assms(1) by (simp add: run_holds_def)
  show ?thesis
    unfolding list_all2_conv_all_nth
  proof (intro conjI allI impI)
    show "length (sch_Columns (w_schema w)) = length (w_builders w)" using are by (simp add: builders_are_def)
    fix j assume j: "j < length (sch_Columns (w_schema w))"
    note b = small_column [OF rows j]
    show "small_builder n m (w_builders w ! j)" "b_kind (w_builders w ! j) = type_kind (col_Type (sch_Columns (w_schema w) ! j))"
      using b are j assms(3) by (simp_all add: builders_are_def small_builder_def)
  qed
qed

text \<open>A flush of small rows, and the footer after it.\<close>

lemma held_flush_sized:
  assumes env: "env_ok V E" and n: "n \<le> 2 ^ 24" "n * (m + 10) \<le> 2 ^ 30" and sw: "small_writer m l w"
    and w: "run_holds E w tables buf" and rows: "\<forall>row \<in> set buf. small_row m (sch_Columns (w_schema w)) row" "length buf \<le> n"
    and size: "sized m k w" and run: "flush_segment V w = (Inr (), w')"
  shows "sized m (Suc k) w'" and "length (w_out w') \<le> length (w_out w) + 2 ^ 45"
proof -
  have "reliable V" "sizing_ok (we_S V)" using env by (simp_all add: env_ok_def)
  moreover have "\<not> wo_BuildInverted (w_opts w)" using sw by (simp add: small_writer_def)
  ultimately have "sized m (Suc k) w' \<and> length (w_out w') \<le> length (w_out w) + 2 ^ 45"
    using sized_flush [OF _ _ n _ small_writer_columns [OF sw] held_builders_small [OF w rows] size run] by blast
  then show "sized m (Suc k) w'" "length (w_out w') \<le> length (w_out w) + 2 ^ 45" by blast+
qed

lemma footer_sized:
  assumes env: "env_ok V E" and sw: "small_writer m l w" and h: "writer_holds E w tables []" and size: "sized m k w" "k \<le> l"
    and out: "length (w_out w) + 2 ^ 29 \<le> Suc k * 2 ^ 46" and run: "write_footer V w = (Inr (), w')"
  shows "readable w" and "sized m k w'"
proof -
  show r: "readable w" by (rule small_writer_readable [OF sw size])
  obtain p where p: "append_footer [] (writer_footer w) = Inr p" "w' = (grow p w)\<lparr>w_dirty := False\<rparr>"
    using write_footer_ok [OF env h] run by auto
  have "length p \<le> 2 ^ 28 + 12" using p(1) r by (auto simp: append_footer_eq [OF writer_footer_ok [OF h r]] readable_def)
  then show "sized m k w'" using size(1) out by (simp add: p(2) sized_def)
qed

lemma sized_op:
  assumes env: "env_ok V E" and n: "n \<le> 2 ^ 24" "n * (m + 10) \<le> 2 ^ 30" and sw: "small_writer m l w" and k: "sized m k w" "Suc k \<le> l"
    and w: "run_holds E w tables buf" and op: "op_arity (length (sch_Columns (w_schema w))) op"
    and rows: "\<forall>row \<in> set (buf @ rows_of (sch_Columns (w_schema w)) [op]). small_row m (sch_Columns (w_schema w)) row" "length buf < n"
    and st: "op = OpCheckpoint \<Longrightarrow> buf \<noteq> [] \<Longrightarrow> table_storable (we_X V) (w_codec w) (sch_Columns (w_schema w)) buf"
    and run: "apply_writer_op V op w = (Inr (), w')"
  shows "sized m (Suc k) w'"
proof (cases op)
  case (OpAppend rec)
  let ?row = "record_cells (sch_Columns (w_schema w)) rec"
  obtain w2 where w2: "run_holds E w2 tables (buf @ [?row])" "same_file w w2" "w_out w2 = w_out w" "w_segments w2 = w_segments w"
    "append_record V rec w = (if wo_SegmentRows (w_opts w) \<le> int (length buf + 1) then flush_segment V w2 else (Inr (), w2))"
    using append_record_step [OF w, of rec] op OpAppend by auto
  have k2: "sized m k w2" using k(1) w2(3,4) by (simp add: sized_def)
  show ?thesis
  proof (cases "wo_SegmentRows (w_opts w) \<le> int (length buf + 1)")
    case True
    then have f: "flush_segment V w2 = (Inr (), w')" using run OpAppend w2(5) by simp
    have "small_writer m l w2" using sw small_writer_same [OF w2(2)] by simp
    moreover have "w_schema w2 = w_schema w" using w2(2) by (simp add: same_file_def)
    ultimately show ?thesis
      using rows OpAppend by (intro held_flush_sized(1) [OF env n _ w2(1) _ _ k2 f]) simp_all
  next
    case False
    then show ?thesis using run OpAppend w2(5) sized_mono [OF k2] by simp
  qed
next
  case OpFlush
  have b: "\<forall>row \<in> set buf. small_row m (sch_Columns (w_schema w)) row" "length buf \<le> n" using rows by simp_all
  show ?thesis using held_flush_sized(1) [OF env n sw w b k(1)] run OpFlush by (simp add: flush_def)
next
  case OpCheckpoint
  have b: "\<forall>row \<in> set buf. small_row m (sch_Columns (w_schema w)) row" "length buf \<le> n" using rows by simp_all
  show ?thesis
  proof (cases "w_dirty w")
    case False
    then show ?thesis using run OpCheckpoint sized_mono [OF k(1)] by (simp add: checkpoint_def)
  next
    case True
    from run_flush_ok [OF env w st [OF OpCheckpoint]] obtain w1 where w1: "flush_segment V w = (Inr (), w1)" "same_file w w1"
      "run_holds E w1 (if buf = [] then tables else tables @ [buf]) []" by blast
    have h1: "writer_holds E w1 (if buf = [] then tables else tables @ [buf]) []" using w1(3) by (simp add: run_holds_def)
    note s = held_flush_sized [OF env n sw w b k(1) w1(1)]
    have "\<not> w_closed w" using w by (simp add: run_holds_def)
    then have f: "write_footer V w1 = (Inr (), w')" using run OpCheckpoint True w1(1) by (simp add: checkpoint_def)
    have "length (w_out w1) + 2 ^ 29 \<le> Suc (Suc k) * 2 ^ 46" using s(2) k(1) by (simp add: sized_def)
    then show ?thesis
      using sw small_writer_same [OF w1(2)] by (intro footer_sized(2) [OF env _ h1 s(1) k(2) _ f]) simp_all
  qed
qed

lemma op_step_rows: "op_step n cols op (tables, buf) = (t, b) \<Longrightarrow> set b \<subseteq> set (buf @ rows_of cols [op]) \<and> length b \<le> Suc (length buf)"
  by (cases op) (auto simp: Let_def split: if_splits)

lemma rows_of_Cons: "rows_of cols (op # ops) = rows_of cols [op] @ rows_of cols ops"
  by (cases op) simp_all

lemma run_ops_sized:
  assumes env: "env_ok V E" and n: "n \<le> 2 ^ 24" "n * (m + 10) \<le> 2 ^ 30"
    and "small_writer m l w" and "sized m k w" and "k + length ops \<le> l" and "run_holds E w tables buf"
    and "list_all (op_arity (length (sch_Columns (w_schema w)))) ops"
    and "\<forall>row \<in> set (buf @ rows_of (sch_Columns (w_schema w)) ops). small_row m (sch_Columns (w_schema w)) row"
    and "length buf + length ops \<le> n"
    and "fold (op_step (wo_SegmentRows (w_opts w)) (sch_Columns (w_schema w))) ops (tables, buf) = (t, b)"
    and "\<forall>x \<in> set t. table_storable (we_X V) (w_codec w) (sch_Columns (w_schema w)) x" and "run_ops V ops w = (Inr (), w')"
  shows "sized m (k + length ops) w' \<and> length b \<le> n \<and> (\<forall>row \<in> set b. small_row m (sch_Columns (w_schema w)) row)"
  using assms(4-)
proof (induction ops arbitrary: w tables buf k)
  case Nil
  then show ?case by auto
next
  case (Cons op ops)
  let ?cols = "sch_Columns (w_schema w)"
  obtain t1 b1 where tb: "op_step (wo_SegmentRows (w_opts w)) ?cols op (tables, buf) = (t1, b1)" by fastforce
  have fold1: "fold (op_step (wo_SegmentRows (w_opts w)) ?cols) ops (t1, b1) = (t, b)" using Cons.prems(8) tb by simp
  have st1: "\<forall>x \<in> set t1. table_storable (we_X V) (w_codec w) ?cols x"
    using op_steps_extend [OF fold1] Cons.prems(9) by blast
  have ar: "op_arity (length ?cols) op" "list_all (op_arity (length ?cols)) ops" using Cons.prems(5) by simp_all
  obtain w1 where w1: "apply_writer_op V op w = (Inr (), w1)" "same_file w w1" "run_holds E w1 t1 b1"
    using run_op_ok [OF env Cons.prems(4) ar(1) tb st1] by blast
  have same: "w_schema w1 = w_schema w" "w_opts w1 = w_opts w" "w_codec w1 = w_codec w" using w1(2) by (simp_all add: same_file_def)
  have rows: "\<forall>row \<in> set (buf @ rows_of ?cols [op]). small_row m ?cols row" "\<forall>row \<in> set (rows_of ?cols ops). small_row m ?cols row"
    using Cons.prems(6) rows_of_Cons [of ?cols op ops] by auto
  have len: "length buf < n" "Suc k \<le> l" using Cons.prems(3,7) by simp_all
  have stb: "table_storable (we_X V) (w_codec w) ?cols buf" if "op = OpCheckpoint" "buf \<noteq> []"
    using st1 tb that by auto
  have k1: "sized m (Suc k) w1"
    by (rule sized_op [OF env n Cons.prems(1,2) len(2) Cons.prems(4) ar(1) rows(1) len(1) stb w1(1)])
  have b1: "set b1 \<subseteq> set (buf @ rows_of ?cols [op])" "length b1 \<le> Suc (length buf)" using op_step_rows [OF tb] by simp_all
  have "sized m (Suc k + length ops) w' \<and> length b \<le> n \<and> (\<forall>row \<in> set b. small_row m (sch_Columns (w_schema w1)) row)"
  proof (rule Cons.IH [OF _ k1 _ w1(3)])
    show "small_writer m l w1" using Cons.prems(1) small_writer_same [OF w1(2)] by simp
    show "Suc k + length ops \<le> l" using Cons.prems(3) by simp
    show "\<forall>row \<in> set (b1 @ rows_of (sch_Columns (w_schema w1)) ops). small_row m (sch_Columns (w_schema w1)) row"
      using rows b1(1) unfolding same set_append by blast
    show "length b1 + length ops \<le> n" using b1(2) Cons.prems(7) by simp
    show "run_ops V ops w1 = (Inr (), w')" using Cons.prems(10) w1(1) by simp
  qed (use ar(2) fold1 Cons.prems(9) in \<open>simp_all add: same\<close>)
  then show ?case using same(1) by simp
qed

text \<open>The rows of records whose values have at most \<open>m\<close> bytes.\<close>

fun small_op :: "nat \<Rightarrow> writer_op \<Rightarrow> bool" where
  "small_op m (OpAppend rec) = (\<forall>v \<in> set rec. length (v_Bytes v) \<le> m)"
| "small_op m OpFlush = True"
| "small_op m OpCheckpoint = True"

lemma record_small_row:
  assumes "length rec = length cols" and "\<forall>v \<in> set rec. length (v_Bytes v) \<le> m"
  shows "small_row m cols (record_cells cols rec)"
  using assms value_cell_fits by (simp add: small_row_def record_cells_nth) (simp add: record_cells_def small_cell_def value_cell_def)

lemma rows_of_small:
  "list_all (op_arity (length cols)) ops \<Longrightarrow> list_all (small_op m) ops \<Longrightarrow> row \<in> set (rows_of cols ops) \<Longrightarrow> small_row m cols row"
proof (induction ops)
  case (Cons op ops)
  then show ?case using record_small_row by (cases op) auto
qed simp

lemma rows_of_length: "length (rows_of cols ops) \<le> length ops"
proof (induction ops)
  case (Cons op ops)
  then show ?case by (cases op) simp_all
qed simp

lemma segment_rows:
  assumes "t \<in> set (segments_of n cols ops)"
  shows "set t \<subseteq> set (rows_of cols ops)" and "length t \<le> length ops"
proof -
  have c: "concat (segments_of n cols ops) = rows_of cols ops" by (rule segments_of_rows)
  show "set t \<subseteq> set (rows_of cols ops)" using assms unfolding c [symmetric] by auto
  have "length t \<in> set (map length (segments_of n cols ops))" using assms by simp
  then have "length t \<le> sum_list (map length (segments_of n cols ops))" by (rule member_le_sum_list) simp
  also have "... = length (rows_of cols ops)" by (simp add: length_concat [symmetric] c)
  finally show "length t \<le> length ops" using rows_of_length [of cols ops] by simp
qed

lemma small_tables_storable:
  assumes "list_all (op_arity (length cols)) ops" and "list_all (small_op m) ops" and "length ops \<le> 2 ^ 24" and "m \<le> 2 ^ 24"
    and "length ops * (m + 10) \<le> 2 ^ 30" and "codec_fits X cid (length ops * (m + 10))"
  shows "list_all (table_storable X cid cols) (segments_of n cols ops)"
  unfolding list_all_iff
proof
  fix t assume t: "t \<in> set (segments_of n cols ops)"
  have "\<forall>row \<in> set t. small_row m cols row" using segment_rows(1) [OF t] rows_of_small [OF assms(1,2)] by blast
  then show "table_storable X cid cols t" by (rule small_table_storable [OF _ segment_rows(2) [OF t] assms(3-6)])
qed

lemma small_run_readable:
  assumes env: "env_ok V E" and sch: "validate sch = Inr ()" "names_fit sch" and codec: "writer_codec V (clamp_options opts) = Inr cid"
    and opts: "length (wo_WriterID opts) = 16" "length (wo_SourceType opts) \<le> 4096" "\<not> wo_BuildInverted opts"
    and ops: "list_all (op_arity (length (sch_Columns sch))) ops" "list_all (small_op m) ops"
    and size: "length ops < 2 ^ 15" "length ops * (m + 10) \<le> 2 ^ 30" "footer_room m (Suc (length ops)) sch"
    and storable: "list_all (table_storable (we_X V) cid (sch_Columns sch)) (segments_of (wo_SegmentRows (clamp_options opts)) (sch_Columns sch) ops)"
    and run: "write_file V sch opts ops = Inr w"
  shows "readable w"
proof -
  let ?o = "clamp_options opts" and ?cols = "sch_Columns sch" and ?n = "length ops"
  have n: "?n \<le> 2 ^ 24" using size(1) by simp
  have o: "wo_BuildInverted ?o = wo_BuildInverted opts" "wo_SourceType ?o = wo_SourceType opts" by (simp_all add: clamp_options_def Let_def)
  obtain w0 h where w0: "new_writer V (Some sch) (Some opts) = Inr w0" "run_holds E w0 [] []" "w_schema w0 = sch"
    "w_opts w0 = ?o" "w_codec w0 = cid" "w_out w0 = append_header [] h" "length (h_WriterID h) = 16"
    using new_writer_ok [OF env sch(1) codec opts(1)] by blast
  have small: "small_writer m (Suc ?n) w0"
    using sch opts size(1,3) by (simp add: small_writer_def w0(3,4) o)
  have "w_segments w0 = []" using w0(2) by (simp add: run_holds_def writer_holds_def)
  then have size0: "sized m 0 w0" using w0(6,7) by (simp add: sized_def append_header_eq header_body_def)
  obtain t b where tb: "fold (op_step (wo_SegmentRows ?o) ?cols) ops ([], []) = (t, b)" by fastforce
  have tables: "segments_of (wo_SegmentRows ?o) ?cols ops = (if b = [] then t else t @ [b])" using tb by (simp add: segments_of_def)
  have st: "\<forall>x \<in> set t. table_storable (we_X V) cid ?cols x" "b \<noteq> [] \<Longrightarrow> table_storable (we_X V) cid ?cols b"
    using storable by (auto simp: tables list_all_iff split: if_splits)
  obtain w1 where w1: "run_ops V ops w0 = (Inr (), w1)" "same_file w0 w1" "run_holds E w1 t b"
    using run_ops_ok [OF env w0(2), of ops t b] ops(1) tb st(1) w0(3-5) by auto
  have same: "w_schema w1 = sch" "w_codec w1 = cid" using w1(2) w0(3,5) by (simp_all add: same_file_def)
  have run1: "sized m (0 + ?n) w1 \<and> length b \<le> ?n \<and> (\<forall>row \<in> set b. small_row m (sch_Columns (w_schema w0)) row)"
    by (rule run_ops_sized [OF env n size(2) small size0 _ w0(2)])
      (use ops(1) rows_of_small [OF ops] tb st(1) w1(1) w0(3-5) in simp_all)
  have small1: "small_writer m (Suc ?n) w1" using small small_writer_same [OF w1(2)] by simp
  obtain w2 where w2: "flush_segment V w1 = (Inr (), w2)" "same_file w1 w2" "run_holds E w2 (if b = [] then t else t @ [b]) []"
    using run_flush_ok [OF env w1(3)] st(2) same by auto
  have k1: "sized m ?n w1" and b1: "\<forall>row \<in> set b. small_row m (sch_Columns (w_schema w1)) row" "length b \<le> ?n"
    using run1 w0(3) same(1) by simp_all
  note s2 = held_flush_sized [OF env n size(2) small1 w1(3) b1 k1 w2(1)]
  have h2: "writer_holds E w2 (if b = [] then t else t @ [b]) []" using w2(3) by (simp add: run_holds_def)
  obtain p where p: "write_footer V w2 = (Inr (), (grow p w2)\<lparr>w_dirty := False\<rparr>)" using write_footer_ok [OF env h2] by blast
  have small2: "small_writer m (Suc ?n) w2" using small1 small_writer_same [OF w2(2)] by simp
  have "length (w_out w2) + 2 ^ 29 \<le> Suc (Suc ?n) * 2 ^ 46" using s2(2) k1 by (simp add: sized_def)
  from footer_sized(2) [OF env small2 h2 s2(1) order.refl this p]
  have "readable ((grow p w2)\<lparr>w_dirty := False\<rparr>)"
    using small2 by (intro small_writer_readable [of m "Suc ?n" _ "Suc ?n"]) (simp_all add: small_writer_def)
  moreover have "\<not> w_closed w1" using w1(3) by (simp add: run_holds_def)
  then have "w = (grow p w2)\<lparr>w_dirty := False, w_closed := True\<rparr>"
    using run w0(1) w1(1) w2(1) p by (simp add: write_file_def close_def)
  ultimately show ?thesis by (simp add: readable_def writer_footer_def)
qed

lemma small_file_ok:
  assumes "env_ok V E" and "validate sch = Inr ()" and "names_fit sch" and "writer_codec V (clamp_options opts) = Inr cid"
    and "length (wo_WriterID opts) = 16" and "length (wo_SourceType opts) \<le> 4096" and "\<not> wo_BuildInverted opts"
    and "list_all (op_arity (length (sch_Columns sch))) ops" and "list_all (small_op m) ops"
    and "length ops < 2 ^ 15" and "m \<le> 2 ^ 24" and "length ops * (m + 10) \<le> 2 ^ 30" and "footer_room m (Suc (length ops)) sch"
    and "codec_fits (we_X V) cid (length ops * (m + 10))"
  shows "\<exists>w rd. write_file V sch opts ops = Inr w \<and> new_reader (w_out w) = Inr rd \<and> reader_schema rd = sch
    \<and> file_holds E rd (segments_of (wo_SegmentRows (clamp_options opts)) (sch_Columns sch) ops)"
proof -
  have st: "list_all (table_storable (we_X V) cid (sch_Columns sch)) (segments_of (wo_SegmentRows (clamp_options opts)) (sch_Columns sch) ops)"
    using assms(10) by (intro small_tables_storable [OF assms(8,9) _ assms(11,12,14)]) simp
  from write_file_ok [OF assms(1,2,4,5,8) st] obtain w where w: "write_file V sch opts ops = Inr w"
    and r: "readable w \<and> length (rows_of (sch_Columns sch) ops) < 2 ^ 64 \<longrightarrow> (\<exists>rd. new_reader (w_out w) = Inr rd \<and> reader_schema rd = sch
      \<and> file_holds E rd (segments_of (wo_SegmentRows (clamp_options opts)) (sch_Columns sch) ops))" by blast
  have "length (rows_of (sch_Columns sch) ops) < 2 ^ 64"
    using rows_of_length [of "sch_Columns sch" ops] assms(10) by simp
  then show ?thesis using w r small_run_readable [OF assms(1-10,12,13) st w] by blast
qed



end
