(* ===== verification/Bench.thy ===== *)
theory Bench
  imports DatagenFacts Sizes
begin

text \<open>
  The NTCF part of the benchmark of \<open>cmd/ntcf/bench.go\<close>: generate synthetic telemetry, pack
  it into a file in memory with the default options, open the file and count its rows with
  a query. It composes every part of the program, and its result is known beforehand.
\<close>

section \<open>The benchmark\<close>

fun bench_loop :: "'bm wenv \<Rightarrow> (string \<Rightarrow> row_record option) \<Rightarrow> string list \<Rightarrow> writer \<Rightarrow> unit wres" where
  "bench_loop V decode [] w = (Inr (), w)"
| "bench_loop V decode (l # ls) w =
     (case decode l of
        None \<Rightarrow> bench_loop V decode ls w
      | Some rec \<Rightarrow> bindW (append_record V rec w) (\<lambda>_ w1. bench_loop V decode ls w1))"

text \<open>The scanner of the benchmark allows lines of 8 MiB, and an error of it ends the input.\<close>

definition bench_limit :: nat where "bench_limit = 8 * 2 ^ 20"

definition bench_pack :: "'bm wenv \<Rightarrow> 'h source_env \<Rightarrow> string \<Rightarrow> string \<Rightarrow> run_error + writer" where
  "bench_pack V S source raw =
     (case get_adapter source of
        None \<Rightarrow> Inl UnknownSource
      | Some ad \<Rightarrow>
          (case new_writer V (Some (ad_Schema ad)) (Some default_writer_options) of
             Inl f \<Rightarrow> Inl (WriterErr f)
           | Inr w \<Rightarrow>
               (case bench_loop V (ad_Decode ad S) (fst (scan_lines bench_limit raw)) w of
                  (Inl f, _) \<Rightarrow> Inl (WriterErr f)
                | (Inr _, w1) \<Rightarrow>
                    (case close V w1 of (Inl f, _) \<Rightarrow> Inl (WriterErr f) | (Inr _, w2) \<Rightarrow> Inr w2))))"

definition count_query :: string where "count_query = ''SELECT count(*) FROM events''"

definition bench_count :: "'bm engine \<Rightarrow> bytes \<Rightarrow> u64 res" where
  "bench_count E buf =
     bindE (new_reader buf) (\<lambda>r. bindE (reader_query E r count_query) (\<lambda>res. Inr (q_Count res)))"

definition run_bench :: "'bm wenv \<Rightarrow> 'bm engine \<Rightarrow> ('g, 'f) rng \<Rightarrow> 'h source_env \<Rightarrow> string \<Rightarrow> nat \<Rightarrow> 'g \<Rightarrow> run_error + u64" where
  "run_bench V E R S source n r =
     (case generate R source n r of
        None \<Rightarrow> Inl UnknownSource
      | Some (Inl f) \<Rightarrow> Inl (WriterErr f)
      | Some (Inr raw) \<Rightarrow>
          (case bench_pack V S source raw of
             Inl e \<Rightarrow> Inl e
           | Inr w \<Rightarrow> (case bench_count E (w_out w) of Inl f \<Rightarrow> Inl (WriterErr f) | Inr c \<Rightarrow> Inr c)))"

section \<open>Its result\<close>

lemma bench_loop_runs: "bench_loop V decode ls w = run_ops V (map OpAppend (List.map_filter decode ls)) w"
proof (induction ls arbitrary: w)
  case (Cons l ls)
  have "bench_loop V decode ls = run_ops V (map OpAppend (List.map_filter decode ls))" by (rule ext) (rule Cons.IH)
  then show ?case by (simp add: map_filter_simps split: option.split)
qed (simp add: map_filter_simps)

lemma count_query_parses:
  "\<exists>st a. parse count_query = Inr st \<and> s_Aggregate st = Some a \<and> ag_Func a = ''count'' \<and> s_Where st = None
     \<and> s_Projection st = []"
proof -
  have "parse count_query = Inr \<lparr>s_Aggregate = Some \<lparr>ag_Func = ''count'', ag_Col = ''*'', ag_N = 0\<rparr>, s_Star = False,
      s_Projection = [], s_Where = None, s_Limit = 0\<rparr>" by code_simp
  then show ?thesis by simp
qed

lemma count_query_rows:
  assumes "file_holds E r tables"
  shows "\<exists>res. reader_query E r count_query = Inr res \<and> unat (q_Count res) = length (concat tables)"
proof -
  obtain st a where st: "parse count_query = Inr st" "s_Aggregate st = Some a" "ag_Func a = ''count''" "s_Where st = None"
    "s_Projection st = []" using count_query_parses by blast
  have "validate_stmt (reader_schema r) st = Inr ()" using st by (simp add: validate_stmt_iff)
  then show ?thesis using assms st by (simp add: reader_query_def execute_def exec_count_def file_holds_def)
qed

text \<open>The file of the benchmark.\<close>

lemma bench_pack_ok:
  assumes env: "env_ok V E" and ad: "get_adapter source = Some ad"
    and codec: "writer_codec V (clamp_options default_writer_options) = Inr cid"
    and st: "records_storable V cid (clamp_options default_writer_options) (ad_Schema ad) (text_records (ad_Decode ad S) bench_limit raw)"
  shows "\<exists>w. bench_pack V S source raw = Inr w
    \<and> write_file V (ad_Schema ad) default_writer_options (map OpAppend (text_records (ad_Decode ad S) bench_limit raw)) = Inr w
    \<and> (readable w \<and> length (text_records (ad_Decode ad S) bench_limit raw) < 2 ^ 64 \<longrightarrow>
        (\<exists>rd tables. new_reader (w_out w) = Inr rd \<and> file_holds E rd tables
          \<and> length (concat tables) = length (text_records (ad_Decode ad S) bench_limit raw)))"
proof -
  let ?recs = "text_records (ad_Decode ad S) bench_limit raw" and ?cols = "sch_Columns (ad_Schema ad)"
  let ?tables = "segments_of (wo_SegmentRows (clamp_options default_writer_options)) ?cols (map OpAppend ?recs)"
  have valid: "validate (ad_Schema ad) = Inr ()" by (rule adapter_facts(1) [OF ad])
  have wid: "length (wo_WriterID default_writer_options) = 16" by (simp add: default_writer_options_def)
  have arity: "list_all (op_arity (length ?cols)) (map OpAppend ?recs)"
    using adapter_facts(2) [OF ad] by (auto simp: list_all_iff text_records_def List.map_filter_def)
  have rows: "length (rows_of ?cols (map OpAppend recs)) = length recs" for recs by (induction recs) simp_all
  from write_file_ok [OF env valid codec wid arity] st obtain w where w:
    "write_file V (ad_Schema ad) default_writer_options (map OpAppend ?recs) = Inr w"
    "readable w \<and> length ?recs < 2 ^ 64 \<longrightarrow>
       (\<exists>rd. new_reader (w_out w) = Inr rd \<and> reader_schema rd = ad_Schema ad \<and> file_holds E rd ?tables)"
    by (auto simp: records_storable_def rows)
  obtain w0 w1 where p: "new_writer V (Some (ad_Schema ad)) (Some default_writer_options) = Inr w0"
    "run_ops V (map OpAppend ?recs) w0 = (Inr (), w1)" "close V w1 = (Inr (), w)" using write_file_parts [OF w(1)] .
  have "bench_pack V S source raw = Inr w"
    using p by (simp add: bench_pack_def ad bench_loop_runs text_records_def)
  moreover have "length (concat ?tables) = length ?recs" by (simp add: segments_of_rows rows)
  ultimately show ?thesis using w by blast
qed

text \<open>Every file of at most \<open>2^15\<close> short records of an adapter is within the ceilings of the reader.\<close>

definition short_record :: "column_def list \<Rightarrow> row_record \<Rightarrow> bool" where
  "short_record cols r \<longleftrightarrow> length r = length cols \<and> list_all (\<lambda>v. length (v_Bytes v) \<le> 64) r"

lemma complete_short: "complete cols r \<Longrightarrow> short_record cols r"
  by (auto simp: complete_def short_record_def list_all2_conv_all_nth list_all_length)

lemma adapter_room:
  assumes "get_adapter source = Some ad" and "k \<le> 2 ^ 15"
  shows "names_fit (ad_Schema ad)" and "footer_room 64 k (ad_Schema ad)"
proof -
  have "names_fit (ad_Schema ad) \<and> length (append_descriptor (ad_Schema ad)) \<le> 2 ^ 12 \<and> length (sch_Columns (ad_Schema ad)) \<le> 16"
    using assms(1) schemas_valid
    by (auto simp: get_adapter_cases generic_flow_def honeypot_def web_access_def split: if_splits)
       (simp_all add: append_descriptor_def append_column_def put_string_def generic_flow_schema_def honeypot_schema_def
         web_access_schema_def column_def to_bytes_def put_uvarint_small)
  moreover from this have "k * (60 + length (sch_Columns (ad_Schema ad)) * 198) \<le> 2 ^ 15 * (60 + 16 * 198)"
    using assms(2) by (intro mult_mono) simp_all
  ultimately show "names_fit (ad_Schema ad)" "footer_room 64 k (ad_Schema ad)" by (simp_all add: footer_room_def)
qed

lemma bench_pack_readable:
  assumes env: "env_ok V E" and ad: "get_adapter source = Some ad"
    and codec: "writer_codec V (clamp_options default_writer_options) = Inr cid"
    and st: "records_storable V cid (clamp_options default_writer_options) (ad_Schema ad) recs"
    and recs: "list_all (short_record (sch_Columns (ad_Schema ad))) recs" "length recs < 2 ^ 15"
    and run: "write_file V (ad_Schema ad) default_writer_options (map OpAppend recs) = Inr w"
  shows "readable w"
proof -
  have opts: "length (wo_WriterID default_writer_options) = 16" "length (wo_SourceType default_writer_options) \<le> 4096"
    "\<not> wo_BuildInverted default_writer_options" by (simp_all add: default_writer_options_def)
  have ops: "list_all (op_arity (length (sch_Columns (ad_Schema ad)))) (map OpAppend recs)" "list_all (small_op 64) (map OpAppend recs)"
    using recs(1) by (auto simp: list_all_iff short_record_def)
  have n: "length (map OpAppend recs) < 2 ^ 15" "length (map OpAppend recs) * (64 + 10) \<le> 2 ^ 30" using recs(2) by simp_all
  have room: "names_fit (ad_Schema ad)" "footer_room 64 (Suc (length (map OpAppend recs))) (ad_Schema ad)"
    using recs(2) by (simp_all add: adapter_room(1) [OF ad order.refl] adapter_room(2) [OF ad])
  show ?thesis
    by (rule small_run_readable [OF env adapter_facts(1) [OF ad] room(1) codec opts ops n room(2) st [unfolded records_storable_def] run])
qed


section \<open>Instances\<close>

text \<open>Short records are always storable without compression, in segments of at most 65,536 rows.\<close>

lemma append_steps:
  assumes "0 < n" and "int (length buf) < n"
    and "\<forall>t \<in> set tables. int (length t) \<le> n \<and> set t \<subseteq> A" and "set buf \<subseteq> A" and "record_cells cols ` set recs \<subseteq> A"
    and "fold (op_step n cols) (map OpAppend recs) (tables, buf) = (tables', buf')"
  shows "(\<forall>t \<in> set tables'. int (length t) \<le> n \<and> set t \<subseteq> A) \<and> int (length buf') < n \<and> set buf' \<subseteq> A"
  using assms
proof (induction recs arbitrary: tables buf)
  case (Cons r recs)
  let ?b = "buf @ [record_cells cols r]"
  have A: "set ?b \<subseteq> A" "record_cells cols ` set recs \<subseteq> A" using Cons.prems(4,5) by simp_all
  show ?case
  proof (cases "n \<le> int (length ?b)")
    case True
    then have "int (length ?b) \<le> n" using Cons.prems(2) by simp
    then show ?thesis
      using Cons.IH [of "[]" "tables @ [?b]"] Cons.prems(1,3,6) True A by (simp add: Let_def ball_Un)
  next
    case False
    then show ?thesis using Cons.IH [of ?b tables] Cons.prems(1,3,6) A by (simp add: Let_def)
  qed
qed simp

lemma short_records_fit:
  assumes "0 < n" and "n \<le> 65536" and "list_all (short_record cols) recs"
  shows "list_all (table_fits cols) (segments_of n cols (map OpAppend recs))"
proof -
  let ?A = "record_cells cols ` set recs"
  obtain t b where tb: "fold (op_step n cols) (map OpAppend recs) ([], []) = (t, b)" by fastforce
  then have "segments_of n cols (map OpAppend recs) = (if b = [] then t else t @ [b])" by (simp add: segments_of_def)
  then have seg: "int (length x) \<le> n \<and> set x \<subseteq> ?A" if "x \<in> set (segments_of n cols (map OpAppend recs))" for x
    using append_steps [OF assms(1), of "[]" "[]" ?A cols recs t b] tb assms(1) that by (auto split: if_splits)
  have "table_fits cols x" if x: "x \<in> set (segments_of n cols (map OpAppend recs))" for x
  proof -
    have len: "length x \<le> 65536" using seg [OF x] assms(2) by simp
    have "column_fits (type_kind (col_Type (cols ! j))) (map (\<lambda>row. row ! j) x)" if j: "j < length cols" for j
    proof -
      let ?k = "type_kind (col_Type (cols ! j))"
      have cell: "cell_fits ?k (row ! j) \<and> length (cell_text_bytes (row ! j)) \<le> 64" if row: "row \<in> set x" for row
      proof -
        obtain r where r: "r \<in> set recs" "row = record_cells cols r" using seg [OF x] row by blast
        then have s: "length r = length cols" "length (v_Bytes (r ! j)) \<le> 64"
          using assms(3) j by (auto simp: list_all_iff short_record_def)
        then have "row ! j = value_cell (cols ! j) (r ! j)" using r(2) record_cells_nth j by simp
        moreover have "length (cell_text_bytes (value_cell (cols ! j) (r ! j))) \<le> 64"
          using s(2) by (simp add: value_cell_def cell_text_bytes_def)
        ultimately show ?thesis using value_cell_fits by simp
      qed
      have "sum_list (map (\<lambda>c. length (cell_text_bytes c)) (map (\<lambda>row. row ! j) x)) \<le> sum_list (map (\<lambda>row. 64) x)"
        unfolding map_map by (rule sum_list_mono) (use cell in simp)
      also have "\<dots> \<le> 2 ^ 28" using len by (simp add: sum_list_triv)
      finally have total: "sum_list (map (\<lambda>c. length (cell_text_bytes c)) (map (\<lambda>row. row ! j) x)) \<le> 2 ^ 28" .
      have "\<forall>row \<in> set x. cell_fits ?k (row ! j) \<and> length (cell_text_bytes (row ! j)) \<le> 2 ^ 24" using cell by fastforce
      then show ?thesis using total len by (simp add: column_fits_def list_all_iff)
    qed
    then show ?thesis by (simp add: table_fits_def list_all_iff)
  qed
  then show ?thesis by (simp add: list_all_iff)
qed

lemma identity_ready: "column_ready identity_externals CompNone b \<Longrightarrow> column_ready identity_externals Zstd b"
  by (auto simp: column_ready_def entropy_stage_def compress_def zstd_compress_def inverts_def zstd_inverts_def
      identity_externals_def Let_def split: sum.splits)

lemma flat_storable:
  assumes "get_adapter source = Some ad" and "n \<le> 2 ^ 32" and "generate flat_rng source n r = Some (Inr raw)"
  shows "records_storable sample_env Zstd (clamp_options default_writer_options) (ad_Schema ad)
    (text_records (ad_Decode ad flat_source) bench_limit raw)"
proof -
  obtain ls where ls: "raw = concat (map (\<lambda>l. l @ [newline]) ls)" "list_all (good_line flat_source ad) ls"
    using generate_lines [OF flat_rng_ok flat_std_ok assms(1,2), of r] assms(3) by auto
  have "4096 \<le> bench_limit" by (simp add: bench_limit_def)
  from good_lines_records [OF ls(2) this]
  have short: "list_all (short_record (sch_Columns (ad_Schema ad))) (text_records (ad_Decode ad flat_source) bench_limit raw)"
    using complete_short by (simp add: ls(1) list_all_iff)
  have "wo_SegmentRows (clamp_options default_writer_options) = 65536"
    by (simp add: clamp_options_def default_writer_options_def limit_defs Let_def)
  moreover have "table_storable identity_externals Zstd cols t" if "table_fits cols t" for cols t
    using uncompressed_storable [OF that] identity_ready by (auto simp: table_storable_def list_all_iff)
  moreover have "we_X sample_env = identity_externals" by (simp add: sample_env_def)
  ultimately show ?thesis
    using short_records_fit [OF _ _ short, of 65536] by (simp add: records_storable_def list_all_iff)
qed

lemma flat_codec: "writer_codec sample_env (clamp_options default_writer_options) = Inr Zstd"
  by (simp add: writer_codec_def clamp_options_def default_writer_options_def limit_defs Let_def sample_env_def)


end
