(* ===== verification/Commands.thy ===== *)
theory Commands
  imports Bench
begin

text \<open>
  What the commands of \<open>cmd/ntcf\<close> do after their flags are parsed: which files they read,
  what they compute and what they print. The file system, the alignment of tables and the
  formatting of times and of quotients are the parameter record \<open>sys\<close>.
\<close>

section \<open>The commands\<close>

record sys =
  sy_files :: "string \<Rightarrow> bytes option"
  sy_stdin :: string
  sy_creates :: "string \<Rightarrow> bool"
  sy_syncs :: "string \<Rightarrow> bool"
  sy_tabbed :: "string \<Rightarrow> string"
  sy_ratio2 :: "int \<Rightarrow> int \<Rightarrow> string"
  sy_rfc3339 :: "u64 \<Rightarrow> string"

datatype cmd_error = CannotOpen | CannotCreate | NtcfErr fault | PackErr pack_error | BadSource | NoOutputFile | UnknownCompression

definition open_path :: "sys \<Rightarrow> string \<Rightarrow> cmd_error + reader" where
  "open_path Y path =
     (case sy_files Y path of
        None \<Rightarrow> Inl CannotOpen
      | Some d \<Rightarrow> (case new_reader d of Inl e \<Rightarrow> Inl (NtcfErr e) | Inr r \<Rightarrow> Inr r))"

definition query_cmd :: "'bm engine \<Rightarrow> sys \<Rightarrow> string \<Rightarrow> string \<Rightarrow> cmd_error + string" where
  "query_cmd E Y sql path =
     (case open_path Y path of
        Inl e \<Rightarrow> Inl e
      | Inr r \<Rightarrow> (case reader_query E r sql of Inl e \<Rightarrow> Inl (NtcfErr e) | Inr res \<Rightarrow> Inr (print_result (sy_tabbed Y) res)))"

definition search_cmd :: "'bm engine \<Rightarrow> sys \<Rightarrow> string \<Rightarrow> string \<Rightarrow> string \<Rightarrow> int \<Rightarrow> cmd_error + string" where
  "search_cmd E Y field value path limit =
     (case open_path Y path of
        Inl e \<Rightarrow> Inl e
      | Inr r \<Rightarrow> (case search E r field value limit of Inl e \<Rightarrow> Inl (NtcfErr e) | Inr res \<Rightarrow> Inr (print_result (sy_tabbed Y) res)))"

definition info_cmd :: "sys \<Rightarrow> string \<Rightarrow> cmd_error + string" where
  "info_cmd Y path =
     (case open_path Y path of
        Inl e \<Rightarrow> Inl e
      | Inr r \<Rightarrow> (case print_info (sy_tabbed Y) (sy_ratio2 Y) (sy_rfc3339 Y) path (reader_info r) of
                   Inl e \<Rightarrow> Inl (NtcfErr e) | Inr t \<Rightarrow> Inr t))"

text \<open>\<open>gen\<close>: the file written, or \<open>None\<close> for the standard output, and the text.\<close>

definition gen_cmd :: "('g, 'f) rng \<Rightarrow> sys \<Rightarrow> string \<Rightarrow> int \<Rightarrow> 'g \<Rightarrow> string \<Rightarrow> cmd_error + string option \<times> string" where
  "gen_cmd R Y source n seeded out =
     (let target = (if out \<noteq> '''' \<and> out \<noteq> ''-'' then Some out else None) in
      if target \<noteq> None \<and> \<not> sy_creates Y out then Inl CannotCreate
      else case generate R source (nat n) seeded of
        None \<Rightarrow> Inl BadSource
      | Some (Inl e) \<Rightarrow> Inl (NtcfErr e)
      | Some (Inr t) \<Rightarrow> Inr (target, t))"

text \<open>\<open>pack\<close>: its message and the writer with the content of the output file.\<close>

definition pack_message :: "sys \<Rightarrow> string \<Rightarrow> ingest_stats \<Rightarrow> int \<Rightarrow> int \<Rightarrow> string res" where
  "pack_message Y out st inBytes outBytes =
     bindE (human_bytes (sy_ratio2 Y) inBytes) (\<lambda>hin.
     bindE (human_bytes (sy_ratio2 Y) outBytes) (\<lambda>hout. Inr (
       ''packed '' @ show_nat (is_Records st) @ '' records ('' @ show_nat (is_Skipped st) @ '' skipped) from '' @ hin @ '' into '' @ out @ nl
       @ ''  input:  '' @ hin @ nl
       @ ''  output: '' @ hout @ nl
       @ ''  ratio:  '' @ (if 0 < outBytes then sy_ratio2 Y inBytes outBytes else ''0.00'') @ ''x'' @ nl)))"

definition pack_cmd :: "'bm wenv \<Rightarrow> 'f source_env \<Rightarrow> sys \<Rightarrow> pack_flags \<Rightarrow> string list \<Rightarrow> cmd_error + string \<times> writer" where
  "pack_cmd V S Y fl args =
     (let files = map (\<lambda>a. map_option from_bytes (sy_files Y a)) args in
      case pack V S fl (sy_creates Y (pf_Out fl)) (sy_syncs Y (pf_Out fl)) (sy_stdin Y) files of
        Inl e \<Rightarrow> Inl (PackErr e)
      | Inr (st, None) \<Rightarrow> Inl (PackErr NoOutput)
      | Inr (st, Some w) \<Rightarrow>
          (let inBytes = (case open_inputs (sy_stdin Y) files of None \<Rightarrow> 0 | Some t \<Rightarrow> int (length t)) in
           case pack_message Y (pf_Out fl) st inBytes (int (length (w_out w))) of
             Inl e \<Rightarrow> Inl (NtcfErr e)
           | Inr t \<Rightarrow> Inr (t, w)))"

text \<open>
  \<open>bench\<close>: the sizes and times of the other compressors, each a function of the raw input, and
  the two times it measures itself, as they are printed; \<open>xz\<close> may be missing.
\<close>

record rivals =
  rv_gzip :: "string \<Rightarrow> int \<times> string"
  rv_zstd :: "string \<Rightarrow> int \<times> string"
  rv_lz4 :: "string \<Rightarrow> int \<times> string"
  rv_xz :: "string \<Rightarrow> (int \<times> string) option"
  rv_pack_time :: string
  rv_query_time :: string

definition bench_results :: "rivals \<Rightarrow> string \<Rightarrow> int \<Rightarrow> (string \<times> int \<times> string) list" where
  "bench_results Z raw len =
     [(''ntcf'', len, rv_pack_time Z), (''gzip-6'', rv_gzip Z raw), (''zstd-3'', rv_zstd Z raw), (''lz4'', rv_lz4 Z raw)]
     @ (case rv_xz Z raw of None \<Rightarrow> [] | Some r \<Rightarrow> [(''xz'', r)])"

text \<open>\<open>%12s\<close> and \<open>%-8s\<close>.\<close>

definition pad_left :: "nat \<Rightarrow> string \<Rightarrow> string" where
  "pad_left n s = replicate (n - length s) CHR 0x20 @ s"

definition pad_right :: "nat \<Rightarrow> string \<Rightarrow> string" where
  "pad_right n s = s @ replicate (n - length s) CHR 0x20"

definition bench_line :: "string \<Rightarrow> string \<Rightarrow> string \<Rightarrow> string \<Rightarrow> string" where
  "bench_line a b c d = pad_right 8 a @ '' '' @ pad_left 12 b @ '' '' @ c @ '' '' @ pad_left 10 d @ nl"

definition bench_row :: "sys \<Rightarrow> int \<Rightarrow> string \<times> int \<times> string \<Rightarrow> string res" where
  "bench_row Y rawLen r =
     (case r of (name, len, dur) \<Rightarrow>
        bindE (human_bytes (sy_ratio2 Y) len) (\<lambda>h.
          Inr (bench_line name h (pad_left 9 (sy_ratio2 Y rawLen len) @ ''x'') dur)))"

definition bench_table :: "sys \<Rightarrow> int \<Rightarrow> (string \<times> int \<times> string) list \<Rightarrow> string res" where
  "bench_table Y rawLen results =
     bindE (mapE (bench_row Y rawLen) results) (\<lambda>rows. Inr (
       bench_line ''codec'' ''size'' (pad_left 10 ''ratio'') ''time''
       @ bench_line ''-----'' ''----'' (pad_left 10 ''-----'') ''----'' @ concat rows))"

definition bench_cmd :: "'bm wenv \<Rightarrow> 'bm engine \<Rightarrow> ('g, 'f) rng \<Rightarrow> 'h source_env \<Rightarrow> sys \<Rightarrow> rivals \<Rightarrow> string \<Rightarrow> int \<Rightarrow> 'g
    \<Rightarrow> run_error + string" where
  "bench_cmd V E R S Y Z source n seeded =
     (case generate R source (nat n) seeded of
        None \<Rightarrow> Inl UnknownSource
      | Some (Inl f) \<Rightarrow> Inl (WriterErr f)
      | Some (Inr raw) \<Rightarrow>
          (case human_bytes (sy_ratio2 Y) (int (length raw)) of
             Inl f \<Rightarrow> Inl (WriterErr f)
           | Inr h \<Rightarrow>
               (case bench_pack V S source raw of
                  Inl e \<Rightarrow> Inl e
                | Inr w \<Rightarrow>
                    (case bindE (bench_table Y (int (length raw)) (bench_results Z raw (int (length (w_out w))))) (\<lambda>table.
                          bindE (bench_count E (w_out w)) (\<lambda>c. Inr (table, c))) of
                       Inl f \<Rightarrow> Inl (WriterErr f)
                     | Inr (table, c) \<Rightarrow> Inr (
                         ''source='' @ source @ '' records='' @ show_int n @ '' raw='' @ h @ nl @ nl @ table
                         @ nl @ ''ntcf query count(*)='' @ show_nat (unat c) @ '' in '' @ rv_query_time Z @ nl)))))"

text \<open>
  \<open>ingest\<close>: its input, a stream, a followed file or a plain file; the scanner, the context
  and the clock make of it the events \<open>feed\<close>.
\<close>

record ingest_flags =
  if_Source :: string
  if_Out :: string
  if_Compression :: string
  if_Follow :: bool
  if_FromStart :: bool
  if_Checkpoint :: int
  if_SegmentRows :: int

datatype ingest_input = StdinInput string | Followed string tailer | PlainFile string

definition ingest_source :: "sys \<Rightarrow> ingest_flags \<Rightarrow> string list \<Rightarrow> cmd_error + ingest_input" where
  "ingest_source Y fl args =
     (if length args = 1 \<and> hd args \<noteq> ''-'' then
        let content = map_option from_bytes (sy_files Y (hd args)) in
        if if_Follow fl then
          (case new_tailer content (\<not> if_FromStart fl) 200000000 of
             None \<Rightarrow> Inl CannotOpen
           | Some t \<Rightarrow> Inr (Followed (hd args) t))
        else (case content of None \<Rightarrow> Inl CannotOpen | Some c \<Rightarrow> Inr (PlainFile c))
      else Inr (StdinInput (sy_stdin Y)))"

definition ingest_message :: "string \<Rightarrow> ingest_stats \<Rightarrow> string" where
  "ingest_message out st = ''ingested '' @ show_nat (is_Records st) @ '' records ('' @ show_nat (is_Lines st) @ '' lines, ''
     @ show_nat (is_Skipped st) @ '' skipped) -> '' @ out @ nl"

definition ingest_cmd :: "'bm wenv \<Rightarrow> 'f source_env \<Rightarrow> sys \<Rightarrow> (ingest_input \<Rightarrow> bool \<times> line_event list) \<Rightarrow> ingest_flags \<Rightarrow> string list
    \<Rightarrow> cmd_error + string \<times> run_error option \<times> writer option" where
  "ingest_cmd V S Y feed fl args =
     (case parse_compression (if_Compression fl) of
        None \<Rightarrow> Inl UnknownCompression
      | Some cid \<Rightarrow>
          if if_Out fl = '''' then Inl NoOutputFile
          else case ingest_source Y fl args of
            Inl e \<Rightarrow> Inl e
          | Inr input \<Rightarrow>
              if \<not> sy_creates Y (if_Out fl) then Inl CannotCreate
              else case feed input of
                (scanErr, events) \<Rightarrow>
                  (case ingest_run V S \<lparr>io_Source = if_Source fl, io_Compression = cid, io_ZstdLevel = 0,
                      io_SegmentRows = if_SegmentRows fl, io_BuildInverted = False, io_Checkpoint = if_Checkpoint fl\<rparr> scanErr events of
                     (st, err, wo) \<Rightarrow> Inr (ingest_message (if_Out fl) st, err, wo)))"

section \<open>What they print\<close>

lemma from_to_bytes [simp]: "from_bytes (to_bytes s) = s"
  by (induction s) (simp_all add: from_bytes_def to_bytes_def unat_of_nat)

lemma opened: "sy_files Y path = Some d \<Longrightarrow> new_reader d = Inr r \<Longrightarrow> open_path Y path = Inr r"
  by (simp add: open_path_def)

text \<open>Counting all rows prints their number, and no line on segments.\<close>

lemma count_prints:
  assumes "open_path Y path = Inr r" and "file_holds E r tables"
  shows "query_cmd E Y count_query path = Inr (''count: '' @ show_nat (length (concat tables)) @ nl)"
proof -
  obtain st a where st: "parse count_query = Inr st" "s_Aggregate st = Some a" "ag_Func a = ''count''" "s_Where st = None"
    "s_Projection st = []" using count_query_parses by blast
  have "validate_stmt (reader_schema r) st = Inr ()" using st by (simp add: validate_stmt_iff)
  then have "reader_query E r count_query = Inr ((new_result KindCount)\<lparr>q_Count := f_TotalRows (r_footer r)\<rparr>)"
    using st by (simp add: reader_query_def execute_def exec_count_def)
  then show ?thesis using assms by (simp add: query_cmd_def print_result_def new_result_def file_holds_def)
qed

text \<open>The summary of every file that opens is printed.\<close>

lemma info_prints:
  assumes "open_path Y path = Inr r" and "length (r_data r) < 2 ^ 62"
  shows "\<exists>t. info_cmd Y path = Inr t"
proof -
  have "int (fi_FileSize (reader_info r)) < 2 ^ 63" using assms(2) by (simp add: reader_info_def reader_size_def Let_def)
  from human_bytes_total [OF this] obtain s where "human_bytes (sy_ratio2 Y) (int (fi_FileSize (reader_info r))) = Inr s" by blast
  then show ?thesis using assms(1) by (simp add: info_cmd_def print_info_def)
qed

lemma pack_message_starts:
  assumes "inBytes < 2 ^ 63" and "outBytes < 2 ^ 63"
  shows "\<exists>rest. pack_message Y out st inBytes outBytes = Inr (''packed '' @ show_nat (is_Records st) @ '' records ('' @ rest)"
proof -
  obtain a b where "human_bytes (sy_ratio2 Y) inBytes = Inr a" "human_bytes (sy_ratio2 Y) outBytes = Inr b"
    using human_bytes_total assms by metis
  then show ?thesis by (simp add: pack_message_def)
qed

lemma readable_short: "readable w \<Longrightarrow> length (w_out w) < 2 ^ 62"
  by (simp add: readable_def)

lemma concat_inputs_length: "concat_inputs (map Some cs) = Some t \<Longrightarrow> length t = sum_list (map (\<lambda>c. length c + 1) cs)"
  by (induction cs arbitrary: t) auto

lemma open_inputs_length:
  "open_inputs stdin (map Some inputs) = Some t \<Longrightarrow> length t \<le> sum_list (map (\<lambda>c. length c + 1) (sources stdin inputs))"
  using concat_inputs_length [of inputs t] by (simp add: open_inputs_def sources_def split: if_splits)

lemma pack_cmd_prints:
  assumes "pack V S fl True True (sy_stdin Y) (map Some inputs) = Inr (st, Some w)" and "sy_creates Y (pf_Out fl)"
    and "sy_syncs Y (pf_Out fl)" and "map (\<lambda>a. map_option from_bytes (sy_files Y a)) args = map Some inputs"
    and "sum_list (map (\<lambda>c. length c + 1) (sources (sy_stdin Y) inputs)) < 2 ^ 62" and "length (w_out w) < 2 ^ 62"
  shows "\<exists>rest. pack_cmd V S Y fl args = Inr (''packed '' @ show_nat (is_Records st) @ '' records ('' @ rest, w)"
proof -
  let ?in = "case open_inputs (sy_stdin Y) (map Some inputs) of None \<Rightarrow> 0 | Some t \<Rightarrow> int (length t)"
  have "?in < 2 ^ 63"
    using assms(5) open_inputs_length [of "sy_stdin Y" inputs] by (fastforce split: option.split)
  moreover have "int (length (w_out w)) < 2 ^ 63" using assms(6) by simp
  ultimately obtain rest where "pack_message Y (pf_Out fl) st ?in (int (length (w_out w)))
      = Inr (''packed '' @ show_nat (is_Records st) @ '' records ('' @ rest)"
    using pack_message_starts by blast
  then show ?thesis using assms(1-4) by (simp add: pack_cmd_def)
qed

text \<open>The benchmark prints the count it found, whatever the other compressors do.\<close>

lemma bench_table_total:
  assumes "\<forall>(name, len, dur) \<in> set results. len < 2 ^ 63"
  shows "\<exists>t. bench_table Y rawLen results = Inr t"
proof -
  have "\<exists>t. bench_row Y rawLen r = Inr t" if "r \<in> set results" for r
  proof -
    obtain name len dur where r: "r = (name, len, dur)" by (cases r)
    have "len < 2 ^ 63" using assms that by (auto simp: r)
    from human_bytes_total [OF this] obtain h where "human_bytes (sy_ratio2 Y) len = Inr h" by blast
    then show ?thesis by (simp add: bench_row_def r)
  qed
  then have "mapE (bench_row Y rawLen) results = Inr (map (\<lambda>r. projr (bench_row Y rawLen r)) results)" by (intro mapE_ok) force
  then show ?thesis by (simp add: bench_table_def)
qed

lemma bench_cmd_prints:
  assumes "run_bench V E R S source (nat n) seeded = Inr c" and "generate R source (nat n) seeded = Some (Inr raw)"
    and "bench_pack V S source raw = Inr w" and "length raw < 2 ^ 62" and "length (w_out w) < 2 ^ 62"
    and "\<forall>(name, len, dur) \<in> set (bench_results Z raw 0). len < 2 ^ 63"
  shows "\<exists>pre. bench_cmd V E R S Y Z source n seeded
     = Inr (pre @ ''ntcf query count(*)='' @ show_nat (unat c) @ '' in '' @ rv_query_time Z @ nl)"
proof -
  have count: "bench_count E (w_out w) = Inr c" using assms(1-3) by (auto simp: run_bench_def split: sum.splits)
  have "int (length raw) < 2 ^ 63" using assms(4) by simp
  from human_bytes_total [OF this] obtain h where h: "human_bytes (sy_ratio2 Y) (int (length raw)) = Inr h" by blast
  have "\<forall>(name, len, dur) \<in> set (bench_results Z raw (int (length (w_out w)))). len < 2 ^ 63"
    using assms(5,6) by (simp add: bench_results_def)
  from bench_table_total [OF this] obtain t where "bench_table Y (int (length raw)) (bench_results Z raw (int (length (w_out w)))) = Inr t"
    by blast
  then show ?thesis using assms(2,3) h count by (simp add: bench_cmd_def)
qed


definition sample_sys :: "bytes \<Rightarrow> sys" where
  "sample_sys out = \<lparr>sy_files = (\<lambda>p. if p = ''a'' then Some (to_bytes '' '') else if p = ''b'' then Some (to_bytes ''# c'')
       else if p = ''x.ntcf'' then Some out else None),
     sy_stdin = [], sy_creates = (\<lambda>p. True), sy_syncs = (\<lambda>p. True), sy_tabbed = id, sy_ratio2 = (\<lambda>a b. show_int (a div b)),
     sy_rfc3339 = (\<lambda>t. show_nat (unat t))\<rparr>"


end
