(* ===== verification/Hostile.thy ===== *)
theory Hostile
  imports Queries
begin

text \<open>
  Where the reader does not keep the contract of \<open>docs/Security.md\<close>, that no input makes it
  panic, and where the summaries of a file are off: the number of rows a footer claims for a
  segment is not compared with what its chunks decode to, a query trusts it, and the extrema
  of a timestamp column are taken over unsigned numbers.
\<close>

section \<open>A segment that claims too many rows\<close>

lemma mapE_fails:
  "(\<And>y. y \<in> set pre \<Longrightarrow> \<exists>z. f y = Inr z) \<Longrightarrow> f x = Inl e \<Longrightarrow> mapE f (pre @ x # post) = Inl e"
proof (induction pre)
  case (Cons y pre)
  then obtain z where "f y = Inr z" by auto
  with Cons show ?case by simp
qed simp

text \<open>The number of values a vector has for the cells of a type.\<close>

definition values_of :: "logical_type \<Rightarrow> data \<Rightarrow> nat" where
  "values_of t d = (if type_kind t = KindInt then length (d_Ints d) else length (d_Bytes d))"

lemma format_cell_bounds:
  assumes "d_Present d = None"
  shows "i < values_of t d \<Longrightarrow> \<exists>s. format_cell L t d i = Inr s"
    and "values_of t d \<le> i \<Longrightarrow> format_cell L t d i = Inl Panic"
  using assms by (cases "type_kind t = KindInt"; simp add: format_cell_def is_null_def values_of_def index_at_def)+

definition star_query :: string where "star_query = ''SELECT * FROM events''"

lemma star_query_parses:
  "parse star_query = Inr \<lparr>s_Aggregate = None, s_Star = True, s_Projection = [], s_Where = None, s_Limit = 0\<rparr>"
  by code_simp

lemma all_rows:
  assumes "roaring_ok R" and "unat n \<le> 2 ^ 32"
  shows "\<exists>bm. rb_add_range R (rb_new R) 0 n = Inr bm \<and> map unat (rb_rows R bm) = [0..<unat n]"
proof -
  obtain bm where bm: "rb_add_range R (rb_new R) 0 n = Inr bm" "rb_set R bm = rb_set R (rb_new R) \<union> {unat (0 :: u64)..<unat n}"
    using rb_add_range_set [OF assms] by blast
  have "map unat (rb_rows R bm) = [0..<unat n]"
    using rb_rows_eq [OF assms(1), of bm] bm(2) by (simp add: rb_new_set [OF assms(1)])
  with bm(1) show ?thesis by blast
qed

text \<open>
  C40: selecting all rows of a file whose only segment claims more rows than its only chunk
  has panics: \<open>execRows\<close> formats the cell of every row the footer claims, without a check
  against the rows of the decoded vector.
\<close>

theorem rows_beyond_chunk_panic:
  assumes "roaring_ok (en_R E)" and "sch_Columns (reader_schema r) = [cd]" and "reader_segments r = [sd]"
    and "reader_column (en_X E) r 0 0 = Inr d" and "d_Present d = None"
    and "values_of (col_Type cd) d < unat (sd_Rows sd)" and "unat (sd_Rows sd) \<le> 1000"
  shows "reader_query E r star_query = Inl Panic"
proof -
  let ?m = "values_of (col_Type cd) d" and ?n = "unat (sd_Rows sd)" and ?f = "\<lambda>i :: u32. row_out E r [(0, d)] (unat i)"
  obtain bm where bm: "rb_add_range (en_R E) (rb_new (en_R E)) 0 (sd_Rows sd) = Inr bm"
    "map unat (rb_rows (en_R E) bm) = [0..<?n]" using all_rows [OF assms(1), of "sd_Rows sd"] assms(7) by auto
  let ?rows = "rb_rows (en_R E) bm"
  have len: "length ?rows = ?n" using bm(2) by (metis length_map length_upt diff_zero)
  have nth: "unat (?rows ! i) = i" if "i < ?n" for i
    using bm(2) that len by (metis nth_map nth_upt add_0 length_upt diff_zero)
  have out: "?f i = bindE (format_cell (en_std E) (col_Type cd) d (unat i)) (\<lambda>s. Inr [s])" for i
    by (simp add: row_out_def index_at_def assms(2))
  have "mapE ?f (take ?m ?rows @ ?rows ! ?m # drop (Suc ?m) ?rows) = Inl Panic"
  proof (rule mapE_fails)
    show "\<exists>z. ?f i = Inr z" if "i \<in> set (take ?m ?rows)" for i
    proof -
      obtain k where k: "k < ?m" "i = ?rows ! k" using \<open>i \<in> set (take ?m ?rows)\<close> by (auto simp: in_set_conv_nth)
      then have "unat i < ?m" using nth [of k] assms(6) by simp
      from format_cell_bounds(1) [OF assms(5) this] show ?thesis unfolding out by (metis bindE.simps(2))
    qed
    show "?f (?rows ! ?m) = Inl Panic" by (subst out, subst nth [OF assms(6)]) (simp add: format_cell_bounds(2) [OF assms(5)])
  qed
  then have fail: "mapE ?f ?rows = Inl Panic" using id_take_nth_drop [of ?m ?rows] assms(6) len by simp
  have "take (nat (DefaultRowLimit - 0)) ?rows = ?rows" using assms(7) len by (simp add: DefaultRowLimit_def)
  moreover have "\<not> rb_is_empty (en_R E) bm"
    using bm(2) assms(6) len rb_rows_length [OF assms(1), of bm] by (auto simp: rb_is_empty_iff [OF assms(1)])
  ultimately have "rows_segment E r None [0] DefaultRowLimit (new_result KindRows\<lparr>q_Columns := cs\<rparr>) (new_ctx 0 sd) = Inl Panic" for cs
    using fail bm(1) assms(4)
    by (simp add: rows_segment_def eval_segment_def new_ctx_def ctx_col_def new_result_def)
  moreover have "validate_stmt (reader_schema r)
      \<lparr>s_Aggregate = None, s_Star = True, s_Projection = [], s_Where = None, s_Limit = 0\<rparr> = Inr ()"
    by (simp add: validate_stmt_iff)
  moreover have "\<not> DefaultRowLimit \<le> int (length (q_Rows (new_result KindRows)))" by (simp add: DefaultRowLimit_def new_result_def)
  ultimately show ?thesis
    using assms(2,3) by (simp add: reader_query_def star_query_parses execute_def exec_rows_def Let_def)
qed

text \<open>Such a file: it opens, and its only chunk, of one row, stands in a segment of two.\<close>

abbreviation hostile_column :: column_dir where
  "hostile_column \<equiv> \<lparr>cd_ChunkOffset = 36, cd_ChunkLength = 17, cd_IndexOffset = 0, cd_IndexLength = 0, cd_HasNulls = False,
     cd_NonNull = 2, cd_MinInt = 0, cd_MaxInt = 0, cd_MinBytes = [97], cd_MaxBytes = [97]\<rparr>"

definition hostile_footer :: footer where
  "hostile_footer = \<lparr>f_Schema = sample_table, f_SourceType = [], f_TotalRows = 2, f_MinTS = 0, f_MaxTS = 0,
     f_Segments = [\<lparr>sd_Offset = 36, sd_Length = 17, sd_Rows = 2, sd_MinTS = 0, sd_MaxTS = 0, sd_Columns = [hostile_column]\<rparr>]\<rparr>"

definition hostile_chunk :: bytes where
  "hostile_chunk = chunk_bytes KindBytes Raw CompNone 0 1 2 2 [] 2 [1, 97]"

lemma hostile_chunk_decodes:
  "decode_chunk identity_externals hostile_chunk
     = Inr \<lparr>d_Kind = KindBytes, d_Ints = [], d_Bytes = [[97]], d_Present = None, d_Rows = 1\<rparr>"
  by code_simp

lemma hostile_opens:
  "\<exists>out r. append_footer (append_header [] sample_header @ hostile_chunk) hostile_footer = Inr out \<and> new_reader out = Inr r
     \<and> reader_schema r = sample_table \<and> reader_segments r = f_Segments hostile_footer
     \<and> reader_column identity_externals r 0 0 = decode_chunk identity_externals hostile_chunk"
proof -
  let ?file = "append_header [] sample_header @ hostile_chunk"
  have hlen: "length (append_header [] sample_header) = 36" by (simp add: append_header_eq header_body_def sample_header_def)
  have clen: "length hostile_chunk = 17" by (simp add: hostile_chunk_def chunk_bytes_def put_uvarint_small)
  have ok: "footer_ok hostile_footer"
    using sample_premises(1) by (simp add: footer_ok_def hostile_footer_def segment_ok_def column_dir_ok_def names_fit_def limit_defs)
      (simp add: sample_table_def type_kind_def)
  have small: "length (footer_body hostile_footer) \<le> 500"
    by (simp add: footer_body_def hostile_footer_def segment_bytes_def sample_table_def append_descriptor_def append_column_def
        put_string_def append_column_dir_def type_kind_def put_uvarint_small)
  then have body: "length (footer_body hostile_footer) \<le> 2 ^ 28" by simp
  obtain out where out: "append_footer ?file hostile_footer = Inr out" using append_footer_eq [OF ok] by blast
  then obtain tail where tail: "out = ?file @ tail" using append_footer_eq [OF ok, of ?file] by auto
  have "read_footer out = Inr hostile_footer"
    by (rule footer_readback [OF ok _ body out]) (simp add: hlen HeaderSize_def)
  moreover have "read_header out = Inr sample_header"
    unfolding tail append_assoc by (rule header_readback) (simp_all add: sample_header_def supports_format_def)
  ultimately have opens: "new_reader out = Inr \<lparr>r_data = out, r_header = sample_header, r_footer = hostile_footer\<rparr>"
    by (simp add: new_reader_def)
  let ?r = "\<lparr>r_data = out, r_header = sample_header, r_footer = hostile_footer\<rparr>"
  have "length out < 2 ^ 62"
    using out small by (auto simp: append_footer_eq [OF ok] hlen clen Magic_def)
  then have "reader_slice ?r 36 17 = Inr hostile_chunk"
    by (simp add: reader_slice_eq short_def tail hlen clen)
  then have "reader_column identity_externals ?r 0 0 = decode_chunk identity_externals hostile_chunk"
    by (simp add: reader_column_def hostile_footer_def Let_def)
  then show ?thesis
    using out opens by (auto simp: reader_schema_def hostile_footer_def)
qed

theorem rows_beyond_chunk_panic_witness:
  "\<exists>out r. new_reader out = Inr r \<and> reader_query sample_engine r ''SELECT * FROM events'' = Inl Panic"
proof -
  obtain out r where r: "new_reader out = Inr r" "reader_schema r = sample_table" "reader_segments r = f_Segments hostile_footer"
    "reader_column identity_externals r 0 0 = Inr \<lparr>d_Kind = KindBytes, d_Ints = [], d_Bytes = [[97]], d_Present = None, d_Rows = 1\<rparr>"
    using hostile_opens hostile_chunk_decodes by auto
  have "roaring_ok (en_R sample_engine)" "en_X sample_engine = identity_externals"
    by (simp_all add: sample_engine_def list_roaring_ok)
  moreover have "sch_Columns (reader_schema r) = [\<lparr>col_Name = [109], col_Type = TypeString, col_Indexed = False, col_Nullable = True\<rparr>]"
    by (simp add: r(2) sample_table_def)
  moreover have "values_of TypeString \<lparr>d_Kind = KindBytes, d_Ints = [], d_Bytes = [[97]], d_Present = None, d_Rows = 1\<rparr> = 1"
    by code_simp
  ultimately have "reader_query sample_engine r star_query = Inl Panic"
    using rows_beyond_chunk_panic [of sample_engine r _ "hd (f_Segments hostile_footer)"] r(3,4)
    by (simp add: hostile_footer_def)
  then show ?thesis using r(1) by (auto simp: star_query_def)
qed

section \<open>Negative times\<close>

text \<open>
  The extrema of a timestamp column are unsigned, and the writer reads them as signed: a
  segment with a time before 1970 and one after has its times swapped.
\<close>

lemma negative_times_swapped:
  assumes "w_tsCol w = Some 0" and "w_builders w = [append_int (- 1) (append_int 1 (new_builder KindInt))]"
  shows "segment_times w = Inr (Some (1, - 1))" and "sint (- 1 :: u64) < sint (1 :: u64)"
proof -
  have "builder_stats (append_int (- 1) (append_int 1 (new_builder KindInt)))
    = Inr \<lparr>cs_Rows = 2, cs_NonNull = 2, cs_HasNulls = False, cs_MinInt = 1, cs_MaxInt = - 1, cs_MinBytes = [], cs_MaxBytes = []\<rparr>"
    by (simp add: builder_stats_def stats_row_def has_nulls_def builder_present_def append_int_def new_builder_def
        note_value_def Let_def upt_rec word_less_nat_alt unsigned_minus_1_eq_mask mask_eq_exp_minus_1)
  then show "segment_times w = Inr (Some (1, - 1))" using assms by (simp add: segment_times_def index_at_def)
qed simp

section \<open>Index blobs have no checksum\<close>

text \<open>
  Chunks, header and footer are covered by checksums, index blobs are not: when the bits of
  a Bloom filter are lost, its blob is still read without an error, and the filter denies
  every value, so that a segment that holds it is skipped.
\<close>

lemma zeroed_filter_denies:
  assumes "bloom_ok b" and "length (bl_bits b) \<le> 2 ^ 28" and "set (bl_bits b) \<subseteq> {0}"
  shows "read_column_index R (append_index R \<lparr>ci_Bloom = Some b, ci_Inverted = None\<rparr>)
      = Inr \<lparr>ci_Bloom = Some b, ci_Inverted = None\<rparr>"
    and "may_contain_u64 X b v = Inr False" and "may_contain X b key = Inr False"
proof -
  have "length (append_bloom b) \<le> 11 + 8 * length (bl_bits b)"
    using length_put_uvarint_le10 [of "of_nat (length (bl_bits b))"] by (simp add: append_bloom_def length_concat comp_def sum_list_triv)
  then have sh: "short ([flagBloom] @ append_bloom b @ [])" using assms(2) by (simp add: short_def)
  have "read_bloom (at_cursor [flagBloom] (append_bloom b @ [])) = Inr (b, at_cursor ([flagBloom] @ append_bloom b) [])"
    by (rule read_bloom_at [OF assms(1,2) sh])
  then show "read_column_index R (append_index R \<lparr>ci_Bloom = Some b, ci_Inverted = None\<rparr>)
      = Inr \<lparr>ci_Bloom = Some b, ci_Inverted = None\<rparr>"
    using sh index_flags by (simp add: read_column_index_def append_index_def new_cursor_at u8_at_cursor)
  have zero: "\<not> bloom_bit b (probe b h i)" for h i
    using probe_ok [OF assms(1), of h i] assms(3) by (auto simp: bloom_bit_def dest!: nth_mem)
  have "0 < unat (bl_k b)" using assms(1) by (simp add: bloom_ok_def unat_gt_0)
  then show "may_contain_u64 X b v = Inr False" "may_contain X b key = Inr False"
    using zero by (auto simp: may_contain_u64_def may_contain_def may_contain_hash_iff [OF assms(1)])
qed

end
