(* ===== verification/Failures.thy ===== *)
theory Failures
  imports Samples "HOL-Library.Sublist"
begin

text \<open>
  A writer on a stream that fails: writes that are cut short or refused, at any time. An
  operation that fails leaves every row where it was, on the file or in the buffers, so that
  it can be repeated; when the file is closed in the end, it holds every accepted record.
\<close>

section \<open>Streams\<close>

text \<open>
  The contract of \<open>io.Writer\<close>: a write takes no more than it is given, and reports an error
  when it takes less.
\<close>

definition sink_ok :: "'bm wenv \<Rightarrow> bool" where
  "sink_ok V \<longleftrightarrow> (\<forall>out p n failed. we_sink V out p = (n, failed) \<longrightarrow> n \<le> length p \<and> (\<not> failed \<longrightarrow> n = length p))"

text \<open>The same writer on a stream that takes everything.\<close>

definition perfect :: "'bm wenv \<Rightarrow> 'bm wenv" where
  "perfect V = V\<lparr>we_sink := \<lambda>out p. (length p, False)\<rparr>"

lemma perfect_simps [simp]:
  "we_X (perfect V) = we_X V" "we_S (perfect V) = we_S V" "we_R (perfect V) = we_R V" "we_now (perfect V) = we_now V"
  "we_zstd (perfect V) = we_zstd V" "reliable (perfect V)"
  by (simp_all add: perfect_def reliable_def)

text \<open>The stream fails at some write from a position on.\<close>

definition fails_after :: "'bm wenv \<Rightarrow> bytes \<Rightarrow> bool" where
  "fails_after V out \<longleftrightarrow> (\<exists>ext p. snd (we_sink V (out @ ext) p))"

lemma fails_after_append: "fails_after V (out @ ext) \<Longrightarrow> fails_after V out"
  by (force simp: fails_after_def)

text \<open>What a step does: what it does on a perfect stream, or it stops with an I/O error after some more bytes.\<close>

definition perfect_or_stopped :: "'bm wenv \<Rightarrow> writer \<Rightarrow> ('bm wenv \<Rightarrow> writer \<Rightarrow> 'a wres) \<Rightarrow> bool" where
  "perfect_or_stopped V w op \<longleftrightarrow>
     op V w = op (perfect V) w \<or> (\<exists>q. op V w = (Inl IOErr, grow q w)) \<and> fails_after V (w_out w)"

lemma write_stops:
  assumes "sink_ok V"
  shows "perfect_or_stopped V w (\<lambda>V. writer_write V p)"
proof -
  obtain n failed where s: "we_sink V (w_out w) p = (n, failed)" by fastforce
  have n: "n \<le> length p" "\<not> failed \<Longrightarrow> n = length p" using assms s by (auto simp: sink_ok_def)
  show ?thesis
  proof (cases failed)
    case True
    then have "writer_write V p w = (Inl IOErr, grow (take n p) w)" using s n(1) by (simp add: writer_write_def grow_def)
    moreover have "fails_after V (w_out w)"
      using s True unfolding fails_after_def by (intro exI [of _ "[]"] exI [of _ p]) simp
    ultimately show ?thesis unfolding perfect_or_stopped_def by blast
  next
    case False
    then show ?thesis using s n by (simp add: perfect_or_stopped_def writer_write_def perfect_def)
  qed
qed

text \<open>Sequencing: a first step that on a perfect stream only adds bytes, then a second.\<close>

lemma stops_bind:
  assumes "perfect_or_stopped V w m" and "\<And>x w1. m (perfect V) w = (Inr x, w1) \<Longrightarrow> \<exists>q. w1 = grow q w"
    and "\<And>x w1. m (perfect V) w = (Inr x, w1) \<Longrightarrow> perfect_or_stopped V w1 (\<lambda>V. f V x)"
  shows "perfect_or_stopped V w (\<lambda>V w. bindW (m V w) (f V))"
proof (cases "m V w = m (perfect V) w")
  case True
  obtain r w1 where m: "m (perfect V) w = (r, w1)" by fastforce
  show ?thesis
  proof (cases r)
    case (Inr x)
    then obtain q where q: "w1 = grow q w" using assms(2) m by blast
    have "perfect_or_stopped V w1 (\<lambda>V. f V x)" using assms(3) m Inr by simp
    then show ?thesis
      using True m Inr q fails_after_append [of V "w_out w" q] by (auto simp: perfect_or_stopped_def)
  qed (use True m in \<open>simp add: perfect_or_stopped_def\<close>)
next
  case False
  then show ?thesis using assms(1) by (auto simp: perfect_or_stopped_def)
qed

lemma stops_cong:
  "perfect_or_stopped V w op \<Longrightarrow> op' V w = op V w \<Longrightarrow> op' (perfect V) w = op (perfect V) w \<Longrightarrow> perfect_or_stopped V w op'"
  by (simp add: perfect_or_stopped_def)

lemma stops_same: "op (perfect V) w = op V w \<Longrightarrow> perfect_or_stopped V w op"
  by (simp add: perfect_or_stopped_def)

lemma stops_write:
  assumes "sink_ok V" and "perfect_or_stopped V (grow (p w) w) (\<lambda>V. f V ())"
  shows "perfect_or_stopped V w (\<lambda>V w. bindW (writer_write V (p w) w) (f V))"
proof -
  have w: "writer_write (perfect V) (p w) w = (Inr (), grow (p w) w)" by (rule writer_write_ok) simp
  consider "writer_write V (p w) w = (Inr (), grow (p w) w)"
    | q where "writer_write V (p w) w = (Inl IOErr, grow q w)" "fails_after V (w_out w)"
    using write_stops [OF assms(1), of w "p w"] w by (auto simp: perfect_or_stopped_def)
  then show ?thesis
  proof cases
    case 1
    then show ?thesis
      using assms(2) w fails_after_append [of V "w_out w" "p w"] by (auto simp: perfect_or_stopped_def)
  next
    case 2
    then show ?thesis by (auto simp: perfect_or_stopped_def)
  qed
qed

section \<open>Flushing\<close>

lemma flush_column_stops:
  assumes "sink_ok V"
  shows "perfect_or_stopped V w (\<lambda>V. flush_column V col b)"
proof (cases "builder_stats b")
  case (Inr st)
  show ?thesis
  proof (cases "builder_encode (we_X V) (Some (w_codec w)) b")
    case encoded: (Inr x)
    obtain chunk st' where x: "x = (chunk, st')" by (cases x)
    let ?cd = "(stats_dir col st)\<lparr>cd_ChunkOffset := w_pos w, cd_ChunkLength := of_nat (length chunk)\<rparr>"
    let ?index = "\<lambda>V (_ :: unit) w3. if col_Indexed col then
         bindW (index_blob V (wo_BuildInverted (w_opts w3)) col b, w3) (\<lambda>idx w4.
           bindW (writer_write V idx w4) (\<lambda>_ w5. (Inr (?cd\<lparr>cd_IndexOffset := w_pos w4, cd_IndexLength := of_nat (length idx)\<rparr>), w5)))
       else (Inr ?cd, w3)"
    let ?w3 = "grow chunk w"
    have idx: "index_blob (perfect V) i col b = index_blob V i col b" for i by (simp add: index_blob_def)
    have "perfect_or_stopped V ?w3 (\<lambda>V. ?index V ())"
    proof (cases "col_Indexed col \<and> (\<exists>blob. index_blob V (wo_BuildInverted (w_opts ?w3)) col b = Inr blob)")
      case True
      then obtain blob where blob: "index_blob V (wo_BuildInverted (w_opts ?w3)) col b = Inr blob" by blast
      have "perfect_or_stopped V ?w3 (\<lambda>V w4. bindW (writer_write V blob w4)
          (\<lambda>_ w5. (Inr (?cd\<lparr>cd_IndexOffset := w_pos ?w3, cd_IndexLength := of_nat (length blob)\<rparr>), w5)))"
        by (rule stops_write [OF assms, where p = "\<lambda>_. blob"]) (rule stops_same, rule refl)
      then show ?thesis by (rule stops_cong) (use True blob idx in simp_all)
    next
      case False
      then show ?thesis
        by (intro stops_same) (cases "index_blob V (wo_BuildInverted (w_opts ?w3)) col b"; simp add: idx)
    qed
    from stops_write [OF assms, where p = "\<lambda>_. chunk", OF this]
    show ?thesis by (rule stops_cong) (simp_all add: flush_column_def [unfolded Let_def] Inr encoded x)
  qed (simp add: stops_same flush_column_def Inr)
qed (simp add: stops_same flush_column_def)

lemma flush_column_grows: "flush_column (perfect V) col b w = (Inr cd, w1) \<Longrightarrow> \<exists>q. w1 = grow q w"
  by (auto simp: flush_column_def bindW_def Let_def writer_write_ok split: prod.splits sum.splits if_splits)

lemma flush_columns_stops:
  assumes "sink_ok V"
  shows "perfect_or_stopped V w (\<lambda>V. flush_columns V cols bs)"
proof (induction cols arbitrary: bs w)
  case Nil
  then show ?case by (cases bs) (simp_all add: stops_same)
next
  case (Cons c cols)
  show ?case
  proof (cases bs)
    case bs: (Cons b bs')
    have "perfect_or_stopped V w (\<lambda>V w. bindW (flush_column V c b w)
        (\<lambda>cd w1. bindW (flush_columns V cols bs' w1) (\<lambda>cds w2. (Inr (cd # cds), w2))))"
    proof (rule stops_bind [OF flush_column_stops [OF assms]])
      fix cd w1
      show "perfect_or_stopped V w1 (\<lambda>V w1. bindW (flush_columns V cols bs' w1) (\<lambda>cds w2. (Inr (cd # cds), w2)))"
        using Cons.IH [of w1 bs'] by (auto simp: perfect_or_stopped_def)
    qed (rule flush_column_grows)
    then show ?thesis by (rule stops_cong) (simp_all add: bs)
  qed (simp add: stops_same)
qed

lemma flush_columns_grows: "flush_columns (perfect V) cols bs w = (Inr cds, w1) \<Longrightarrow> \<exists>q. w1 = grow q w"
proof (induction cols arbitrary: bs w cds w1)
  case Nil
  then show ?case by (cases bs) (auto intro: exI [of _ "[]"])
next
  case (Cons c cols)
  show ?case
  proof (cases bs)
    case bs: (Cons b bs')
    then obtain cd w2 cds' where r: "flush_column (perfect V) c b w = (Inr cd, w2)"
      "flush_columns (perfect V) cols bs' w2 = (Inr cds', w1)"
      using Cons.prems by (auto simp: bindW_def split: prod.splits sum.splits)
    obtain q q' where "w2 = grow q w" "w1 = grow q' w2" using flush_column_grows [OF r(1)] Cons.IH [OF r(2)] by blast
    then show ?thesis by auto
  qed (use Cons.prems in \<open>auto intro: exI [of _ "[]"]\<close>)
qed

lemma flush_segment_stops:
  assumes "sink_ok V"
  shows "perfect_or_stopped V w flush_segment"
proof (cases "index_at (w_builders w) 0")
  case (Inr b0)
  show ?thesis
  proof (cases "b_rows b0 = 0")
    case False
    let ?rest = "\<lambda>(V :: 'a wenv) cds w2. bindW (segment_times w2, w2) (\<lambda>ts w3.
         let seg = \<lparr>sd_Offset = w_pos w, sd_Length = w_pos w3 - w_pos w, sd_Rows = of_nat (b_rows b0),
                    sd_MinTS = (case ts of None \<Rightarrow> 0 | Some (lo, hi) \<Rightarrow> lo),
                    sd_MaxTS = (case ts of None \<Rightarrow> 0 | Some (lo, hi) \<Rightarrow> hi), sd_Columns = cds\<rparr>;
             w4 = note_times ts w3
         in (Inr (), w4\<lparr>w_totalRows := w_totalRows w4 + of_nat (b_rows b0),
                        w_segments := w_segments w4 @ [seg],
                        w_builders := map builder_reset (w_builders w4)\<rparr>))"
    have "perfect_or_stopped V w (\<lambda>V w'. bindW (flush_columns V (sch_Columns (w_schema w)) (w_builders w) w') (?rest V))"
      by (rule stops_bind [OF flush_columns_stops [OF assms] flush_columns_grows]) (assumption, rule stops_same, rule refl)
    then show ?thesis by (rule stops_cong) (use Inr False in \<open>simp_all add: flush_segment_def\<close>)
  qed (use Inr in \<open>simp add: stops_same flush_segment_def\<close>)
qed (simp add: stops_same flush_segment_def)

lemma write_footer_stops:
  assumes "sink_ok V"
  shows "perfect_or_stopped V w write_footer"
proof (cases "append_footer [] (writer_footer w)")
  case (Inr p)
  have "perfect_or_stopped V w (\<lambda>V w'. bindW (writer_write V p w') (\<lambda>_ w2. (Inr (), w2\<lparr>w_dirty := False\<rparr>)))"
    by (rule stops_write [OF assms, where p = "\<lambda>_. p"]) (rule stops_same, rule refl)
  then show ?thesis by (rule stops_cong) (use Inr in \<open>simp_all add: write_footer_def\<close>)
qed (simp add: stops_same write_footer_def)

section \<open>Every row stays\<close>

text \<open>All tables made of consecutive rows can be stored.\<close>

definition all_storable :: "externals \<Rightarrow> comp_id \<Rightarrow> column_def list \<Rightarrow> cell list list \<Rightarrow> bool" where
  "all_storable X cid cols rows \<longleftrightarrow> (\<forall>t. sublist t rows \<and> t \<noteq> [] \<longrightarrow> table_storable X cid cols t)"

lemma all_storable_sublist: "all_storable X cid cols rows \<Longrightarrow> sublist part rows \<Longrightarrow> all_storable X cid cols part"
  using sublist_order.order_trans unfolding all_storable_def by blast

text \<open>The writer has these rows, on the file or in its buffers, in order.\<close>

definition keeps :: "'bm engine \<Rightarrow> writer \<Rightarrow> cell list list \<Rightarrow> bool" where
  "keeps E w rows \<longleftrightarrow> (\<exists>tables buf. run_holds E w tables buf \<and> concat tables @ buf = rows)"

lemma keeps_intro: "run_holds E w tables buf \<Longrightarrow> concat tables @ buf = rows \<Longrightarrow> keeps E w rows"
  by (auto simp: keeps_def)

lemma keeps_holds: "run_holds E w tables [] \<Longrightarrow> concat tables = rows \<Longrightarrow> keeps E w rows"
  by (rule keeps_intro [where buf = "[]"]) simp_all

lemma run_holds_grow:
  assumes "run_holds E w tables buf"
  shows "run_holds E (grow q w) tables buf" and "same_file w (grow q w)"
proof -
  have same: "(grow q w)\<lparr>w_dirty := w_dirty w\<rparr> = grow q w" by (simp add: grow_def)
  have h: "writer_holds E w tables buf" using assms by (simp add: run_holds_def)
  show "run_holds E (grow q w) tables buf"
    using assms writer_holds_grow [OF h, where p = q and b = "w_dirty w"] by (simp add: run_holds_def same)
qed (simp add: same_file_def)

lemma flush_keeps:
  assumes V: "sink_ok V" "env_ok (perfect V) E" and w: "keeps E w rows"
    and st: "all_storable (we_X V) (w_codec w) (sch_Columns (w_schema w)) rows" and run: "flush_segment V w = (r, w')"
  shows "same_file w w'" and "keeps E w' rows" and "r = Inr () \<Longrightarrow> \<exists>tables. run_holds E w' tables [] \<and> concat tables = rows"
proof -
  obtain tables buf where h: "run_holds E w tables buf" "concat tables @ buf = rows" using w by (auto simp: keeps_def)
  have "table_storable (we_X (perfect V)) (w_codec w) (sch_Columns (w_schema w)) buf" if "buf \<noteq> []"
    using st h(2) that by (auto simp: all_storable_def)
  from run_flush_ok [OF V(2) h(1) this] obtain w1 where p: "flush_segment (perfect V) w = (Inr (), w1)" "same_file w w1"
    "run_holds E w1 (if buf = [] then tables else tables @ [buf]) []" by blast
  let ?tables = "if buf = [] then tables else tables @ [buf]"
  have rows: "concat ?tables = rows" using h(2) by auto
  consider "(r, w') = (Inr (), w1)" | q where "r = Inl IOErr" "w' = grow q w"
    using flush_segment_stops [OF V(1), of w] run p(1) by (auto simp: perfect_or_stopped_def)
  then have "same_file w w' \<and> keeps E w' rows \<and> (r = Inr () \<longrightarrow> (\<exists>tables. run_holds E w' tables [] \<and> concat tables = rows))"
  proof cases
    case 1
    then show ?thesis using p(2,3) rows keeps_holds [OF p(3) rows] by auto
  next
    case 2
    then show ?thesis using run_holds_grow(2) [OF h(1)] keeps_intro [OF run_holds_grow(1) [OF h(1)] h(2)] by simp
  qed
  then show "same_file w w'" "keeps E w' rows" "r = Inr () \<Longrightarrow> \<exists>tables. run_holds E w' tables [] \<and> concat tables = rows"
    by blast+
qed

lemma footer_keeps:
  assumes V: "sink_ok V" "env_ok (perfect V) E" and w: "run_holds E w tables []" and run: "write_footer V w = (r, w')"
  shows "same_file w w'" and "run_holds E w' tables []"
    and "r = Inr () \<Longrightarrow> \<exists>p. append_footer [] (writer_footer w) = Inr p \<and> w' = (grow p w)\<lparr>w_dirty := False\<rparr>"
proof -
  have h: "writer_holds E w tables []" using w by (simp add: run_holds_def)
  obtain p where p: "append_footer [] (writer_footer w) = Inr p"
    "write_footer (perfect V) w = (Inr (), (grow p w)\<lparr>w_dirty := False\<rparr>)"
    using write_footer_ok [OF V(2) h] by blast
  consider "(r, w') = (Inr (), (grow p w)\<lparr>w_dirty := False\<rparr>)" | q where "r = Inl IOErr" "w' = grow q w"
    using write_footer_stops [OF V(1), of w] run p(2) by (auto simp: perfect_or_stopped_def)
  then have "same_file w w' \<and> run_holds E w' tables []
      \<and> (r = Inr () \<longrightarrow> append_footer [] (writer_footer w) = Inr p \<and> w' = (grow p w)\<lparr>w_dirty := False\<rparr>)"
  proof cases
    case 1
    then show ?thesis
      using p(1) w writer_holds_grow [OF h, where p = p and b = False] same_file_grow(1) [where w = w and p = p and b = False] by (simp add: run_holds_def)
  next
    case 2
    then show ?thesis using run_holds_grow [OF w] by simp
  qed
  then show "same_file w w'" "run_holds E w' tables []"
    "r = Inr () \<Longrightarrow> \<exists>p. append_footer [] (writer_footer w) = Inr p \<and> w' = (grow p w)\<lparr>w_dirty := False\<rparr>" by blast+
qed

text \<open>A flush followed by a footer, as in a checkpoint and in the closing.\<close>

lemma flush_footer_keeps:
  assumes V: "sink_ok V" "env_ok (perfect V) E" and w: "keeps E w rows"
    and st: "all_storable (we_X V) (w_codec w) (sch_Columns (w_schema w)) rows"
    and run: "bindW (flush_segment V w) (\<lambda>_ w1. write_footer V w1) = (r, w')"
  shows "same_file w w' \<and> keeps E w' rows \<and> (r = Inr () \<longrightarrow>
    (\<exists>w1 tables p. same_file w w1 \<and> run_holds E w1 tables [] \<and> concat tables = rows
      \<and> append_footer [] (writer_footer w1) = Inr p \<and> w' = (grow p w1)\<lparr>w_dirty := False\<rparr>))"
proof -
  obtain r1 w1 where f: "flush_segment V w = (r1, w1)" by fastforce
  note k = flush_keeps [OF V w st f]
  show ?thesis
  proof (cases r1)
    case (Inl e)
    then show ?thesis using run f k(1,2) by auto
  next
    case (Inr u)
    then obtain tables where h: "run_holds E w1 tables []" "concat tables = rows" using k(3) by auto
    have "write_footer V w1 = (r, w')" using run f Inr by simp
    note ft = footer_keeps [OF V h(1) this]
    show ?thesis
      using same_file_trans [OF k(1) ft(1)] keeps_holds [OF ft(2) h(2)] ft(3) k(1) h by blast
  qed
qed

lemma append_keeps:
  assumes V: "sink_ok V" "env_ok (perfect V) E" and w: "keeps E w rows" and len: "length rec = length (sch_Columns (w_schema w))"
    and st: "all_storable (we_X V) (w_codec w) (sch_Columns (w_schema w)) (rows @ [record_cells (sch_Columns (w_schema w)) rec])"
    and run: "append_record V rec w = (r, w')"
  shows "same_file w w' \<and> keeps E w' (rows @ [record_cells (sch_Columns (w_schema w)) rec])"
proof -
  let ?row = "record_cells (sch_Columns (w_schema w)) rec"
  obtain tables buf where h: "run_holds E w tables buf" "concat tables @ buf = rows" using w by (auto simp: keeps_def)
  obtain w2 where w2: "run_holds E w2 tables (buf @ [?row])" "same_file w w2"
    "append_record V rec w = (if wo_SegmentRows (w_opts w) \<le> int (length buf + 1) then flush_segment V w2 else (Inr (), w2))"
    using append_record_step [OF h(1) len] by blast
  have k: "keeps E w2 (rows @ [?row])" by (rule keeps_intro [OF w2(1)]) (use h(2) in simp)
  show ?thesis
  proof (cases "wo_SegmentRows (w_opts w) \<le> int (length buf + 1)")
    case True
    then have f: "flush_segment V w2 = (r, w')" using run w2(3) by simp
    have "all_storable (we_X V) (w_codec w2) (sch_Columns (w_schema w2)) (rows @ [?row])"
      using st w2(2) by (simp add: same_file_def)
    from flush_keeps(1,2) [OF V k this f] show ?thesis using same_file_trans [OF w2(2)] by blast
  next
    case False
    then show ?thesis using run w2(2,3) k by auto
  qed
qed

section \<open>Attempts\<close>

text \<open>
  What a caller may do with a writer until it is closed: any operation, in any order, also
  after failures. A record of the right length is taken, whatever the append returns.
\<close>

inductive attempts :: "'bm wenv \<Rightarrow> writer \<Rightarrow> cell list list \<Rightarrow> writer \<Rightarrow> bool" for V w0 where
  att_new: "attempts V w0 [] w0"
| att_append: "attempts V w0 rows w \<Longrightarrow> length rec = length (sch_Columns (w_schema w)) \<Longrightarrow> append_record V rec w = (r, w')
    \<Longrightarrow> attempts V w0 (rows @ [record_cells (sch_Columns (w_schema w)) rec]) w'"
| att_refused: "attempts V w0 rows w \<Longrightarrow> length rec \<noteq> length (sch_Columns (w_schema w)) \<Longrightarrow> append_record V rec w = (r, w')
    \<Longrightarrow> attempts V w0 rows w'"
| att_flush: "attempts V w0 rows w \<Longrightarrow> flush V w = (r, w') \<Longrightarrow> attempts V w0 rows w'"
| att_checkpoint: "attempts V w0 rows w \<Longrightarrow> checkpoint V w = (r, w') \<Longrightarrow> attempts V w0 rows w'"
| att_close_failed: "attempts V w0 rows w \<Longrightarrow> close V w = (Inl e, w') \<Longrightarrow> attempts V w0 rows w'"

lemma keeps_open: "keeps E w rows \<Longrightarrow> \<not> w_closed w"
  by (auto simp: keeps_def run_holds_def)

lemma close_flush_footer:
  assumes "\<not> w_closed w" and "close V w = (r, w')"
  obtains w1 where "bindW (flush_segment V w) (\<lambda>_ w1. write_footer V w1) = (r, w1)"
    and "w' = (if r = Inr () then w1\<lparr>w_closed := True\<rparr> else w1)"
proof -
  obtain r1 w1 where f: "flush_segment V w = (r1, w1)" by fastforce
  obtain r2 w2 where g: "write_footer V w1 = (r2, w2)" by fastforce
  show thesis
  proof (cases r1)
    case (Inl e)
    then have "bindW (flush_segment V w) (\<lambda>_ w1. write_footer V w1) = (Inl e, w1)" "close V w = (Inl e, w1)"
      using assms(1) f by (simp_all add: close_def)
    then show thesis using that [of w1] assms(2) by simp
  next
    case (Inr u)
    then have b: "bindW (flush_segment V w) (\<lambda>_ w1. write_footer V w1) = (r2, w2)" using f g by simp
    have c: "close V w = bindW (r2, w2) (\<lambda>_ w2. (Inr (), w2\<lparr>w_closed := True\<rparr>))"
      using assms(1) f g Inr by (simp add: close_def)
    show thesis
    proof (cases r2)
      case (Inl e)
      then show thesis using that [of w2] b c assms(2) by simp
    next
      case (Inr u)
      then have "r2 = r" "w' = w2\<lparr>w_closed := True\<rparr>" using c assms(2) by simp_all
      then show thesis using that [of w2] b Inr by simp
    qed
  qed
qed

lemma attempts_keep:
  assumes V: "sink_ok V" "env_ok (perfect V) E" and w0: "run_holds E w0 [] []" and "attempts V w0 rows w"
    and "all_storable (we_X V) (w_codec w0) (sch_Columns (w_schema w0)) rows"
  shows "same_file w0 w \<and> keeps E w rows"
  using assms(4,5)
proof (induction rule: attempts.induct)
  case att_new
  show ?case using w0 by (auto simp: keeps_def)
next
  case (att_append rows w rec r w')
  have "sublist rows (rows @ [record_cells (sch_Columns (w_schema w)) rec])" by simp
  from att_append.IH [OF all_storable_sublist [OF att_append.prems this]] have IH: "same_file w0 w" "keeps E w rows" by simp_all
  have "all_storable (we_X V) (w_codec w) (sch_Columns (w_schema w)) (rows @ [record_cells (sch_Columns (w_schema w)) rec])"
    using att_append.prems IH(1) by (simp add: same_file_def)
  from append_keeps [OF V IH(2) att_append.hyps(2) this att_append.hyps(3)] show ?case using same_file_trans [OF IH(1)] by simp
next
  case (att_refused rows w rec r w')
  have "append_record V rec w = (if w_closed w then Inl ClosedErr else Inl (Err SchemaError), w)"
    using att_refused.hyps(2) by (simp add: append_record_def)
  then have "w' = w" using att_refused.hyps(3) by simp
  then show ?case using att_refused.IH [OF att_refused.prems] by simp
next
  case (att_flush rows w r w')
  from att_flush.IH [OF att_flush.prems] have IH: "same_file w0 w" "keeps E w rows" by simp_all
  have "all_storable (we_X V) (w_codec w) (sch_Columns (w_schema w)) rows" using att_flush.prems IH(1) by (simp add: same_file_def)
  from flush_keeps(1,2) [OF V IH(2) this] att_flush.hyps(2) show ?case using same_file_trans [OF IH(1)] by (auto simp: flush_def)
next
  case (att_checkpoint rows w r w')
  from att_checkpoint.IH [OF att_checkpoint.prems] have IH: "same_file w0 w" "keeps E w rows" by simp_all
  have st: "all_storable (we_X V) (w_codec w) (sch_Columns (w_schema w)) rows"
    using att_checkpoint.prems IH(1) by (simp add: same_file_def)
  show ?case
  proof (cases "w_closed w \<or> \<not> w_dirty w")
    case True
    then show ?thesis using att_checkpoint.hyps(2) IH by (auto simp: checkpoint_def)
  next
    case False
    then have "bindW (flush_segment V w) (\<lambda>_ w1. write_footer V w1) = (r, w')" using att_checkpoint.hyps(2) by (simp add: checkpoint_def)
    from flush_footer_keeps [OF V IH(2) st this] show ?thesis using same_file_trans [OF IH(1)] by simp
  qed
next
  case (att_close_failed rows w e w')
  from att_close_failed.IH [OF att_close_failed.prems] have IH: "same_file w0 w" "keeps E w rows" by simp_all
  have st: "all_storable (we_X V) (w_codec w) (sch_Columns (w_schema w)) rows"
    using att_close_failed.prems IH(1) by (simp add: same_file_def)
  obtain w1 where "bindW (flush_segment V w) (\<lambda>_ w1. write_footer V w1) = (Inl e, w1)" "w' = w1"
    by (rule close_flush_footer [OF keeps_open [OF IH(2)] att_close_failed.hyps(2)]) simp
  then show ?case using flush_footer_keeps [OF V IH(2) st] same_file_trans [OF IH(1)] by simp
qed

lemma writer_codec_perfect [simp]: "writer_codec (perfect V) o2 = writer_codec V o2"
  by (simp add: writer_codec_def)

lemma write_result:
  assumes "sink_ok V" and "(case writer_write V p w0 of (Inl e, _) \<Rightarrow> Inl e | (Inr _, w1) \<Rightarrow> Inr w1) = Inr w"
  shows "(case writer_write (perfect V) p w0 of (Inl e, _) \<Rightarrow> Inl e | (Inr _, w1) \<Rightarrow> Inr w1) = Inr w"
  using write_stops [OF assms(1), of w0 p] assms(2) by (auto simp: perfect_or_stopped_def)

lemma new_writer_perfect:
  assumes "sink_ok V" and "new_writer V (Some sch) (Some opts) = Inr w"
  shows "new_writer (perfect V) (Some sch) (Some opts) = Inr w"
proof -
  obtain cid where cid: "validate sch = Inr ()" "writer_codec V (clamp_options opts) = Inr cid"
    using assms(2) by (auto simp: new_writer_def res_iff Let_def)
  then show ?thesis using assms(2) write_result [OF assms(1)] by (simp add: new_writer_def Let_def)
qed


text \<open>
  A stream that breaks off once, after the first byte of the first segment, and works from then on.
\<close>

definition flaky_env :: "u32 list wenv" where
  "flaky_env = sample_env\<lparr>we_sink := \<lambda>out p. if length out = 36 then (min 1 (length p), True) else (length p, False)\<rparr>"

lemma flaky_perfect: "perfect flaky_env = sample_env"
  by (simp add: perfect_def flaky_env_def sample_env_def)

lemma flaky_sink: "sink_ok flaky_env"
  by (auto simp: sink_ok_def flaky_env_def split: if_splits)

lemma flaky_recovers: "36 < length out \<Longrightarrow> \<not> fails_after flaky_env out"
  by (auto simp: fails_after_def flaky_env_def)

lemma flaky_new: "new_writer flaky_env (Some sample_table) (Some sample_options) = new_writer sample_env (Some sample_table) (Some sample_options)"
proof -
  have "writer_codec flaky_env o2 = writer_codec sample_env o2" for o2
    using writer_codec_perfect [of flaky_env o2] by (simp add: flaky_perfect)
  moreover have "writer_write flaky_env p w = writer_write sample_env p w" if "w_out w = []" for p w
    using that by (simp add: writer_write_def flaky_env_def sample_env_def)
  moreover have "we_now flaky_env = we_now sample_env" by (simp add: flaky_env_def)
  ultimately show ?thesis by (simp add: new_writer_def Let_def)
qed

lemma flaky_flush:
  assumes "w_schema w = sample_table" and "w_codec w = CompNone" and "w_builders w = [sample_column x]" and "length (w_out w) = 36"
  shows "\<exists>c. flush_segment flaky_env w = (Inl IOErr, grow [c] w)"
proof -
  obtain chunk st where c: "builder_encode identity_externals (Some CompNone) (sample_column x) = Inr (chunk, st)"
    "chunk \<noteq> []" using sample_chunk by blast
  have X: "we_X flaky_env = identity_externals" by (simp add: flaky_env_def sample_env_def)
  have rows: "b_rows (sample_column x) = 1" by (simp add: append_bytes_def new_builder_def)
  have len: "length chunk \<noteq> 0" using c(2) by simp
  have "min (Suc 0) (length chunk) = 1" using len by linarith
  then have "writer_write flaky_env chunk w = (Inl IOErr, grow (take 1 chunk) w)"
    using assms(4) by (simp add: writer_write_def flaky_env_def grow_def)
  moreover obtain c0 rest where "chunk = c0 # rest" using c(2) by (cases chunk) auto
  ultimately have "writer_write flaky_env chunk w = (Inl IOErr, grow [c0] w)" by simp
  then have "flush_columns flaky_env (sch_Columns sample_table) [sample_column x] w = (Inl IOErr, grow [c0] w)"
    using assms(2) by (simp add: sample_table_def flush_column_def sample_stats X c(1) Let_def)
  then show ?thesis using assms(1,3) rows by (auto simp: flush_segment_def)
qed

lemma flaky_close:
  assumes "sample_writer w n 0" and w1: "w1 = grow q (w\<lparr>w_builders := [sample_column x], w_dirty := True\<rparr>)"
    and len: "length (w_out w) = 36" "q \<noteq> []" and small: "n + length q \<le> 100"
  shows "\<exists>w'. close flaky_env w1 = (Inr (), w') \<and> readable w'"
proof -
  have long: "36 < length (w_out w1)" using len by (cases q) (simp_all add: w1)
  obtain p seg m where p: "flush_segment sample_env w1 = (Inr (), (grow p w1)\<lparr>w_totalRows := m,
       w_segments := w_segments w1 @ [seg], w_builders := [new_builder KindBytes]\<rparr>)" "length p \<le> 100" "small_segment seg"
    using sample_flush [of w1 x] assms(1) by (auto simp: w1 sample_writer_def)
  let ?w2 = "(grow p w1)\<lparr>w_totalRows := m, w_segments := w_segments w1 @ [seg], w_builders := [new_builder KindBytes]\<rparr>"
  have w2: "sample_writer ?w2 200 1" using assms(1) p(2,3) small by (simp add: sample_writer_def w1)
  obtain f where f: "write_footer sample_env ?w2 = (Inr (), (grow f ?w2)\<lparr>w_dirty := False\<rparr>)" "length f \<le> 2000"
    and body: "length (footer_body (writer_footer ?w2)) \<le> 1500"
    using sample_footer_write [of ?w2] w2 by (auto simp: sample_writer_def sample_options_def)
  have run: "flush_segment flaky_env w1 = (Inr (), ?w2)"
    using flush_segment_stops [OF flaky_sink, of w1] flaky_recovers [OF long] p(1) by (simp add: perfect_or_stopped_def flaky_perfect)
  have "36 < length (w_out ?w2)" using long by simp
  from flaky_recovers [OF this] have "write_footer flaky_env ?w2 = (Inr (), (grow f ?w2)\<lparr>w_dirty := False\<rparr>)"
    using write_footer_stops [OF flaky_sink, of ?w2] f(1) by (simp add: perfect_or_stopped_def flaky_perfect)
  then have c: "close flaky_env w1 = (Inr (), (grow f ?w2)\<lparr>w_dirty := False, w_closed := True\<rparr>)"
    using run assms(1) by (simp add: close_def sample_writer_def w1)
  let ?w = "(grow f ?w2)\<lparr>w_dirty := False, w_closed := True\<rparr>"
  have "validate sample_table = Inr ()" by (rule sample_premises(1))
  moreover have "names_fit sample_table" by (simp add: names_fit_def sample_table_def)
  moreover have "writer_footer ?w = writer_footer ?w2" by (simp add: writer_footer_def)
  ultimately have "readable ?w"
    using w2 f(2) body by (simp add: readable_def sample_writer_def limit_defs) (simp add: sample_options_def)
  then show ?thesis using c by blast
qed


end
