(* ===== verification/Example.thy ===== *)
theory Example
  imports Sizes Queries Facade
begin

text \<open>
  The program of \<open>examples/writeread\<close>: it writes four records through the public API, opens
  the file and prints the answers to two queries and a search. That it prints what it is
  meant to print composes the writer, the reader and the query engine.
\<close>

section \<open>The program\<close>

definition example_schema :: schema where
  "example_schema = \<lparr>sch_ID = 100, sch_Name = to_bytes ''demo-events'', sch_Version = 1, sch_Columns =
     [\<lparr>col_Name = to_bytes ''timestamp'', col_Type = TypeTimestamp, col_Indexed = False, col_Nullable = False\<rparr>,
      \<lparr>col_Name = to_bytes ''srcip'', col_Type = TypeIP, col_Indexed = True, col_Nullable = False\<rparr>,
      \<lparr>col_Name = to_bytes ''dstport'', col_Type = TypePort, col_Indexed = True, col_Nullable = False\<rparr>,
      \<lparr>col_Name = to_bytes ''country'', col_Type = TypeEnum, col_Indexed = True, col_Nullable = True\<rparr>,
      \<lparr>col_Name = to_bytes ''eventtype'', col_Type = TypeEnum, col_Indexed = True, col_Nullable = False\<rparr>]\<rparr>"

record sample_event =
  se_ip :: string
  se_port :: u64
  se_country :: string
  se_event :: string

definition example_events :: "sample_event list" where
  "example_events =
     [\<lparr>se_ip = ''203.0.113.5'', se_port = 22, se_country = ''RU'', se_event = ''ssh.bruteforce''\<rparr>,
      \<lparr>se_ip = ''203.0.113.5'', se_port = 22, se_country = ''RU'', se_event = ''ssh.bruteforce''\<rparr>,
      \<lparr>se_ip = ''198.51.100.9'', se_port = 3389, se_country = ''CN'', se_event = ''rdp.scan''\<rparr>,
      \<lparr>se_ip = ''192.0.2.1'', se_port = 22, se_country = '''', se_event = ''ssh.login.success''\<rparr>]"

text \<open>What ends the program early: \<open>log.Fatal\<close>, or a panic on the \<open>nil\<close> result of a failed query.\<close>

datatype example_error = FatalCreate | FatalAddress string | FatalNtcf fault | NilResult

definition example_record :: "stdlib \<Rightarrow> u64 \<Rightarrow> nat \<Rightarrow> sample_event \<Rightarrow> example_error + row_record" where
  "example_record L base i s =
     (case normalize_ip L (se_ip s) of
        None \<Rightarrow> Inl (FatalAddress (se_ip s))
      | Some ip16 \<Rightarrow>
          Inr [int_val (base + of_nat i * 1000000), bytes_val ip16, int_val (se_port s),
               if se_country s = '''' then null_val else bytes_val (to_bytes (se_country s)),
               bytes_val (to_bytes (se_event s))])"

fun example_appends :: "'bm wenv \<Rightarrow> stdlib \<Rightarrow> u64 \<Rightarrow> nat \<Rightarrow> sample_event list \<Rightarrow> writer \<Rightarrow> example_error + writer" where
  "example_appends V L base i [] w = Inr w"
| "example_appends V L base i (s # ss) w =
     (case example_record L base i s of
        Inl e \<Rightarrow> Inl e
      | Inr rec \<Rightarrow> (case append_record V rec w of
          (Inl e, _) \<Rightarrow> Inl (FatalNtcf e)
        | (Inr _, w1) \<Rightarrow> example_appends V L base (Suc i) ss w1))"

text \<open>The first half, to \<open>f.Close\<close>; \<open>created\<close> is whether \<open>os.Create\<close> succeeds, \<open>base\<close> the clock.\<close>

definition example_write :: "'bm wenv \<Rightarrow> stdlib \<Rightarrow> bool \<Rightarrow> u64 \<Rightarrow> example_error + writer" where
  "example_write V L created base =
     (if \<not> created then Inl FatalCreate
      else case new_writer V (Some example_schema) (Some default_writer_options) of
        Inl e \<Rightarrow> Inl (FatalNtcf e)
      | Inr w \<Rightarrow> (case example_appends V L base 0 example_events w of
          Inl e \<Rightarrow> Inl e
        | Inr w1 \<Rightarrow> (case close V w1 of
            (Inl e, _) \<Rightarrow> Inl (FatalNtcf e)
          | (Inr _, w2) \<Rightarrow> Inr w2)))"

definition example_count_query :: string where
  "example_count_query = ''SELECT count(*) FROM events WHERE country='' @ [CHR 0x27] @ ''RU'' @ [CHR 0x27]"

definition example_top_query :: string where
  "example_top_query = ''SELECT top(eventtype) FROM events''"

text \<open>The first cell of the answer to a \<open>top\<close> query, and its count.\<close>

definition top_cells :: "qresult \<Rightarrow> example_error + string \<times> string" where
  "top_cells res =
     (case bindE (index_at (q_Rows res) 0) (\<lambda>row. bindE (index_at row 0) (\<lambda>k. bindE (index_at row 1) (\<lambda>n. Inr (k, n)))) of
        Inl e \<Rightarrow> Inl (FatalNtcf e) | Inr kn \<Rightarrow> Inr kn)"

text \<open>The second half, on the content of the file: the text it prints.\<close>

definition example_report :: "'bm engine \<Rightarrow> string \<Rightarrow> bytes \<Rightarrow> example_error + string" where
  "example_report E path content =
     (case new_reader content of
        Inl e \<Rightarrow> Inl (FatalNtcf e)
      | Inr r \<Rightarrow>
          (let info = reader_info r in
           case reader_query E r example_count_query of
             Inl _ \<Rightarrow> Inl NilResult
           | Inr res \<Rightarrow>
               (case reader_query E r example_top_query of
                  Inl _ \<Rightarrow> Inl NilResult
                | Inr tops \<Rightarrow>
                    (case top_cells tops of
                       Inl e \<Rightarrow> Inl e
                     | Inr (k, n) \<Rightarrow>
                         (case search E r ''ip'' ''203.0.113.5'' 10 of
                            Inl _ \<Rightarrow> Inl NilResult
                          | Inr hits \<Rightarrow> Inr (
                              ''file '' @ path @ '': '' @ show_nat (unat (fi_TotalRows info)) @ '' rows, ''
                                @ show_nat (length (fi_Columns info)) @ '' column(s)'' @ nl
                              @ ''RU events: '' @ show_nat (unat (q_Count res)) @ nl
                              @ ''top event: '' @ k @ '' ('' @ n @ '')'' @ nl
                              @ ''rows for 203.0.113.5: '' @ show_nat (length (q_Rows hits)) @ nl))))))"

definition example_main :: "'bm wenv \<Rightarrow> 'bm engine \<Rightarrow> bool \<Rightarrow> u64 \<Rightarrow> example_error + string" where
  "example_main V E created base =
     (case example_write V (en_std E) created base of
        Inl e \<Rightarrow> Inl e
      | Inr w \<Rightarrow> example_report E ''demo.ntcf'' (w_out w))"

section \<open>What it writes\<close>

definition example_rows :: "u64 \<Rightarrow> bytes \<Rightarrow> bytes \<Rightarrow> bytes \<Rightarrow> cell list list" where
  "example_rows base a b c =
     [[IntCell base, BytesCell a, IntCell 22, BytesCell (to_bytes ''RU''), BytesCell (to_bytes ''ssh.bruteforce'')],
      [IntCell (base + 1000000), BytesCell a, IntCell 22, BytesCell (to_bytes ''RU''), BytesCell (to_bytes ''ssh.bruteforce'')],
      [IntCell (base + 2000000), BytesCell b, IntCell 3389, BytesCell (to_bytes ''CN''), BytesCell (to_bytes ''rdp.scan'')],
      [IntCell (base + 3000000), BytesCell c, IntCell 22, Null, BytesCell (to_bytes ''ssh.login.success'')]]"

definition example_records :: "u64 \<Rightarrow> bytes \<Rightarrow> bytes \<Rightarrow> bytes \<Rightarrow> row_record list" where
  "example_records base a b c =
     [[int_val base, bytes_val a, int_val 22, bytes_val (to_bytes ''RU''), bytes_val (to_bytes ''ssh.bruteforce'')],
      [int_val (base + 1000000), bytes_val a, int_val 22, bytes_val (to_bytes ''RU''), bytes_val (to_bytes ''ssh.bruteforce'')],
      [int_val (base + 2000000), bytes_val b, int_val 3389, bytes_val (to_bytes ''CN''), bytes_val (to_bytes ''rdp.scan'')],
      [int_val (base + 3000000), bytes_val c, int_val 22, null_val, bytes_val (to_bytes ''ssh.login.success'')]]"

text \<open>The three addresses of the records, as \<open>netip\<close> parses them.\<close>

definition example_addresses :: "stdlib \<Rightarrow> bytes \<Rightarrow> bytes \<Rightarrow> bytes \<Rightarrow> bool" where
  "example_addresses L a b c \<longleftrightarrow> parse_addr L ''203.0.113.5'' = Some a \<and> parse_addr L ''198.51.100.9'' = Some b
     \<and> parse_addr L ''192.0.2.1'' = Some c \<and> length a = 16 \<and> length b = 16 \<and> length c = 16 \<and> a \<noteq> b \<and> a \<noteq> c"

lemma example_records_ok:
  assumes "example_addresses L a b c"
  shows "list_all2 (\<lambda>(i, s) rec. example_record L base i s = Inr rec) (enumerate 0 example_events) (example_records base a b c)"
  using assms
  by (simp add: example_addresses_def example_events_def example_records_def example_record_def normalize_ip_def)

lemma example_appends_ok:
  "list_all2 (\<lambda>(i, s) rec. example_record L base i s = Inr rec) (enumerate i ss) recs \<Longrightarrow>
     run_ops V (map OpAppend recs) w = (Inr (), w') \<Longrightarrow> example_appends V L base i ss w = Inr w'"
proof (induction ss arbitrary: i recs w)
  case (Cons s ss)
  then obtain rec recs' where r: "recs = rec # recs'" "example_record L base i s = Inr rec"
    "list_all2 (\<lambda>(i, s) rec. example_record L base i s = Inr rec) (enumerate (Suc i) ss) recs'"
    by (auto simp: list_all2_Cons1)
  then obtain w1 where "append_record V rec w = (Inr (), w1)" "run_ops V (map OpAppend recs') w1 = (Inr (), w')"
    using Cons.prems(2) by (auto simp: bindW_def split: prod.splits sum.splits)
  then show ?case using Cons.IH [OF r(3)] r(2) by simp
qed simp

lemma example_rows_of: "rows_of (sch_Columns example_schema) (map OpAppend (example_records base a b c)) = example_rows base a b c"
  by (simp add: example_schema_def example_records_def example_rows_def record_cells_def value_cell_def int_val_def bytes_val_def
      null_val_def type_kind_def)

lemma example_queries:
  "parse example_count_query = Inr \<lparr>s_Aggregate = Some \<lparr>ag_Func = ''count'', ag_Col = ''*'', ag_N = 0\<rparr>, s_Star = False,
      s_Projection = [], s_Where = Some (Cmp ''country'' ''='' [''RU'']), s_Limit = 0\<rparr>"
  "parse example_top_query = Inr \<lparr>s_Aggregate = Some \<lparr>ag_Func = ''top'', ag_Col = ''eventtype'', ag_N = 10\<rparr>, s_Star = False,
      s_Projection = [], s_Where = None, s_Limit = 0\<rparr>"
  by code_simp+

lemma example_columns:
  "schema_index example_schema (to_bytes ''srcip'') = Some 1" "schema_index example_schema (to_bytes ''country'') = Some 3"
  "schema_index example_schema (to_bytes ''eventtype'') = Some 4" "resolve_search_columns example_schema ''ip'' = [''srcip'']"
  "map col_Type (sch_Columns example_schema) = [TypeTimestamp, TypeIP, TypePort, TypeEnum, TypeEnum]"
  "validate example_schema = Inr ()"
  by code_simp+

lemma example_descriptor: "length (append_descriptor example_schema) \<le> 200"
  by code_simp

lemma example_small:
  assumes "example_addresses L a b c"
  shows "list_all (op_arity (length (sch_Columns example_schema))) (map OpAppend (example_records base a b c))"
    and "list_all (small_op 17) (map OpAppend (example_records base a b c))"
  using assms
  by (simp_all add: example_schema_def example_records_def example_addresses_def int_val_def bytes_val_def null_val_def to_bytes_def)

lemma example_written:
  assumes env: "env_ok V E" and z: "we_zstd V 3" "\<forall>src. zstd_inverts (we_X V) src" and addr: "example_addresses (en_std E) a b c"
  shows "\<exists>w rd tables. example_write V (en_std E) True base = Inr w \<and> new_reader (w_out w) = Inr rd
     \<and> reader_schema rd = example_schema \<and> file_holds E rd tables \<and> concat tables = example_rows base a b c"
proof -
  let ?ops = "map OpAppend (example_records base a b c)"
  have n: "length (example_records base a b c) = 4" by (simp add: example_records_def)
  have d: "clamp_options default_writer_options = default_writer_options"
    by (simp add: clamp_options_def default_writer_options_def limit_defs Let_def)
  have codec: "writer_codec V (clamp_options default_writer_options) = Inr Zstd"
    unfolding d using z(1) by (simp add: writer_codec_def default_writer_options_def)
  have opts: "length (wo_WriterID default_writer_options) = 16" "length (wo_SourceType default_writer_options) \<le> 4096"
    "\<not> wo_BuildInverted default_writer_options" by (simp_all add: default_writer_options_def)
  have fits: "codec_fits (we_X V) Zstd (length ?ops * (17 + 10))"
    by (rule short_fits) (use z(2) in \<open>simp_all add: n inverts_def\<close>)
  have names: "names_fit example_schema" by (simp add: names_fit_def example_schema_def to_bytes_def)
  have "length (sch_Columns example_schema) = 5" by (simp add: example_schema_def)
  then have room: "footer_room 17 (Suc (length ?ops)) example_schema"
    using example_descriptor by (simp add: footer_room_def n)
  have "\<exists>w rd. write_file V example_schema default_writer_options ?ops = Inr w \<and> new_reader (w_out w) = Inr rd
      \<and> reader_schema rd = example_schema \<and> file_holds E rd (segments_of (wo_SegmentRows (clamp_options default_writer_options))
        (sch_Columns example_schema) ?ops)"
    by (rule small_file_ok [OF env example_columns(6) names codec opts example_small [OF addr] _ _ _ room fits]) (simp_all add: n)
  then obtain w rd tables where w: "write_file V example_schema default_writer_options ?ops = Inr w" "new_reader (w_out w) = Inr rd"
    "reader_schema rd = example_schema" "file_holds E rd tables" "concat tables = rows_of (sch_Columns example_schema) ?ops"
    using segments_of_rows by metis
  obtain w0 w1 where r: "new_writer V (Some example_schema) (Some default_writer_options) = Inr w0" "run_ops V ?ops w0 = (Inr (), w1)"
    "close V w1 = (Inr (), w)" by (rule write_file_parts [OF w(1)])
  have "example_appends V (en_std E) base 0 example_events w0 = Inr w1"
    by (rule example_appends_ok [OF example_records_ok [OF addr] r(2)])
  then have "example_write V (en_std E) True base = Inr w" using r(1,3) by (simp add: example_write_def)
  then show ?thesis using w(2-5) example_rows_of by auto
qed

section \<open>What it prints\<close>

lemma example_matching:
  assumes "example_addresses L a b c"
  shows "length (matching L example_schema (Some (Cmp ''country'' ''='' [''RU''])) (example_rows base a b c)) = 2"
    and "matching L example_schema None rows = rows"
    and "length (filter (\<lambda>row. row_matches L example_schema row (Cmp ''srcip'' ''='' [''203.0.113.5''])) (example_rows base a b c)) = 2"
proof -
  have t: "col_Type (sch_Columns example_schema ! 3) = TypeEnum" "col_Type (sch_Columns example_schema ! Suc 0) = TypeIP"
    by (simp_all add: example_schema_def)
  have "to_bytes ''RU'' \<noteq> to_bytes ''CN''" by code_simp
  then show "length (matching L example_schema (Some (Cmp ''country'' ''='' [''RU''])) (example_rows base a b c)) = 2"
    by (simp add: matching_def satisfies_def example_rows_def example_columns(2) t cell_test_def cell_eq_def norm_bytes_def)
  show "matching L example_schema None rows = rows" by (simp add: matching_def satisfies_def)
  show "length (filter (\<lambda>row. row_matches L example_schema row (Cmp ''srcip'' ''='' [''203.0.113.5''])) (example_rows base a b c)) = 2"
    using assms by (auto simp: example_addresses_def example_rows_def example_columns(1) t cell_test_def cell_eq_def norm_bytes_def normalize_ip_def)
qed

lemma example_top: "top_text L TypeEnum 10 4 (example_rows base a b c)
   = [[''ssh.bruteforce'', ''2''], [''rdp.scan'', ''1''], [''ssh.login.success'', ''1'']]"
proof -
  have "column_values bytes_of 4 (example_rows base a b c)
     = map to_bytes [''ssh.bruteforce'', ''ssh.bruteforce'', ''rdp.scan'', ''ssh.login.success'']"
    by (simp add: column_values_def example_rows_def bytes_of_def map_filter_simps)
  moreover have "ranking from_bytes 10 (map to_bytes [''ssh.bruteforce'', ''ssh.bruteforce'', ''rdp.scan'', ''ssh.login.success''])
     = [[''ssh.bruteforce'', ''2''], [''rdp.scan'', ''1''], [''ssh.login.success'', ''1'']]"
    by code_simp
  moreover have "format_bytes_val L TypeEnum = from_bytes" by (rule ext) (simp add: format_bytes_val_def)
  ultimately show ?thesis by (simp add: top_text_def type_kind_def)
qed

lemma example_reported:
  assumes R: "roaring_ok (en_R E)" and rd: "new_reader content = Inr rd" and sch: "reader_schema rd = example_schema"
    and holds: "file_holds E rd tables" "concat tables = example_rows base a b c" and addr: "example_addresses (en_std E) a b c"
  shows "example_report E path content = Inr (
      ''file '' @ path @ '': 4 rows, 5 column(s)'' @ nl @ ''RU events: 2'' @ nl @ ''top event: ssh.bruteforce (2)'' @ nl
      @ ''rows for 203.0.113.5: 2'' @ nl)"
proof -
  note m = example_matching [OF addr]
  have t4: "col_Type (sch_Columns example_schema ! 4) = TypeEnum" by (simp add: example_schema_def)
  have valid: "validate_stmt example_schema st = Inr ()"
    if "parse q = Inr st" "q = example_count_query \<or> q = example_top_query" for q st
    using that example_queries example_columns(2,3) by (auto simp: validate_stmt_iff check_column_iff)
  obtain res where res: "reader_query E rd example_count_query = Inr res" "unat (q_Count res) = 2"
    using query_count_ok [OF R holds(1) example_queries(1)] valid [OF example_queries(1)] m(1) by (auto simp: sch holds(2))
  obtain top where top: "reader_query E rd example_top_query = Inr top" "q_Rows top
      = [[''ssh.bruteforce'', ''2''], [''rdp.scan'', ''1''], [''ssh.login.success'', ''1'']]"
    using query_top_ok [OF R holds(1) example_queries(2)] valid [OF example_queries(2)]
    by (auto simp: sch holds(2) m(2) t4 example_columns(3) example_top)
  obtain hits where hits: "search E rd ''ip'' ''203.0.113.5'' 10 = Inr hits" "length (q_Rows hits) = 2"
    using search_ok [OF R holds(1), of "''ip''" "''203.0.113.5''" 10] m(3)
    by (auto simp: sch holds(2) example_columns(4) simp del: row_matches.simps)
  have "unat (f_TotalRows (r_footer rd)) = 4" using holds by (simp add: file_holds_def example_rows_def)
  moreover have "length (sch_Columns (f_Schema (r_footer rd))) = 5"
    using sch by (simp add: reader_schema_def example_schema_def)
  moreover have "top_cells top = Inr (''ssh.bruteforce'', ''2'')" using top(2) by (simp add: top_cells_def index_at_def)
  moreover have "show_nat 4 = ''4''" "show_nat 5 = ''5''" "show_nat 2 = ''2''" by code_simp+
  ultimately show ?thesis
    using rd res top(1) hits by (simp add: example_report_def reader_info_def Let_def)
qed

text \<open>
  C8: the example program prints the answers its records call for: whatever the time, on a stream that
  takes everything and with a compressor whose output decompresses, it writes its four
  records, opens the file, and reports four rows in five columns, two events from \<open>RU\<close>,
  \<open>ssh.bruteforce\<close> as the most frequent event and two rows for the address.
\<close>

theorem example_prints:
  assumes "env_ok V E" and "we_zstd V 3" and "\<forall>src. zstd_inverts (we_X V) src" and "example_addresses (en_std E) a b c"
  shows "example_main V E True base = Inr (
      ''file demo.ntcf: 4 rows, 5 column(s)'' @ nl @ ''RU events: 2'' @ nl @ ''top event: ssh.bruteforce (2)'' @ nl
      @ ''rows for 203.0.113.5: 2'' @ nl)"
proof -
  obtain w rd tables where w: "example_write V (en_std E) True base = Inr w" "new_reader (w_out w) = Inr rd"
    "reader_schema rd = example_schema" "file_holds E rd tables" "concat tables = example_rows base a b c"
    using example_written [OF assms] by blast
  have "roaring_ok (en_R E)" using assms(1) by (simp add: env_ok_def)
  from example_reported [OF this w(2-5) assms(4)] show ?thesis using w(1) by (simp add: example_main_def)
qed

text \<open>Addresses as numbers: the digits and dots of a text, cut or filled to 16 bytes.\<close>

definition text_std :: stdlib where
  "text_std = sample_std\<lparr>parse_addr := \<lambda>s. Some (take 16 (to_bytes s @ replicate 16 0))\<rparr>"

theorem example_prints_witness:
  "example_main sample_env (sample_engine\<lparr>en_std := text_std\<rparr>) True 5 = Inr (
      ''file demo.ntcf: 4 rows, 5 column(s)'' @ nl @ ''RU events: 2'' @ nl @ ''top event: ssh.bruteforce (2)'' @ nl
      @ ''rows for 203.0.113.5: 2'' @ nl)"
proof (rule example_prints)
  show "env_ok sample_env (sample_engine\<lparr>en_std := text_std\<rparr>)" using sample_env_ok by (simp add: env_ok_def)
  show "we_zstd sample_env 3" by (simp add: sample_env_def)
  show "\<forall>src. zstd_inverts (we_X sample_env) src" by (simp add: sample_env_def zstd_inverts_def identity_externals_def)
  let ?a = "\<lambda>s. take 16 (to_bytes s @ replicate 16 0)"
  have "?a ''203.0.113.5'' \<noteq> ?a ''198.51.100.9''" "?a ''203.0.113.5'' \<noteq> ?a ''192.0.2.1''" by code_simp+
  then show "example_addresses (en_std (sample_engine\<lparr>en_std := text_std\<rparr>)) (?a ''203.0.113.5'') (?a ''198.51.100.9'') (?a ''192.0.2.1'')"
    by (simp add: example_addresses_def text_std_def min_def)
qed

end
